(* ===== verification/QvPrelude.thy ===== *)
theory QvPrelude
  imports Main "HOL-Library.Word" "HOL-Library.AList"
begin

text \<open>
  Shared vocabulary of the development: the fault type every fallible operation of the model
  returns, its sequencing operator, the width-tagged integer types of the C++ code, and the
  generic lemmas on lists, maps and words that several components use.

  A C++ operation that can throw, terminate the process or run into undefined behaviour (for
  instance \<open>back()\<close> of an empty list) is modelled by a function into \<open>fault + 'a\<close>: \<open>Inl\<close>
  carries the fault, \<open>Inr\<close> the normal result. A loop whose length no structural recursion bounds takes
  fuel and ends in \<open>Out_of_fuel\<close> when it runs out; the theorems show that the fuel given is enough.
\<close>

section \<open>Faults and results\<close>

datatype fault =
    Undefined string
  | Throws string
  | Out_of_fuel

type_synonym 'a result = "fault + 'a"

definition rbind :: "'a result \<Rightarrow> ('a \<Rightarrow> 'b result) \<Rightarrow> 'b result" where
  "rbind m f = (case m of Inl e \<Rightarrow> Inl e | Inr a \<Rightarrow> f a)"

lemma rbind_simps [simp]:
  "rbind (Inl e) f = Inl e"
  "rbind (Inr a) f = f a"
  by (simp_all add: rbind_def)

lemma rbind_eq_Inr_conv: "rbind m f = Inr b \<longleftrightarrow> (\<exists>a. m = Inr a \<and> f a = Inr b)"
  by (cases m) auto

lemma rbind_InrE:
  assumes "rbind m f = Inr b"
  obtains a where "m = Inr a" and "f a = Inr b"
  using assms by (auto simp: rbind_eq_Inr_conv)

lemma rbind_assoc: "rbind (rbind m f) g = rbind m (\<lambda>a. rbind (f a) g)"
  by (cases m) auto

definition returns :: "'a result \<Rightarrow> bool" where
  "returns m \<longleftrightarrow> (\<exists>a. m = Inr a)"

lemma returns_simps [simp]: "returns (Inr a)" "\<not> returns (Inl e)"
  by (simp_all add: returns_def)

text \<open>A range-for loop whose body may fault.\<close>

fun rfold :: "('a \<Rightarrow> 's \<Rightarrow> 's result) \<Rightarrow> 'a list \<Rightarrow> 's \<Rightarrow> 's result" where
  "rfold f [] s = Inr s"
| "rfold f (x # xs) s = rbind (f x s) (rfold f xs)"

lemma rfold_append: "rfold f (xs @ ys) = (\<lambda>s. rbind (rfold f xs s) (rfold f ys))"
proof (induction xs)
  case (Cons x xs)
  show ?case by (rule ext) (simp add: Cons.IH rbind_assoc)
qed (rule ext, simp)

lemma rfold_total:
  assumes "P s" and "\<And>x s. x \<in> set xs \<Longrightarrow> P s \<Longrightarrow> \<exists>s'. f x s = Inr s' \<and> P s'"
  shows "\<exists>s'. rfold f xs s = Inr s' \<and> P s'"
  using assms
proof (induction xs arbitrary: s)
  case (Cons x xs)
  from Cons.prems(2) [of x s] Cons.prems(1) obtain s1 where s1: "f x s = Inr s1" "P s1" by auto
  then show ?case using Cons.IH [OF s1(2)] Cons.prems(2) by auto
qed simp

lemma rfold_cong: "(\<And>x s. x \<in> set xs \<Longrightarrow> f x s = g x s) \<Longrightarrow> rfold f xs s = rfold g xs s"
  by (induction xs arbitrary: s) (auto intro!: arg_cong [where f = "rbind _"])

text \<open>A loop that computes one value per element, and one that keeps the elements passing a test.\<close>

fun rmap :: "('a \<Rightarrow> 'b result) \<Rightarrow> 'a list \<Rightarrow> 'b list result" where
  "rmap f [] = Inr []"
| "rmap f (x # xs) = rbind (f x) (\<lambda>y. rbind (rmap f xs) (\<lambda>ys. Inr (y # ys)))"

fun rfilter :: "('a \<Rightarrow> bool result) \<Rightarrow> 'a list \<Rightarrow> 'a list result" where
  "rfilter p [] = Inr []"
| "rfilter p (x # xs) = rbind (p x) (\<lambda>b. rbind (rfilter p xs) (\<lambda>ys. Inr (if b then x # ys else ys)))"

lemma rmap_Inr: "(\<And>x. x \<in> set xs \<Longrightarrow> f x = Inr (g x)) \<Longrightarrow> rmap f xs = Inr (map g xs)"
  by (induction xs) auto

lemma rfilter_Inr: "(\<And>x. x \<in> set xs \<Longrightarrow> p x = Inr (q x)) \<Longrightarrow> rfilter p xs = Inr (filter q xs)"
  by (induction xs) auto

section \<open>Machine integers\<close>

type_synonym u8 = "8 word"
type_synonym u32 = "32 word"
type_synonym u64 = "64 word"

text \<open>\<open>std::numeric_limits<uint32_t>::max()\<close>.\<close>

definition u32_max :: u32 where
  "u32_max = - 1"

lemma u32_max_Suc [simp]: "u32_max + 1 = 0" "1 + u32_max = 0"
  by (simp_all add: u32_max_def)

lemma u32_succ_eq_0_iff: "1 + (t::u32) = 0 \<longleftrightarrow> t = u32_max"
  by (metis add.commute add_left_cancel u32_max_Suc(2))

lemma u32_succ_pred [simp]: "1 + t - 1 = (t::u32)"
  by simp

section \<open>Lists\<close>

text \<open>The loop \<open>for (i = 0; i < n && it != end; ++i, ++it) out.push_back(*it)\<close>.\<close>

fun copy_n :: "nat \<Rightarrow> 'a list \<Rightarrow> 'a list" where
  "copy_n 0 xs = []"
| "copy_n (Suc n) [] = []"
| "copy_n (Suc n) (x # xs) = x # copy_n n xs"

lemma copy_n_take [simp]: "copy_n n xs = take n xs"
  by (induction n xs rule: copy_n.induct) auto

lemma in_set_not_Nil: "x \<in> set xs \<Longrightarrow> xs \<noteq> []"
  by auto

lemma filter_neq_id: "t \<notin> set xs \<Longrightarrow> filter (\<lambda>u. u \<noteq> t) xs = xs"
  by (induction xs) auto

lemma distinct_map_butlast: "distinct (map f xs) \<Longrightarrow> distinct (map f (butlast xs))"
  by (simp add: map_butlast distinct_butlast)

lemma last_notin_butlast: "distinct xs \<Longrightarrow> xs \<noteq> [] \<Longrightarrow> last xs \<notin> set (butlast xs)"
  by (metis append_butlast_last_id distinct_append disjoint_iff list.set_intros(1))

lemma set_butlast_distinct:
  assumes "distinct xs" and "xs \<noteq> []"
  shows "set (butlast xs) = set xs - {last xs}"
proof -
  have "set xs = insert (last xs) (set (butlast xs))"
    using assms(2) by (metis append_butlast_last_id list.simps(15) rotate1.simps(2) set_rotate1)
  then show ?thesis using last_notin_butlast [OF assms] by auto
qed

lemma length_butlast_less: "xs \<noteq> [] \<Longrightarrow> length (butlast xs) < length xs"
  by (cases xs) auto

lemma distinct_set_lessThan_perm:
  "distinct xs \<Longrightarrow> set xs = {0..<n} \<Longrightarrow> length xs = n"
  by (metis card_atLeastLessThan diff_zero distinct_card)

lemma card_Un4:
  assumes "finite A" "finite B" "finite C" "finite D"
    and "A \<inter> B = {}" "A \<inter> C = {}" "A \<inter> D = {}" "B \<inter> C = {}" "B \<inter> D = {}" "C \<inter> D = {}"
  shows "card (A \<union> B \<union> C \<union> D) = card A + card B + card C + card D"
proof -
  have "(A \<union> B) \<inter> C = {}" "(A \<union> B \<union> C) \<inter> D = {}" using assms(5-10) by blast+
  then show ?thesis using assms(1-5) by (simp add: card_Un_disjoint)
qed

text \<open>A set split into four parts, and moving an element from one part to another.\<close>

definition part4 :: "'a set \<Rightarrow> 'a set \<Rightarrow> 'a set \<Rightarrow> 'a set \<Rightarrow> 'a set \<Rightarrow> bool" where
  "part4 A B C D U \<longleftrightarrow> A \<union> B \<union> C \<union> D = U \<and> A \<inter> B = {} \<and> A \<inter> C = {} \<and> A \<inter> D = {} \<and>
     B \<inter> C = {} \<and> B \<inter> D = {} \<and> C \<inter> D = {}"

lemma part4_moves:
  "part4 A B C D U \<Longrightarrow> x \<in> D \<Longrightarrow> part4 A B (insert x C) (D - {x}) U"
  "part4 A B (insert x C) D U \<Longrightarrow> x \<notin> C \<Longrightarrow> part4 A B C (insert x D) U"
  "part4 A B (insert x C) D U \<Longrightarrow> x \<notin> C \<Longrightarrow> part4 (insert x A) B C D U"
  "part4 A B C D U \<Longrightarrow> x \<in> A \<Longrightarrow> part4 (A - {x}) (insert x B) C D U"
  "part4 A B C D U \<Longrightarrow> part4 A {} (B \<union> C) D U"
  unfolding part4_def by blast+

lemma part4_D:
  assumes "part4 A B C D U"
  shows "x \<in> D \<Longrightarrow> x \<notin> A \<and> x \<notin> B \<and> x \<notin> C \<and> x \<in> U"
    and "x \<in> C \<Longrightarrow> x \<notin> A \<and> x \<notin> B \<and> x \<notin> D \<and> x \<in> U"
    and "x \<in> B \<Longrightarrow> x \<notin> A \<and> x \<notin> C \<and> x \<notin> D \<and> x \<in> U"
    and "x \<in> A \<Longrightarrow> x \<notin> B \<and> x \<notin> C \<and> x \<notin> D \<and> x \<in> U"
    and "x \<in> U \<Longrightarrow> x \<in> A \<or> x \<in> B \<or> x \<in> C \<or> x \<in> D"
    and "A \<union> B \<union> C \<union> D = U"
  using assms unfolding part4_def by blast+

lemma part4_rest: "part4 A B C D U \<Longrightarrow> x \<in> U - D \<longleftrightarrow> x \<in> A \<or> x \<in> B \<or> x \<in> C"
  unfolding part4_def by blast

lemma card_part4:
  assumes "part4 A B C D U" and "finite U"
  shows "card U = card A + card B + card C + card D"
    and "finite A" and "finite B" and "finite C" and "finite D"
proof -
  show fin: "finite A" "finite B" "finite C" "finite D"
    using part4_D(6) [OF assms(1)] assms(2) by (metis finite_Un)+
  show "card U = card A + card B + card C + card D"
    unfolding part4_D(6) [OF assms(1), symmetric]
    using assms(1) fin by (intro card_Un4) (simp_all add: part4_def)
qed

section \<open>Hash maps\<close>

text \<open>
  A \<open>std::unordered_map\<close> is an association list without repeated keys. Its \<open>operator[]\<close> inserts a
  default value when the key is absent, so reading through it changes the map.
\<close>

abbreviation um_put :: "'k \<Rightarrow> 'v \<Rightarrow> ('k \<times> 'v) list \<Rightarrow> ('k \<times> 'v) list" where
  "um_put \<equiv> AList.update"

abbreviation um_erase :: "'k \<Rightarrow> ('k \<times> 'v) list \<Rightarrow> ('k \<times> 'v) list" where
  "um_erase \<equiv> AList.delete"

definition um_at :: "'v \<Rightarrow> 'k \<Rightarrow> ('k \<times> 'v) list \<Rightarrow> 'v \<times> ('k \<times> 'v) list" where
  "um_at d k m = (case map_of m k of Some v \<Rightarrow> (v, m) | None \<Rightarrow> (d, um_put k d m))"

lemma um_keys_put: "set (map fst (um_put k v m)) = insert k (set (map fst m))"
  by (simp add: dom_update)

lemma um_distinct_put [intro]: "distinct (map fst m) \<Longrightarrow> distinct (map fst (um_put k v m))"
  by (rule distinct_update)

lemma um_distinct_erase [intro]: "distinct (map fst m) \<Longrightarrow> distinct (map fst (um_erase k m))"
  by (rule distinct_delete)

lemma um_length_put:
  "length (um_put k v m) = (if k \<in> set (map fst m) then length m else Suc (length m))"
  by (induction m) auto

lemma um_length_erase:
  "distinct (map fst m) \<Longrightarrow>
    length (um_erase k m) = (if k \<in> set (map fst m) then length m - 1 else length m)"
  by (metis List.length_map delete_keys distinct_remove1_removeAll length_remove1 removeAll_id)

lemma map_of_None_keys: "map_of m k = None \<longleftrightarrow> k \<notin> set (map fst m)"
  by (simp add: map_of_eq_None_iff)

lemma map_fst_map_snd [simp]: "map fst (map (\<lambda>(k, v). (k, f v)) m) = map fst m"
  by (induction m) auto

lemma map_of_map_snd: "map_of (map (\<lambda>(k, v). (k, f v)) m) k = map_option f (map_of m k)"
  by (induction m) auto

section \<open>Runs and simulations\<close>

text \<open>A run of a step relation with its list of events, and the contract of a simulation: every step keeps the
  invariant and is a step of the specification.\<close>

inductive run :: "('s \<Rightarrow> 'e \<Rightarrow> 's \<Rightarrow> bool) \<Rightarrow> 's \<Rightarrow> 'e list \<Rightarrow> 's \<Rightarrow> bool" for step :: "'s \<Rightarrow> 'e \<Rightarrow> 's \<Rightarrow> bool" where
  run_Nil: "run step s [] s"
| run_Cons: "step s e s1 \<Longrightarrow> run step s1 es s2 \<Longrightarrow> run step s (e # es) s2"

inductive_simps run_Nil_iff [simp]: "run step s [] s'"
inductive_simps run_Cons_iff: "run step s (e # es) s'"

locale simulation =
  fixes step :: "'s \<Rightarrow> 'e \<Rightarrow> 's \<Rightarrow> bool" and inv :: "'s \<Rightarrow> bool"
    and abs :: "'s \<Rightarrow> 'a" and spec :: "'a \<Rightarrow> 'e \<Rightarrow> 'a \<Rightarrow> bool"
  assumes step_inv: "step s e s' \<Longrightarrow> inv s \<Longrightarrow> inv s'"
    and step_spec: "step s e s' \<Longrightarrow> inv s \<Longrightarrow> spec (abs s) e (abs s')"
begin

lemma run_inv: "run step s es s' \<Longrightarrow> inv s \<Longrightarrow> inv s'"
  by (induction rule: run.induct) (auto dest: step_inv)

lemma run_spec: "run step s es s' \<Longrightarrow> inv s \<Longrightarrow> run spec (abs s) es (abs s')"
  by (induction rule: run.induct) (auto intro: run.intros dest: step_inv step_spec)

end

section \<open>Distance metrics\<close>

text \<open>\<open>diskann::Metric\<close>.\<close>

datatype metric = L2 | INNER_PRODUCT | COSINE | FAST_L2

end
