(* ===== verification/IeeeFloat.thy ===== *)
theory IeeeFloat
  imports Complex_Main QvPrelude
begin

text \<open>
  The C++ types \<open>float\<close> and \<open>double\<close>: IEEE-754 binary32 and binary64 values with round to nearest,
  ties to even, gradual underflow, infinities and NaN.

  A finite value is the rational number it denotes; an operation computes the exact rational result
  and rounds it once. The sign of zero is not represented: the code modelled here compares with
  zero and divides by differences of unequal values, so it never observes that sign. A \<open>float\<close>
  converted to \<open>double\<close> keeps its value, so that conversion is the identity of the model.
\<close>

section \<open>Values and their order\<close>

datatype fp = MInf | Fin rat | PInf | NaN

text \<open>
  A total order that lists the values as \<open>-inf < finite < +inf < NaN\<close>. The comparisons of C++ are
  \<open>fp_lt\<close>, \<open>fp_le\<close> and \<open>fp_eq\<close> below: false whenever an operand is NaN.
\<close>

instantiation fp :: linorder
begin

fun less_eq_fp :: "fp \<Rightarrow> fp \<Rightarrow> bool" where
  "less_eq_fp MInf _ = True"
| "less_eq_fp (Fin a) (Fin b) = (a \<le> b)"
| "less_eq_fp (Fin a) MInf = False"
| "less_eq_fp (Fin a) _ = True"
| "less_eq_fp PInf y = (y = PInf \<or> y = NaN)"
| "less_eq_fp NaN y = (y = NaN)"

definition less_fp :: "fp \<Rightarrow> fp \<Rightarrow> bool" where
  "less_fp a b \<longleftrightarrow> a \<le> b \<and> \<not> b \<le> a"

instance
proof
  fix x y z :: fp
  show "x < y \<longleftrightarrow> x \<le> y \<and> \<not> y \<le> x" by (rule less_fp_def)
  show "x \<le> x" by (cases x) auto
  show "x \<le> y \<Longrightarrow> y \<le> z \<Longrightarrow> x \<le> z" by (cases x; cases y; cases z) auto
  show "x \<le> y \<Longrightarrow> y \<le> x \<Longrightarrow> x = y" by (cases x; cases y) auto
  show "x \<le> y \<or> y \<le> x" by (cases x; cases y) auto
qed

end

lemma fp_le_simps [simp]:
  "x \<le> NaN" "Fin a < PInf" "MInf < Fin a" "MInf < PInf" "Fin a < Fin b \<longleftrightarrow> a < b"
  "NaN \<le> x \<longleftrightarrow> x = NaN" "x \<le> PInf \<longleftrightarrow> x \<noteq> NaN" "x \<le> MInf \<longleftrightarrow> x = MInf"
  by (cases x; auto simp: less_fp_def)+

definition fp_le :: "fp \<Rightarrow> fp \<Rightarrow> bool" where
  "fp_le a b \<longleftrightarrow> a \<noteq> NaN \<and> b \<noteq> NaN \<and> a \<le> b"

definition fp_lt :: "fp \<Rightarrow> fp \<Rightarrow> bool" where
  "fp_lt a b \<longleftrightarrow> a \<noteq> NaN \<and> b \<noteq> NaN \<and> a < b"

definition fp_eq :: "fp \<Rightarrow> fp \<Rightarrow> bool" where
  "fp_eq a b \<longleftrightarrow> a \<noteq> NaN \<and> a = b"

lemma fp_le_trans: "fp_le a b \<Longrightarrow> fp_le b c \<Longrightarrow> fp_le a c"
  by (auto simp: fp_le_def)

lemma fp_le_not_lt: "fp_le a b \<Longrightarrow> \<not> fp_lt b a"
  by (auto simp: fp_le_def fp_lt_def)

section \<open>Rounding\<close>

fun nlog2 :: "nat \<Rightarrow> nat" where
  "nlog2 n = (if n < 2 then 0 else Suc (nlog2 (n div 2)))"

declare nlog2.simps [simp del]

lemma nlog2_bounds: "0 < n \<Longrightarrow> 2 ^ nlog2 n \<le> n \<and> n < 2 * 2 ^ nlog2 n"
proof (induction n rule: nlog2.induct)
  case (1 n)
  show ?case
  proof (cases "n < 2")
    case True
    with 1 show ?thesis by (simp add: nlog2.simps [of n])
  next
    case False
    with 1 have "2 ^ nlog2 (n div 2) \<le> n div 2 \<and> n div 2 < 2 * 2 ^ nlog2 (n div 2)" by simp
    with False show ?thesis by (auto simp: nlog2.simps [of n])
  qed
qed

text \<open>The exponent \<open>e\<close> with \<open>2^e \<le> x < 2^(e+1)\<close> for a positive rational.\<close>

definition flog2 :: "rat \<Rightarrow> int" where
  "flog2 x =
     (let (a, b) = quotient_of x; k = int (nlog2 (nat a)) - int (nlog2 (nat b))
      in if 2 powi k \<le> x then k else k - 1)"

text \<open>The same on integers, for evaluation.\<close>

function ilog2 :: "int \<Rightarrow> int" where
  "ilog2 n = (if n < 2 then 0 else 1 + ilog2 (n div 2))"
  by pat_completeness auto
termination by (relation "measure nat") auto

declare ilog2.simps [simp del]

lemma ilog2_nlog2: "ilog2 n = int (nlog2 (nat n))"
proof (induction n rule: ilog2.induct)
  case (1 n)
  have "nat n < 2 \<longleftrightarrow> n < 2" by auto
  with 1 show ?case by (simp add: ilog2.simps [of n] nlog2.simps [of "nat n"] nat_div_distrib)
qed

lemma flog2_code [code]:
  "flog2 x = (let (a, b) = quotient_of x; k = ilog2 a - ilog2 b in if 2 powi k \<le> x then k else k - 1)"
  by (simp only: flog2_def ilog2_nlog2)

lemma powi2_add: "(2::rat) powi (a + b) = 2 powi a * 2 powi b"
  by (rule power_int_add) simp

lemma powi2_diff: "(2::rat) powi (a - b) = 2 powi a / 2 powi b"
  by (rule power_int_diff) simp

lemma powi2_pos [simp]: "0 < (2::rat) powi e"
  by (rule zero_less_power_int) simp

lemma powi2_nonzero [simp]: "(2::rat) powi e \<noteq> 0"
  using powi2_pos [of e] by linarith

lemma powi2_mono: "a \<le> b \<Longrightarrow> (2::rat) powi a \<le> 2 powi b"
  by (rule power_int_increasing) simp_all

lemma powi2_strict: "(2::rat) powi a < 2 powi b \<longleftrightarrow> a < b"
  using powi2_mono [of b a] power_int_strict_increasing [of a b "2::rat"] by force

lemma flog2_bounds:
  assumes "0 < x"
  shows "2 powi flog2 x \<le> x" and "x < 2 powi (flog2 x + 1)"
proof -
  obtain a b where q: "quotient_of x = (a, b)" by (meson surj_pair)
  have b: "0 < b" using quotient_of_denom_pos [OF q] .
  have x: "x = of_int a / of_int b" by (rule quotient_of_div [OF q])
  have a: "0 < a" using assms b by (simp add: x zero_less_divide_iff)
  define m where "m = nlog2 (nat a)"
  define n where "n = nlog2 (nat b)"
  define k where "k = int m - int n"
  have "2 ^ m \<le> nat a \<and> nat a < 2 * 2 ^ m" using nlog2_bounds [of "nat a"] a m_def by simp
  then have ai: "2 ^ m \<le> a" "a < 2 * 2 ^ m" using a by (simp_all add: nat_le_iff le_nat_iff nat_less_iff)
  have "2 ^ n \<le> nat b \<and> nat b < 2 * 2 ^ n" using nlog2_bounds [of "nat b"] b n_def by simp
  then have bi: "2 ^ n \<le> b" "b < 2 * 2 ^ n" using b by (simp_all add: nat_le_iff le_nat_iff nat_less_iff)
  have ar: "2 ^ m \<le> (of_int a :: rat)" "of_int a < (2 * 2 ^ m :: rat)"
    using ai by (metis of_int_le_iff of_int_numeral of_int_power,
        metis of_int_less_iff of_int_mult of_int_numeral of_int_power)
  have br: "2 ^ n \<le> (of_int b :: rat)" "of_int b < (2 * 2 ^ n :: rat)"
    using bi by (metis of_int_le_iff of_int_numeral of_int_power,
        metis of_int_less_iff of_int_mult of_int_numeral of_int_power)
  have k: "(2::rat) powi k = 2 ^ m / 2 ^ n" by (simp add: k_def powi2_diff)
  have bpos: "0 < (of_int b :: rat)" using b by simp
  have upper: "x < 2 powi (k + 1)"
  proof -
    have "of_int a / of_int b < (2 * 2 ^ m) / (of_int b :: rat)"
      using ar(2) bpos by (rule divide_strict_right_mono)
    also have "\<dots> \<le> (2 * 2 ^ m) / 2 ^ n"
      using br(1) bpos by (intro divide_left_mono) simp_all
    finally show ?thesis by (simp add: x powi2_add k mult.commute)
  qed
  have lower: "2 powi (k - 1) < x"
  proof -
    have "2 ^ m / (2 * 2 ^ n) < (2 ^ m :: rat) / of_int b"
      using br(2) bpos by (intro divide_strict_left_mono) simp_all
    also have "\<dots> \<le> of_int a / of_int b"
      using ar(1) bpos by (simp add: divide_right_mono)
    finally show ?thesis by (simp add: x powi2_diff k)
  qed
  have fl: "flog2 x = (if 2 powi k \<le> x then k else k - 1)"
    by (simp add: flog2_def q k_def m_def n_def)
  show "2 powi flog2 x \<le> x" using lower by (simp add: fl)
  show "x < 2 powi (flog2 x + 1)" using upper by (simp add: fl)
qed

lemma flog2_le_iff:
  assumes "0 < x"
  shows "flog2 x < e \<longleftrightarrow> x < 2 powi e"
  by (metis assms flog2_bounds(1,2) leD leI linorder_not_less order_le_less_trans powi2_mono
      zle_add1_eq_le add.commute order_less_le_trans zless_add1_eq add1_zle_eq)

lemma flog2_mono:
  assumes "0 < x" and "x \<le> y"
  shows "flog2 x \<le> flog2 y"
proof -
  have "x < 2 powi (flog2 y + 1)" using flog2_bounds(2) [of y] assms by linarith
  then show ?thesis using flog2_le_iff [OF assms(1), of "flog2 y + 1"] by linarith
qed

text \<open>Round half to even.\<close>

definition rhe :: "rat \<Rightarrow> int" where
  "rhe x =
     (let f = \<lfloor>x\<rfloor>; d = x - of_int f
      in if d < 1 / 2 then f else if d > 1 / 2 then f + 1 else if even f then f else f + 1)"

lemma rhe_of_int [simp]: "rhe (of_int n) = n"
  by (simp add: rhe_def)

lemma rhe_floor: "\<lfloor>x\<rfloor> \<le> rhe x" "rhe x \<le> \<lfloor>x\<rfloor> + 1"
  by (simp_all add: rhe_def Let_def)

lemma rhe_mono:
  assumes "x \<le> y"
  shows "rhe x \<le> rhe y"
proof (cases "\<lfloor>x\<rfloor> = \<lfloor>y\<rfloor>")
  case True
  with assms show ?thesis by (auto simp: rhe_def Let_def)
next
  case False
  with floor_mono [OF assms] have "\<lfloor>x\<rfloor> + 1 \<le> \<lfloor>y\<rfloor>" by linarith
  with rhe_floor(2) [of x] rhe_floor(1) [of y] show ?thesis by linarith
qed

lemma rhe_ge: "of_int n \<le> x \<Longrightarrow> n \<le> rhe x"
  using rhe_mono [of "of_int n" x] by simp

lemma rhe_le: "x \<le> of_int n \<Longrightarrow> rhe x \<le> n"
  using rhe_mono [of x "of_int n"] by simp

section \<open>Formats\<close>

text \<open>
  A format has \<open>prec\<close> significant bits, \<open>emin\<close> the exponent of the smallest subnormal, and finite
  values below \<open>2 ^ emax\<close>.
\<close>

record float_format =
  prec :: nat
  emin :: int
  emax :: int

definition binary32 :: float_format where
  "binary32 = \<lparr>prec = 24, emin = -149, emax = 128\<rparr>"

definition binary64 :: float_format where
  "binary64 = \<lparr>prec = 53, emin = -1074, emax = 1024\<rparr>"

text \<open>The exponent of the last significant bit at a positive value, and rounding to that bit.\<close>

definition ulp_exp :: "float_format \<Rightarrow> rat \<Rightarrow> int" where
  "ulp_exp F x = max (emin F) (flog2 x - int (prec F) + 1)"

definition round_pos :: "float_format \<Rightarrow> rat \<Rightarrow> rat" where
  "round_pos F x = of_int (rhe (x / 2 powi ulp_exp F x)) * 2 powi ulp_exp F x"

definition round_rat :: "float_format \<Rightarrow> rat \<Rightarrow> rat" where
  "round_rat F x =
     (if x = 0 then 0 else if 0 < x then round_pos F x else - round_pos F (- x))"

definition fround :: "float_format \<Rightarrow> rat \<Rightarrow> fp" where
  "fround F x =
     (let r = round_rat F x
      in if 2 powi emax F \<le> r then PInf else if r \<le> - (2 powi emax F) then MInf else Fin r)"

text \<open>A finite value belongs to the format when rounding leaves it alone.\<close>

fun fp_val :: "float_format \<Rightarrow> fp \<Rightarrow> bool" where
  "fp_val F (Fin r) = (fround F r = Fin r)"
| "fp_val F _ = True"

subsection \<open>Rounding is monotone and idempotent\<close>

locale ieee_format =
  fixes F :: float_format
  assumes prec_pos: "0 < prec F"
begin

lemma scaled_upper:
  assumes "0 < x"
  shows "x / 2 powi ulp_exp F x < of_int (2 ^ prec F)"
proof -
  have "x < 2 powi (flog2 x + 1)" using flog2_bounds(2) [OF assms] .
  also have "\<dots> \<le> 2 powi (int (prec F) + ulp_exp F x)"
    by (rule powi2_mono) (simp add: ulp_exp_def)
  finally show ?thesis by (simp add: pos_divide_less_eq powi2_add)
qed

lemma scaled_lower:
  assumes "0 < x" and "ulp_exp F x \<noteq> emin F"
  shows "of_int (2 ^ (prec F - 1)) \<le> x / 2 powi ulp_exp F x"
proof -
  have "ulp_exp F x = flog2 x - int (prec F) + 1"
    using assms(2) by (auto simp: ulp_exp_def max_def split: if_splits)
  then have "int (prec F - 1) + ulp_exp F x = flog2 x" using prec_pos by simp
  then have "(2::rat) ^ (prec F - 1) * 2 powi ulp_exp F x = 2 powi flog2 x"
    by (metis power_int_of_nat powi2_add)
  with flog2_bounds(1) [OF assms(1)] show ?thesis by (simp add: pos_le_divide_eq)
qed

lemma ulp_exp_mono: "0 < x \<Longrightarrow> x \<le> y \<Longrightarrow> ulp_exp F x \<le> ulp_exp F y"
  using flog2_mono [of x y] by (simp add: ulp_exp_def)

lemma round_pos_nonneg: "0 < x \<Longrightarrow> 0 \<le> round_pos F x"
  using rhe_ge [of 0 "x / 2 powi ulp_exp F x"] by (simp add: round_pos_def)

lemma round_pos_mono:
  assumes "0 < x" and "x \<le> y"
  shows "round_pos F x \<le> round_pos F y"
proof -
  let ?ex = "ulp_exp F x" and ?ey = "ulp_exp F y"
  have y: "0 < y" using assms by linarith
  have le: "?ex \<le> ?ey" using ulp_exp_mono [OF assms] .
  show ?thesis
  proof (cases "?ex = ?ey")
    case True
    have "rhe (x / 2 powi ?ex) \<le> rhe (y / 2 powi ?ex)"
      using assms(2) by (intro rhe_mono divide_right_mono) simp_all
    with True show ?thesis by (simp add: round_pos_def)
  next
    case False
    with le have less: "?ex + 1 \<le> ?ey" by simp
    have "?ey \<noteq> emin F" using less by (simp add: ulp_exp_def)
    then have "2 ^ (prec F - 1) \<le> rhe (y / 2 powi ?ey)"
      by (rule rhe_ge [OF scaled_lower [OF y]])
    then have "(2::rat) ^ (prec F - 1) \<le> of_int (rhe (y / 2 powi ?ey))"
      by (metis of_int_le_iff of_int_numeral of_int_power)
    then have "2 ^ (prec F - 1) * 2 powi ?ey \<le> round_pos F y"
      by (simp add: round_pos_def)
    moreover have "rhe (x / 2 powi ?ex) \<le> 2 ^ prec F"
      by (rule rhe_le [OF less_imp_le [OF scaled_upper [OF assms(1)]]])
    then have "of_int (rhe (x / 2 powi ?ex)) \<le> (2::rat) ^ prec F"
      by (metis of_int_le_iff of_int_numeral of_int_power)
    then have "round_pos F x \<le> 2 ^ prec F * 2 powi ?ex"
      by (simp add: round_pos_def)
    moreover have "(2::rat) ^ prec F * 2 powi ?ex = 2 ^ (prec F - 1) * 2 powi (?ex + 1)"
      using prec_pos by (cases "prec F") (simp_all add: powi2_add)
    moreover have "(2::rat) ^ (prec F - 1) * 2 powi (?ex + 1) \<le> 2 ^ (prec F - 1) * 2 powi ?ey"
      using powi2_mono [OF less] by simp
    ultimately show ?thesis by linarith
  qed
qed

lemma round_rat_mono:
  assumes "x \<le> y"
  shows "round_rat F x \<le> round_rat F y"
proof -
  consider "0 < x" | "x = 0" | "x < 0" "0 < y" | "x < 0" "y = 0" | "y < 0" using assms by linarith
  then show ?thesis
  proof cases
    case 1
    with assms show ?thesis by (simp add: round_rat_def round_pos_mono)
  next
    case 2
    with assms show ?thesis by (simp add: round_rat_def round_pos_nonneg)
  next
    case 3
    then show ?thesis
      using round_pos_nonneg [of y] round_pos_nonneg [of "- x"] by (simp add: round_rat_def)
  next
    case 4
    then show ?thesis using round_pos_nonneg [of "- x"] by (simp add: round_rat_def)
  next
    case 5
    with assms show ?thesis
      using round_pos_mono [of "- y" "- x"] by (simp add: round_rat_def)
  qed
qed

lemma fround_mono: "x \<le> y \<Longrightarrow> fround F x \<le> fround F y"
  using round_rat_mono [of x y] by (auto simp: fround_def Let_def)

lemma fround_not_NaN [simp]: "fround F x \<noteq> NaN"
  by (simp add: fround_def Let_def)

text \<open>A multiple of a power of two with few enough digits is not changed by rounding.\<close>

lemma round_pos_exact:
  assumes "0 < m" and "m \<le> 2 ^ prec F" and "emin F \<le> e"
  shows "round_pos F (of_int m * 2 powi e) = of_int m * 2 powi e"
proof -
  let ?x = "of_int m * 2 powi e :: rat"
  have x: "0 < ?x" using assms(1) by simp
  have m: "of_int m \<le> (2::rat) ^ prec F"
    using assms(2) by (metis of_int_le_iff of_int_numeral of_int_power)
  define d where "d = ulp_exp F ?x"
  have exact: "round_pos F ?x = ?x" if "?x / 2 powi d = of_int k" for k
  proof -
    have "round_pos F ?x = of_int k * 2 powi d" using that by (simp add: round_pos_def d_def)
    with that show ?thesis by (simp add: field_simps)
  qed
  show ?thesis
  proof (cases "d \<le> e")
    case True
    then have "?x / 2 powi d = of_int m * 2 powi (int (nat (e - d)))" by (simp add: powi2_diff)
    also have "\<dots> = of_int (m * 2 ^ nat (e - d))" by (simp only: power_int_of_nat) simp
    finally show ?thesis by (rule exact)
  next
    case False
    then have "e < flog2 ?x - int (prec F) + 1" using assms(3) by (simp add: d_def ulp_exp_def)
    then have "2 powi (int (prec F) + e) \<le> ?x"
      using flog2_le_iff [OF x, of "int (prec F) + e"] by linarith
    with m have m_eq: "of_int m = (2::rat) ^ prec F" by (simp add: powi2_add)
    then have x_eq: "?x = 2 powi (int (prec F) + e)" by (simp add: powi2_add)
    have "flog2 ?x < int (prec F) + e + 1"
      using flog2_le_iff [OF x, of "int (prec F) + e + 1"] x_eq powi2_strict by simp
    with False have "d = e + 1" using assms(3) by (auto simp: d_def ulp_exp_def max_def split: if_splits)
    then have "?x / 2 powi d = 2 powi (int (prec F - 1))"
      using prec_pos by (simp add: x_eq flip: powi2_diff)
    also have "\<dots> = of_int (2 ^ (prec F - 1))" by simp
    finally show ?thesis by (rule exact)
  qed
qed

lemma round_pos_idem:
  assumes "0 < x" and "0 < round_pos F x"
  shows "round_pos F (round_pos F x) = round_pos F x"
proof -
  let ?m = "rhe (x / 2 powi ulp_exp F x)"
  have "0 < ?m"
    using assms(2) zero_less_mult_pos2 [of "of_int ?m :: rat" "2 powi ulp_exp F x"]
    by (simp add: round_pos_def)
  moreover have "?m \<le> 2 ^ prec F"
    by (rule rhe_le [OF less_imp_le [OF scaled_upper [OF assms(1)]]])
  moreover have "emin F \<le> ulp_exp F x" by (simp add: ulp_exp_def)
  ultimately show ?thesis using round_pos_exact by (simp add: round_pos_def)
qed

lemma round_rat_idem: "round_rat F (round_rat F x) = round_rat F x"
proof -
  have *: "round_rat F (round_pos F z) = round_pos F z" if "0 < z" for z
    using round_pos_idem [OF that] round_pos_nonneg [OF that] by (auto simp: round_rat_def)
  have "round_rat F (- z) = - round_rat F z" for z by (simp add: round_rat_def)
  moreover have "round_rat F 0 = 0" by (simp add: round_rat_def)
  ultimately show ?thesis using * [of x] * [of "- x"] by (auto simp: round_rat_def [of F x])
qed

lemma fp_val_fround [simp]: "fp_val F (fround F x)"
  using round_rat_idem [of x] by (auto simp: fround_def Let_def)

lemma round_rat_exact:
  assumes "\<bar>m\<bar> \<le> 2 ^ prec F" and "emin F \<le> e"
  shows "round_rat F (of_int m * 2 powi e) = of_int m * 2 powi e"
proof -
  consider "0 < m" | "m = 0" | "m < 0" by linarith
  then show ?thesis
  proof cases
    case 3
    then have "of_int m * 2 powi e < (0::rat)" by (simp add: mult_less_0_iff)
    moreover have "round_pos F (of_int (- m) * 2 powi e) = of_int (- m) * 2 powi e"
      using 3 assms by (intro round_pos_exact) simp_all
    ultimately show ?thesis by (simp add: round_rat_def)
  qed (use assms in \<open>simp_all add: round_rat_def round_pos_exact\<close>)
qed

lemma fround_exact:
  assumes "\<bar>m\<bar> < 2 ^ prec F" and "emin F \<le> e" and "int (prec F) + e \<le> emax F"
  shows "fround F (of_int m * 2 powi e) = Fin (of_int m * 2 powi e)"
proof -
  have "of_int \<bar>m\<bar> < (2::rat) ^ prec F"
    using assms(1) by (metis of_int_less_iff of_int_numeral of_int_power)
  then have "\<bar>of_int m * 2 powi e\<bar> < (2::rat) powi (int (prec F) + e)"
    by (simp add: abs_mult powi2_add)
  also have "\<dots> \<le> 2 powi emax F" using assms(3) by (rule powi2_mono)
  finally have "\<bar>of_int m * 2 powi e\<bar> < (2::rat) powi emax F" .
  moreover have "round_rat F (of_int m * 2 powi e) = of_int m * 2 powi e"
    using assms(1,2) by (intro round_rat_exact) simp_all
  ultimately show ?thesis by (simp add: fround_def abs_less_iff not_le)
qed

lemma fround_Fin_val: "fp_val F (Fin r) \<Longrightarrow> fround F r = Fin r"
  by simp

lemma fround_le_val: "fp_val F (Fin r) \<Longrightarrow> x \<le> r \<Longrightarrow> fround F x \<le> Fin r"
  using fround_mono [of x r] by simp

lemma fround_ge_val: "fp_val F (Fin r) \<Longrightarrow> r \<le> x \<Longrightarrow> Fin r \<le> fround F x"
  using fround_mono [of r x] by simp

lemma fp_val_zero: "fp_val F (Fin 0)"
  using powi2_pos [of "emax F"] by (simp add: fround_def round_rat_def not_le)

lemma fround_nonneg: "0 \<le> x \<Longrightarrow> Fin 0 \<le> fround F x"
  by (rule fround_ge_val [OF fp_val_zero])

end

interpretation f32: ieee_format binary32
  by unfold_locales (simp add: binary32_def)

interpretation f64: ieee_format binary64
  by unfold_locales (simp add: binary64_def)

section \<open>Operations\<close>

fun fp_neg :: "fp \<Rightarrow> fp" where
  "fp_neg (Fin a) = Fin (- a)"
| "fp_neg PInf = MInf"
| "fp_neg MInf = PInf"
| "fp_neg NaN = NaN"

fun fp_add :: "float_format \<Rightarrow> fp \<Rightarrow> fp \<Rightarrow> fp" where
  "fp_add F (Fin a) (Fin b) = fround F (a + b)"
| "fp_add F NaN _ = NaN"
| "fp_add F _ NaN = NaN"
| "fp_add F PInf MInf = NaN"
| "fp_add F MInf PInf = NaN"
| "fp_add F PInf _ = PInf"
| "fp_add F _ PInf = PInf"
| "fp_add F MInf _ = MInf"
| "fp_add F _ MInf = MInf"

definition fp_sub :: "float_format \<Rightarrow> fp \<Rightarrow> fp \<Rightarrow> fp" where
  "fp_sub F a b = fp_add F a (fp_neg b)"

text \<open>The sign of a value: of a zero, 0; NaN has none.\<close>

fun fp_sgn :: "fp \<Rightarrow> int" where
  "fp_sgn (Fin a) = (if 0 < a then 1 else if a < 0 then - 1 else 0)"
| "fp_sgn PInf = 1"
| "fp_sgn MInf = - 1"
| "fp_sgn NaN = 0"

definition signed_inf :: "int \<Rightarrow> fp" where
  "signed_inf s = (if 0 < s then PInf else if s < 0 then MInf else NaN)"

fun fp_mul :: "float_format \<Rightarrow> fp \<Rightarrow> fp \<Rightarrow> fp" where
  "fp_mul F (Fin a) (Fin b) = fround F (a * b)"
| "fp_mul F NaN _ = NaN"
| "fp_mul F _ NaN = NaN"
| "fp_mul F x y = signed_inf (fp_sgn x * fp_sgn y)"

fun fp_div :: "float_format \<Rightarrow> fp \<Rightarrow> fp \<Rightarrow> fp" where
  "fp_div F (Fin a) (Fin b) = (if b = 0 then signed_inf (fp_sgn (Fin a)) else fround F (a / b))"
| "fp_div F NaN _ = NaN"
| "fp_div F _ NaN = NaN"
| "fp_div F (Fin a) _ = Fin 0"
| "fp_div F x (Fin b) = signed_inf (fp_sgn x * (if b < 0 then - 1 else 1))"
| "fp_div F _ _ = NaN"

text \<open>\<open>static_cast<float>\<close> of a \<open>double\<close>, and of an unsigned integer.\<close>

fun fp_cast :: "float_format \<Rightarrow> fp \<Rightarrow> fp" where
  "fp_cast F (Fin a) = fround F a"
| "fp_cast F x = x"

definition fp_of_nat :: "float_format \<Rightarrow> nat \<Rightarrow> fp" where
  "fp_of_nat F n = fround F (of_nat n)"

text \<open>
  \<open>static_cast<size_t>\<close> of a floating value truncates; outside the range of \<open>size_t\<close>, and on NaN,
  it is undefined behaviour.
\<close>

fun fp_to_size :: "fp \<Rightarrow> nat result" where
  "fp_to_size (Fin a) =
     (if - 1 < a \<and> a < 2 ^ 64 then Inr (nat \<lfloor>a\<rfloor>)
      else Inl (Undefined ''float to size_t out of range''))"
| "fp_to_size _ = Inl (Undefined ''float to size_t out of range'')"

text \<open>\<open>std::numeric_limits<double>::max()\<close> and \<open>std::numeric_limits<float>::max()\<close>.\<close>

definition fp_max :: "float_format \<Rightarrow> fp" where
  "fp_max F = Fin ((2 ^ prec F - 1) * 2 powi (emax F - int (prec F)))"

subsection \<open>Facts the components use\<close>

text \<open>Small dyadic rationals are exact in both formats, which evaluates the examples.\<close>

lemma fround64_dyadic:
  assumes "\<bar>m\<bar> < 2 ^ 24" and "k \<le> 100"
  shows "fround binary64 (of_int m / 2 ^ k) = Fin (of_int m / 2 ^ k)"
proof -
  have "(2::int) ^ 24 \<le> 2 ^ prec binary64" by (simp add: binary64_def)
  then have "\<bar>m\<bar> < 2 ^ prec binary64" using assms(1) by linarith
  then have "fround binary64 (of_int m * 2 powi (- int k)) = Fin (of_int m * 2 powi (- int k))"
    using assms(2) by (intro f64.fround_exact) (simp_all add: binary64_def)
  then show ?thesis by (simp add: power_int_minus divide_inverse)
qed

lemma fround32_dyadic:
  assumes "\<bar>m\<bar> < 2 ^ 24" and "k \<le> 100"
  shows "fround binary32 (of_int m / 2 ^ k) = Fin (of_int m / 2 ^ k)"
proof -
  have "fround binary32 (of_int m * 2 powi (- int k)) = Fin (of_int m * 2 powi (- int k))"
    using assms by (intro f32.fround_exact) (simp_all add: binary32_def)
  then show ?thesis by (simp add: power_int_minus divide_inverse)
qed

lemma fround64_numeral [simp]:
  "numeral n < (2 ^ 24 :: int) \<Longrightarrow> fround binary64 (numeral n) = Fin (numeral n)"
  "fround binary64 0 = Fin 0" "fround binary64 1 = Fin 1"
  using fround64_dyadic [of "numeral n" 0] fround64_dyadic [of 0 0] fround64_dyadic [of 1 0] by simp_all

lemma fround32_numeral [simp]:
  "numeral n < (2 ^ 24 :: int) \<Longrightarrow> fround binary32 (numeral n) = Fin (numeral n)"
  "fround binary32 0 = Fin 0" "fround binary32 1 = Fin 1"
  using fround32_dyadic [of "numeral n" 0] fround32_dyadic [of 0 0] fround32_dyadic [of 1 0] by simp_all

text \<open>Half of the largest \<open>double\<close>, the bound of the \<open>is_uninitialized\<close> tests.\<close>

lemma half_max_double:
  "fp_mul binary64 (fp_max binary64) (Fin (1 / 2)) = Fin ((2 ^ 53 - 1) * 2 powi 970)"
proof -
  have "((2::rat) ^ 53 - 1) * 2 powi 971 * (1 / 2) = of_int (2 ^ 53 - 1) * 2 powi 970"
    using powi2_diff [of 971 1] by simp
  moreover have "fround binary64 (of_int (2 ^ 53 - 1) * 2 powi 970) =
      Fin (of_int (2 ^ 53 - 1) * 2 powi 970)"
    by (rule f64.fround_exact) (simp_all add: binary64_def)
  ultimately show ?thesis by (simp add: fp_max_def binary64_def)
qed

lemma fp_val_neg [simp]: "fp_val F (fp_neg x) = fp_val F x"
proof (cases x)
  case (Fin r)
  let ?p = "2 powi emax F :: rat" and ?r = "round_rat F r"
  have minus: "round_rat F (- r) = - ?r" by (simp add: round_rat_def)
  have p: "0 < ?p" by (rule powi2_pos)
  consider "?p \<le> ?r" "\<not> ?r \<le> - ?p" | "?r \<le> - ?p" "\<not> ?p \<le> ?r" | "\<not> ?p \<le> ?r" "\<not> ?r \<le> - ?p"
    using p by linarith
  then have "fround F (- r) = fp_neg (fround F r)"
  proof cases
    case 1
    with p have "\<not> ?p \<le> - ?r" "- ?r \<le> - ?p" by linarith+
    with 1 show ?thesis by (simp add: fround_def minus)
  next
    case 2
    with p have "?p \<le> - ?r" by linarith
    with 2 show ?thesis by (simp add: fround_def minus)
  next
    case 3
    then have "\<not> ?p \<le> - ?r" "\<not> - ?r \<le> - ?p" by linarith+
    with 3 show ?thesis by (simp add: fround_def minus)
  qed
  then show ?thesis using Fin by (cases "fround F r") auto
qed simp_all

lemma fp_add_mono:
  assumes "ieee_format F" and "Fin a \<le> x" and "x \<le> y" and "y \<noteq> NaN" and "z = Fin c"
  shows "fp_add F x z \<le> fp_add F y z"
  using assms ieee_format.fround_mono [OF assms(1)]
  by (cases x; cases y) (auto simp: ieee_format.fround_not_NaN)

lemma fp_of_nat_mono:
  assumes "ieee_format F" and "m \<le> n"
  shows "fp_of_nat F m \<le> fp_of_nat F n"
  using assms by (simp add: fp_of_nat_def ieee_format.fround_mono)

lemma fp_to_size_mono:
  assumes "x \<le> y" and "fp_to_size x = Inr m" and "fp_to_size y = Inr n"
  shows "m \<le> n"
  using assms by (cases x; cases y) (auto split: if_splits intro!: nat_mono floor_mono)

lemma fround_between:
  assumes "0 \<le> x" and "x \<le> 2 ^ k" and "k \<le> 100"
  obtains r where "fround binary32 x = Fin r" and "0 \<le> r" and "r \<le> 2 ^ k"
proof -
  have "fround binary32 (of_int 1 * 2 powi int k) = Fin (of_int 1 * 2 powi int k)"
    using assms(3) by (intro f32.fround_exact) (simp_all add: binary32_def)
  then have "fround binary32 (2 ^ k) = Fin (2 ^ k)" by simp
  then have "fround binary32 x \<le> Fin (2 ^ k)" using f32.fround_mono [OF assms(2)] by simp
  moreover have "Fin 0 \<le> fround binary32 x" by (rule f32.fround_nonneg [OF assms(1)])
  ultimately show ?thesis using that by (cases "fround binary32 x") auto
qed

end
