(* ===== verification/NeighborQueue.thy ===== *)
theory NeighborQueue
  imports IeeeFloat "HOL-Library.Product_Lexorder"
begin

text \<open>
  \<open>Neighbor\<close> and \<open>NeighborPriorityQueue\<close> of \<open>external/DiskANN/include/diskann/neighbor.h\<close>: the bounded,
  sorted candidate list of a graph search. The array holds one slot more than the capacity, and
  \<open>cur\<close> points at the first candidate that was not expanded.
\<close>

section \<open>Neighbors\<close>

record neighbor =
  nb_id :: nat
  nb_distance :: fp
  nb_expanded :: bool

definition nb_new :: "nat \<Rightarrow> fp \<Rightarrow> neighbor" where
  "nb_new i d = \<lparr>nb_id = i, nb_distance = d, nb_expanded = False\<rparr>"

definition nb_less :: "neighbor \<Rightarrow> neighbor \<Rightarrow> bool" where
  "nb_less a b \<longleftrightarrow> fp_lt (nb_distance a) (nb_distance b) \<or>
     fp_eq (nb_distance a) (nb_distance b) \<and> nb_id a < nb_id b"

definition nb_num :: "neighbor \<Rightarrow> bool" where
  "nb_num a \<longleftrightarrow> nb_distance a \<noteq> NaN"

definition nb_key :: "neighbor \<Rightarrow> fp \<times> nat" where
  "nb_key a = (nb_distance a, nb_id a)"

text \<open>Away from NaN, \<open>operator<\<close> is the lexicographic order on distance and id.\<close>

definition key_less :: "fp \<times> nat \<Rightarrow> fp \<times> nat \<Rightarrow> bool" where
  "key_less a b \<longleftrightarrow> fst a < fst b \<or> fst a = fst b \<and> snd a < snd b"

lemma nb_less_key: "nb_num a \<Longrightarrow> nb_num b \<Longrightarrow> nb_less a b \<longleftrightarrow> key_less (nb_key a) (nb_key b)"
  by (auto simp: nb_less_def nb_num_def nb_key_def key_less_def fp_lt_def fp_eq_def)

lemma key_less_linear:
  "\<not> key_less a a" "key_less a b \<Longrightarrow> key_less b c \<Longrightarrow> key_less a c" "key_less a b \<or> a = b \<or> key_less b a"
  "key_less a b \<Longrightarrow> \<not> key_less b a"
  by (auto simp: key_less_def prod_eq_iff)

lemma nb_less_not_refl [simp]: "\<not> nb_less a a"
  by (auto simp: nb_less_def fp_lt_def)

section \<open>The queue\<close>

record npq =
  npq_size :: nat
  npq_capacity :: nat
  npq_cur :: nat
  npq_data :: "neighbor list"

definition nb_zero :: neighbor where
  "nb_zero = nb_new 0 (Fin 0)"

definition npq_new :: npq where
  "npq_new = \<lparr>npq_size = 0, npq_capacity = 0, npq_cur = 0, npq_data = []\<rparr>"

definition npq_reserve :: "nat \<Rightarrow> npq \<Rightarrow> npq" where
  "npq_reserve capacity q =
     q\<lparr>npq_data := (if capacity + 1 > length (npq_data q)
                      then npq_data q @ replicate (capacity + 1 - length (npq_data q)) nb_zero
                      else npq_data q),
       npq_capacity := capacity\<rparr>"

definition npq_clear :: "npq \<Rightarrow> npq" where
  "npq_clear q = q\<lparr>npq_size := 0, npq_cur := 0\<rparr>"

subsection \<open>The array\<close>

text \<open>
  Every access to \<open>_data\<close> is checked here: an index or a block out of the array is undefined behaviour
  in the code and a fault in the model. \<open>arr_move dst src n\<close> is
  \<open>memmove(&data[dst], &data[src], n * sizeof(Neighbor))\<close>.
\<close>

definition arr_get :: "'a list \<Rightarrow> nat \<Rightarrow> 'a result" where
  "arr_get data i = (if i < length data then Inr (data ! i) else Inl (Undefined ''read out of the array''))"

definition arr_set :: "'a list \<Rightarrow> nat \<Rightarrow> 'a \<Rightarrow> 'a list result" where
  "arr_set data i x =
     (if i < length data then Inr (data[i := x]) else Inl (Undefined ''write out of the array''))"

definition arr_move :: "nat \<Rightarrow> nat \<Rightarrow> nat \<Rightarrow> 'a list \<Rightarrow> 'a list result" where
  "arr_move dst src n data =
     (if dst < length data \<and> src < length data \<and> dst + n \<le> length data \<and> src + n \<le> length data
      then Inr (take dst data @ take n (drop src data) @ drop (dst + n) data)
      else Inl (Undefined ''memmove out of the array''))"

lemma arr_get_Inr [simp]: "i < length data \<Longrightarrow> arr_get data i = Inr (data ! i)"
  by (simp add: arr_get_def)

lemma arr_set_Inr [simp]: "i < length data \<Longrightarrow> arr_set data i x = Inr (data[i := x])"
  by (simp add: arr_set_def)

lemma length_arr_move: "arr_move dst src n data = Inr data' \<Longrightarrow> length data' = length data"
  by (auto simp: arr_move_def split: if_splits)

text \<open>The binary search of \<open>insert\<close>: \<open>None\<close> when it meets the same id.\<close>

function npq_position :: "neighbor list \<Rightarrow> neighbor \<Rightarrow> nat \<Rightarrow> nat \<Rightarrow> nat option result" where
  "npq_position data nbr lo hi =
     (if lo < hi
      then let mid = (lo + hi) div 2
           in case arr_get data mid of
                Inl e \<Rightarrow> Inl e
              | Inr x \<Rightarrow>
                  if nb_less nbr x then npq_position data nbr lo mid
                  else if nb_id x = nb_id nbr then Inr None
                  else npq_position data nbr (mid + 1) hi
      else Inr (Some lo))"
  by pat_completeness auto

termination
  by (relation "measure (\<lambda>(data, nbr, lo, hi). hi - lo)") auto

declare npq_position.simps [simp del]

text \<open>The \<open>memmove\<close> of \<open>insert\<close>, which makes room at \<open>lo\<close>; in a full queue it moves the last candidate into
  the spare slot behind the capacity.\<close>

definition shift_up :: "nat \<Rightarrow> nat \<Rightarrow> 'a list \<Rightarrow> 'a list result" where
  "shift_up lo n data = arr_move (lo + 1) lo (n - lo) data"

definition npq_insert :: "neighbor \<Rightarrow> npq \<Rightarrow> npq result" where
  "npq_insert nbr q =
     rbind (if npq_size q = npq_capacity q
            then if npq_size q = 0 then Inl (Undefined ''_data[_size - 1] of an empty queue'')
                 else rbind (arr_get (npq_data q) (npq_size q - 1)) (\<lambda>worst. Inr (nb_less worst nbr))
            else Inr False) (\<lambda>beyond.
     if beyond then Inr q
     else rbind (npq_position (npq_data q) nbr 0 (npq_size q)) (\<lambda>r.
       case r of
         None \<Rightarrow> Inr q
       | Some lo \<Rightarrow>
           rbind (if lo < npq_capacity q then shift_up lo (npq_size q) (npq_data q) else Inr (npq_data q)) (\<lambda>data1.
           rbind (arr_set data1 lo (nb_new (nb_id nbr) (nb_distance nbr))) (\<lambda>data2.
           Inr (q\<lparr>npq_data := data2,
                  npq_size := (if npq_size q < npq_capacity q then npq_size q + 1 else npq_size q),
                  npq_cur := (if lo < npq_cur q then lo else npq_cur q)\<rparr>)))))"

definition npq_has_unexpanded_node :: "npq \<Rightarrow> bool" where
  "npq_has_unexpanded_node q \<longleftrightarrow> npq_cur q < npq_size q"

text \<open>The loop of \<open>closest_unexpanded\<close> over the \<open>n\<close> candidates that remain.\<close>

fun npq_advance :: "nat \<Rightarrow> neighbor list \<Rightarrow> nat \<Rightarrow> nat result" where
  "npq_advance 0 data cur = Inr cur"
| "npq_advance (Suc n) data cur =
     rbind (arr_get data cur) (\<lambda>x. if nb_expanded x then npq_advance n data (cur + 1) else Inr cur)"

definition npq_closest_unexpanded :: "npq \<Rightarrow> (neighbor \<times> npq) result" where
  "npq_closest_unexpanded q =
     rbind (arr_get (npq_data q) (npq_cur q)) (\<lambda>x.
     rbind (arr_set (npq_data q) (npq_cur q) (x\<lparr>nb_expanded := True\<rparr>)) (\<lambda>data.
     rbind (npq_advance (npq_size q - npq_cur q) data (npq_cur q)) (\<lambda>cur'.
     rbind (arr_get data (npq_cur q)) (\<lambda>closest.
     Inr (closest, q\<lparr>npq_data := data, npq_cur := cur'\<rparr>)))))"

definition npq_at :: "npq \<Rightarrow> nat \<Rightarrow> neighbor result" where
  "npq_at q i = arr_get (npq_data q) i"

section \<open>Invariant and abstraction\<close>

definition npq_list :: "npq \<Rightarrow> neighbor list" where
  "npq_list q = take (npq_size q) (npq_data q)"

definition npq_inv :: "npq \<Rightarrow> bool" where
  "npq_inv q \<longleftrightarrow> npq_size q \<le> npq_capacity q \<and> npq_capacity q < length (npq_data q) \<and>
     sorted_wrt nb_less (npq_list q) \<and> (\<forall>x \<in> set (npq_list q). nb_num x) \<and>
     npq_cur q \<le> npq_size q \<and> (\<forall>i < npq_cur q. nb_expanded (npq_data q ! i)) \<and>
     (npq_cur q < npq_size q \<longrightarrow> \<not> nb_expanded (npq_data q ! npq_cur q))"

text \<open>What an insertion promises: the sorted list with the new candidate in place, cut at the capacity.\<close>

definition list_insert :: "nat \<Rightarrow> neighbor \<Rightarrow> neighbor list \<Rightarrow> neighbor list" where
  "list_insert cap nbr xs =
     (if nb_key nbr \<in> nb_key ` set xs then xs
      else take cap (filter (\<lambda>x. nb_less x nbr) xs @ nb_new (nb_id nbr) (nb_distance nbr) #
                     filter (\<lambda>x. nb_less nbr x) xs))"

lemma length_npq_list: "npq_inv q \<Longrightarrow> length (npq_list q) = npq_size q"
  by (simp add: npq_inv_def npq_list_def)

lemma npq_list_nth: "npq_inv q \<Longrightarrow> i < npq_size q \<Longrightarrow> npq_list q ! i = npq_data q ! i"
  by (simp add: npq_list_def)

lemma npq_position_spec:
  assumes "npq_position data nbr lo hi = r" and "lo \<le> hi" and "hi \<le> n" and "n \<le> length data"
    and "sorted_wrt nb_less (take n data)" and "\<forall>x \<in> set (take n data). nb_num x" and "nb_num nbr"
    and "\<forall>i < lo. nb_less (data ! i) nbr" and "\<forall>i \<in> {hi..<n}. nb_less nbr (data ! i)"
    and "\<forall>x \<in> set (take n data). nb_id x = nb_id nbr \<longrightarrow> nb_distance x = nb_distance nbr"
  shows "case r of Inl e \<Rightarrow> False
    | Inr None \<Rightarrow> nb_key nbr \<in> nb_key ` set (take n data)
    | Inr (Some p) \<Rightarrow> p \<le> n \<and> (\<forall>i < p. nb_less (data ! i) nbr) \<and> (\<forall>i \<in> {p..<n}. nb_less nbr (data ! i))"
  using assms
proof (induction data nbr lo hi arbitrary: r rule: npq_position.induct)
  case (1 data nbr lo hi)
  note num = "1.prems"(6,7) and sorted = "1.prems"(5) and same = "1.prems"(10) and len = "1.prems"(3,4)
  show ?case
  proof (cases "lo < hi")
    case False
    then show ?thesis using "1.prems"
      by (subst (asm) npq_position.simps) (auto split: option.splits)
  next
    case True
    define mid where "mid = (lo + hi) div 2"
    have mid: "lo \<le> mid" "mid < hi" "mid < n" using True len(1) by (simp_all add: mid_def)
    have get: "arr_get data mid = Inr (data ! mid)" using mid(3) len(2) by simp
    have mem: "data ! mid \<in> set (take n data)"
      using nth_mem [of mid "take n data"] mid(3) len(2) by simp
    have nth: "nb_less (data ! i) (data ! j)" if "i < j" "j < n" for i j
      using sorted_wrt_nth_less [OF sorted, of i j] that len(2) by simp
    have trans: "nb_less a c" if "nb_less a b" "nb_less b c" "nb_num a" "nb_num b" "nb_num c" for a b c
      using that by (meson key_less_linear(2) nb_less_key)
    have numi: "nb_num (data ! i)" if "i < n" for i
      using num(1) nth_mem [of i "take n data"] that len(2) by simp
    consider (left) "nb_less nbr (data ! mid)" | (dup) "\<not> nb_less nbr (data ! mid)" "nb_id (data ! mid) = nb_id nbr"
      | (right) "\<not> nb_less nbr (data ! mid)" "nb_id (data ! mid) \<noteq> nb_id nbr" by blast
    then show ?thesis
    proof cases
      case left
      have "\<forall>i \<in> {mid..<n}. nb_less nbr (data ! i)"
      proof
        fix i assume i: "i \<in> {mid..<n}"
        show "nb_less nbr (data ! i)"
        proof (cases "i = mid")
          case False
          then have "nb_less (data ! mid) (data ! i)" using i nth by simp
          then show ?thesis using trans [OF left] numi mid(3) i num(2) by simp
        qed (use left in simp)
      qed
      then show ?thesis
        using "1.IH"(1) [OF True mid_def get left] "1.prems"(1,4-8,10) True left mid
        by (subst (asm) npq_position.simps) (simp add: mid_def [symmetric] Let_def get)
    next
      case dup
      then have "r = Inr None"
        using "1.prems"(1) True by (subst (asm) npq_position.simps) (simp add: mid_def [symmetric] Let_def get)
      moreover have "nb_key (data ! mid) = nb_key nbr"
        using dup same mem by (simp add: nb_key_def)
      ultimately show ?thesis using mem by (auto simp: image_iff) (metis)
    next
      case right
      have less: "nb_less (data ! mid) nbr"
        using right key_less_linear(3) [of "nb_key nbr" "nb_key (data ! mid)"] num(2) numi [OF mid(3)]
        by (auto simp: nb_less_key nb_key_def)
      have "\<forall>i < mid + 1. nb_less (data ! i) nbr"
      proof (intro allI impI)
        fix i assume i: "i < mid + 1"
        show "nb_less (data ! i) nbr"
        proof (cases "i = mid")
          case False
          then have "nb_less (data ! i) (data ! mid)" using i mid(3) nth by simp
          then show ?thesis using trans [OF _ less] numi mid(3) i num(2) by simp
        qed (use less in simp)
      qed
      then show ?thesis
        using "1.IH"(2) [OF True mid_def get right] "1.prems"(1,3-7,9,10) True right mid
        by (subst (asm) npq_position.simps) (simp add: mid_def [symmetric] Let_def get)
    qed
  qed
qed

lemma filter_split:
  assumes "p \<le> length xs" and "\<forall>i < p. P (xs ! i)" and "\<forall>i \<in> {p..<length xs}. \<not> P (xs ! i)"
  shows "filter P xs = take p xs"
proof -
  have "filter P (take p xs) = take p xs" using assms(1,2) by (auto simp: filter_id_conv in_set_conv_nth)
  moreover have "filter P (drop p xs) = []"
    using assms(3) by (auto simp: filter_empty_conv in_set_conv_nth)
  ultimately show ?thesis by (metis append_take_drop_id filter_append append_Nil2)
qed

lemma filter_split_drop:
  assumes "p \<le> length xs" and "\<forall>i < p. \<not> P (xs ! i)" and "\<forall>i \<in> {p..<length xs}. P (xs ! i)"
  shows "filter P xs = drop p xs"
proof -
  have "filter P (drop p xs) = drop p xs" using assms(3) by (auto simp: filter_id_conv in_set_conv_nth)
  moreover have "filter P (take p xs) = []"
    using assms(1,2) by (auto simp: filter_empty_conv in_set_conv_nth)
  ultimately show ?thesis by (metis append_take_drop_id filter_append append_Nil)
qed

lemma shift_up_Inr:
  assumes "p \<le> n" and "p < cap" and "n \<le> cap" and "cap < length data"
  shows "shift_up p n data = Inr (take (p + 1) data @ take (n - p) (drop p data) @ drop (n + 1) data)"
  using assms by (simp add: shift_up_def arr_move_def)

lemma shift_up_update:
  assumes "p \<le> n" and "p < cap" and "n \<le> cap" and "cap < length data"
  obtains data1 where "shift_up p n data = Inr data1" and "length data1 = length data"
    and "data1[p := x] = take p data @ x # take (n - p) (drop p data) @ drop (n + 1) data"
proof -
  let ?data1 = "take (p + 1) data @ take (n - p) (drop p data) @ drop (n + 1) data"
  have "take (p + 1) data = take p data @ [data ! p]" using assms by (simp add: take_Suc_conv_app_nth)
  then have "?data1[p := x] = take p data @ x # take (n - p) (drop p data) @ drop (n + 1) data"
    using assms by (simp add: list_update_append)
  moreover have "length ?data1 = length data" using assms by simp
  ultimately show ?thesis using that shift_up_Inr [OF assms] by blast
qed

lemma nb_less_trans:
  "nb_num a \<Longrightarrow> nb_num b \<Longrightarrow> nb_num c \<Longrightarrow> nb_less a b \<Longrightarrow> nb_less b c \<Longrightarrow> nb_less a c"
  using key_less_linear(2) by (metis nb_less_key)

lemma nb_less_asym: "nb_num a \<Longrightarrow> nb_num b \<Longrightarrow> nb_less a b \<Longrightarrow> \<not> nb_less b a \<and> nb_key a \<noteq> nb_key b"
  using key_less_linear(1,4) by (metis nb_less_key)

lemma list_insert_split:
  assumes "p \<le> length xs" and "\<forall>i < p. nb_less (xs ! i) nbr" and "\<forall>i \<in> {p..<length xs}. nb_less nbr (xs ! i)"
    and "\<forall>x \<in> set xs. nb_num x" and "nb_num nbr"
  shows "list_insert cap nbr xs = take cap (take p xs @ nb_new (nb_id nbr) (nb_distance nbr) # drop p xs)"
proof -
  have num: "nb_num (xs ! i)" if "i < length xs" for i using assms(4) that by simp
  have lo: "\<forall>i < p. \<not> nb_less nbr (xs ! i) \<and> nb_key (xs ! i) \<noteq> nb_key nbr"
    using assms(1,2,5) num nb_less_asym by (meson order_less_le_trans)
  have hi: "\<forall>i \<in> {p..<length xs}. \<not> nb_less (xs ! i) nbr \<and> nb_key (xs ! i) \<noteq> nb_key nbr"
    using assms(3,5) num nb_less_asym by (metis atLeastLessThan_iff)
  have "nb_key nbr \<notin> nb_key ` set xs"
  proof
    assume "nb_key nbr \<in> nb_key ` set xs"
    then obtain i where "i < length xs" "nb_key (xs ! i) = nb_key nbr" by (auto simp: in_set_conv_nth)
    then show False using lo hi by (cases "i < p") auto
  qed
  moreover have "filter (\<lambda>x. nb_less x nbr) xs = take p xs" using assms(1,2) hi by (intro filter_split) auto
  moreover have "filter (\<lambda>x. nb_less nbr x) xs = drop p xs" using assms(1,3) lo by (intro filter_split_drop) auto
  ultimately show ?thesis by (simp add: list_insert_def)
qed

text \<open>An insertion, its first read of the array done: a candidate beyond a full queue is skipped.\<close>

lemma npq_insert_unfold:
  assumes "npq_size q \<le> npq_capacity q" and "npq_size q < length (npq_data q)" and "0 < npq_capacity q"
  shows "npq_insert nbr q =
     (if npq_size q = npq_capacity q \<and> nb_less (npq_data q ! (npq_size q - 1)) nbr then Inr q
      else rbind (npq_position (npq_data q) nbr 0 (npq_size q)) (\<lambda>r.
       case r of
         None \<Rightarrow> Inr q
       | Some lo \<Rightarrow>
           rbind (if lo < npq_capacity q then shift_up lo (npq_size q) (npq_data q) else Inr (npq_data q)) (\<lambda>data1.
           rbind (arr_set data1 lo (nb_new (nb_id nbr) (nb_distance nbr))) (\<lambda>data2.
           Inr (q\<lparr>npq_data := data2,
                  npq_size := (if npq_size q < npq_capacity q then npq_size q + 1 else npq_size q),
                  npq_cur := (if lo < npq_cur q then lo else npq_cur q)\<rparr>)))))"
proof -
  have "arr_get (npq_data q) (npq_size q - 1) = Inr (npq_data q ! (npq_size q - 1))"
    using assms(2) by simp
  then have "(if npq_size q = npq_capacity q
      then if npq_size q = 0 then Inl (Undefined ''_data[_size - 1] of an empty queue'')
           else rbind (arr_get (npq_data q) (npq_size q - 1)) (\<lambda>worst. Inr (nb_less worst nbr))
      else Inr False) =
    (Inr (npq_size q = npq_capacity q \<and> nb_less (npq_data q ! (npq_size q - 1)) nbr) :: bool result)"
    using assms(3) by (cases "npq_size q = npq_capacity q") simp_all
  then show ?thesis unfolding npq_insert_def by (simp only: rbind_simps)
qed

lemma npq_insert_at:
  assumes "npq_inv q" and "p \<le> npq_size q" and "p < npq_capacity q" and "nb_num nbr"
    and "\<forall>i < p. nb_less (npq_data q ! i) nbr" and "\<forall>i \<in> {p..<npq_size q}. nb_less nbr (npq_data q ! i)"
    and "shift_up p (npq_size q) (npq_data q) = Inr data1"
    and "q' = q\<lparr>npq_data := data1[p := nb_new (nb_id nbr) (nb_distance nbr)],
      npq_size := (if npq_size q < npq_capacity q then npq_size q + 1 else npq_size q),
      npq_cur := (if p < npq_cur q then p else npq_cur q)\<rparr>"
  shows "npq_inv q' \<and> npq_list q' = list_insert (npq_capacity q) nbr (npq_list q)"
proof -
  let ?x = "nb_new (nb_id nbr) (nb_distance nbr)" and ?n = "npq_size q" and ?d = "npq_data q"
  let ?xs = "npq_list q"
  have n: "?n < length ?d" "?n \<le> npq_capacity q" using assms(1) by (simp_all add: npq_inv_def)
  have len: "length ?xs = ?n" by (rule length_npq_list [OF assms(1)])
  have nth: "?xs ! i = ?d ! i" if "i < ?n" for i using that by (simp add: npq_list_def)
  define d' where "d' = data1[p := ?x]"
  have cap: "npq_capacity q < length ?d" using assms(1) by (simp add: npq_inv_def)
  have d': "d' = take p ?d @ ?x # drop p ?xs @ drop (?n + 1) ?d"
    using shift_up_update [OF assms(2,3) n(2) cap, of ?x] assms(7)
    by (metis d'_def drop_take npq_list_def sum.inject(2))
  have "take p ?d = take p ?xs" using assms(2) by (simp add: npq_list_def min_def)
  then have d'': "d' = (take p ?xs @ ?x # drop p ?xs) @ drop (?n + 1) ?d" using d' by simp
  have spec: "list_insert (npq_capacity q) nbr ?xs = take (npq_capacity q) (take p ?xs @ ?x # drop p ?xs)"
    using assms(1,2,4-6) len nth by (intro list_insert_split) (auto simp: npq_inv_def)
  have size': "npq_size q' = min (?n + 1) (npq_capacity q)" using n(2) by (simp add: assms(8))
  have list': "npq_list q' = list_insert (npq_capacity q) nbr ?xs"
  proof -
    let ?ys = "take p ?xs @ ?x # drop p ?xs"
    have ys: "length ?ys = ?n + 1" using len assms(2) by simp
    have "npq_list q' = take (min (?n + 1) (npq_capacity q)) (?ys @ drop (?n + 1) ?d)"
      unfolding npq_list_def [of q'] size' by (simp add: assms(8) d'_def [symmetric] d'')
    also have "\<dots> = take (min (length ?ys) (npq_capacity q)) ?ys"
      unfolding ys [symmetric] by (simp only: take_append) simp
    finally show ?thesis unfolding spec by (metis min.commute take_all_iff take_take order_refl)
  qed
  have sorted: "sorted_wrt nb_less (take p ?xs @ ?x # drop p ?xs)"
  proof -
    have x: "nb_less y ?x = nb_less y nbr" "nb_less ?x y = nb_less nbr y" for y
      by (simp_all add: nb_less_def nb_new_def)
    have parts: "sorted_wrt nb_less (take p ?xs)" "sorted_wrt nb_less (drop p ?xs)"
      "\<forall>a \<in> set (take p ?xs). \<forall>b \<in> set (drop p ?xs). nb_less a b"
      using assms(1) append_take_drop_id [of p ?xs] sorted_wrt_append [of nb_less "take p ?xs" "drop p ?xs"]
      by (simp_all add: npq_inv_def)
    have "\<forall>a \<in> set (take p ?xs). nb_less a nbr"
      using assms(2,5) nth len by (auto simp: in_set_conv_nth)
    moreover have "\<forall>b \<in> set (drop p ?xs). nb_less nbr b"
      using assms(2,6) nth len by (auto simp: in_set_conv_nth)
    ultimately show ?thesis using parts by (auto simp: sorted_wrt_append x)
  qed
  have "nb_num ?x" using assms(4) by (simp add: nb_num_def nb_new_def)
  then have num: "\<forall>y \<in> set (take p ?xs @ ?x # drop p ?xs). nb_num y"
    using assms(1) by (auto simp: npq_inv_def dest: in_set_takeD in_set_dropD)
  have "length d' = length ?d" using n(1) len assms(2) by (simp add: d'')
  moreover have before: "d' ! i = ?d ! i" if "i < p" for i
    using that assms(2) n(1) by (simp add: d' nth_append)
  moreover have at: "d' ! p = ?x" using assms(2) n(1) by (simp add: d' nth_append)
  moreover have "\<forall>y \<in> set (npq_list q'). nb_num y" unfolding list' spec using num in_set_takeD by metis
  moreover have "sorted_wrt nb_less (npq_list q')" unfolding list' spec using sorted by (rule sorted_wrt_take)
  moreover have "npq_cur q' \<le> npq_size q'" using assms(1,2,3) by (auto simp: size' assms(8) npq_inv_def)
  moreover have "npq_capacity q' = npq_capacity q" "npq_data q' = d'" by (simp_all add: assms(8) d'_def)
  moreover have "\<forall>i < npq_cur q'. nb_expanded (d' ! i)"
  proof (intro allI impI)
    fix i assume i: "i < npq_cur q'"
    show "nb_expanded (d' ! i)"
    proof (cases "i < p")
      case True
      then show ?thesis using i before assms(1) by (simp add: assms(8) npq_inv_def split: if_splits)
    next
      case False
      then have "npq_cur q' = npq_cur q" "p \<le> i" "i < npq_cur q" "\<not> p < npq_cur q"
        using i by (simp_all add: assms(8) split: if_splits)
      then show ?thesis by simp
    qed
  qed
  moreover have "\<not> nb_expanded (d' ! npq_cur q')" if "npq_cur q' < npq_size q'"
  proof (cases "npq_cur q < p")
    case True
    then have "npq_cur q' = npq_cur q" "npq_cur q < ?n" using assms(2) by (simp_all add: assms(8))
    then show ?thesis using before [OF True] assms(1) by (simp add: npq_inv_def)
  next
    case False
    then have "npq_cur q' = p" by (simp add: assms(8))
    then show ?thesis by (simp add: at nb_new_def)
  qed
  moreover have "npq_capacity q < length ?d" using assms(1) by (simp add: npq_inv_def)
  ultimately show ?thesis using n list' size' by (simp add: npq_inv_def)
qed

lemma npq_insert_spec:
  assumes "npq_inv q" and "0 < npq_capacity q" and "nb_num nbr"
    and "\<forall>x \<in> set (npq_list q). nb_id x = nb_id nbr \<longrightarrow> nb_distance x = nb_distance nbr"
  obtains q' where "npq_insert nbr q = Inr q'" and "npq_inv q'"
    and "npq_list q' = list_insert (npq_capacity q) nbr (npq_list q)" and "npq_capacity q' = npq_capacity q"
proof -
  let ?n = "npq_size q" and ?xs = "npq_list q"
  have inv: "?n \<le> npq_capacity q" "?n < length (npq_data q)" "sorted_wrt nb_less ?xs" "\<forall>x \<in> set ?xs. nb_num x"
    using assms(1) by (simp_all add: npq_inv_def)
  have len: "length ?xs = ?n" by (rule length_npq_list [OF assms(1)])
  have nth: "?xs ! i = npq_data q ! i" if "i < ?n" for i using that by (simp add: npq_list_def)
  show ?thesis
  proof (cases "?n = npq_capacity q \<and> nb_less (npq_data q ! (?n - 1)) nbr")
    case True
    have "?n - 1 < ?n" using True assms(2) by simp
    then have last: "nb_less (?xs ! (?n - 1)) nbr" using True nth by metis
    have "nb_less (?xs ! i) nbr" if "i < ?n" for i
    proof (cases "i = ?n - 1")
      case False
      then have "nb_less (?xs ! i) (?xs ! (?n - 1))"
        using sorted_wrt_nth_less [OF inv(3), of i "?n - 1"] that len by simp
      moreover have "nb_num (?xs ! i)" "nb_num (?xs ! (?n - 1))" using inv(4) that len by simp_all
      ultimately show ?thesis using nb_less_trans [OF _ _ assms(3) _ last] by blast
    qed (use last in simp)
    then have below: "\<forall>i < ?n. nb_less (?xs ! i) nbr" by blast
    have above: "\<forall>i \<in> {?n..<length ?xs}. nb_less nbr (?xs ! i)" using len by simp
    have "list_insert (npq_capacity q) nbr ?xs =
        take (npq_capacity q) (take ?n ?xs @ nb_new (nb_id nbr) (nb_distance nbr) # drop ?n ?xs)"
      by (rule list_insert_split [OF eq_refl [OF len [symmetric]] below above inv(4) assms(3)])
    then have "list_insert (npq_capacity q) nbr ?xs = ?xs" using True len by simp
    moreover have "npq_insert nbr q = Inr q"
      unfolding npq_insert_unfold [OF inv(1,2) assms(2)] by (rule if_P [OF True])
    ultimately show ?thesis using that [of q] assms(1) by simp
  next
    case room: False
    note insert = npq_insert_unfold [OF inv(1,2) assms(2), of nbr, unfolded if_not_P [OF room]]
    note spec = npq_position_spec [OF refl, of 0 ?n ?n "npq_data q" nbr]
    obtain r where r: "npq_position (npq_data q) nbr 0 ?n = Inr r"
      using spec inv assms(3,4) by (cases "npq_position (npq_data q) nbr 0 ?n") (simp_all add: npq_list_def)
    show ?thesis
    proof (cases r)
      case None
      then have "nb_key nbr \<in> nb_key ` set ?xs"
        using spec inv assms(3,4) r by (simp add: npq_list_def)
      then show ?thesis
        using that [of q] None r assms(1) insert by (simp add: list_insert_def)
    next
      case (Some p)
      then have p: "p \<le> ?n" "\<forall>i < p. nb_less (npq_data q ! i) nbr" "\<forall>i \<in> {p..<?n}. nb_less nbr (npq_data q ! i)"
        using spec inv assms(3,4) r by (simp_all add: npq_list_def)
      have plt: "p < npq_capacity q"
      proof (rule ccontr)
        assume "\<not> p < npq_capacity q"
        then have full: "?n = npq_capacity q" "p = ?n" using p(1) inv(1) by simp_all
        then have "nb_less (npq_data q ! (?n - 1)) nbr" using p(2) assms(2) by simp
        with room full(1) show False by simp
      qed
      have cap: "npq_capacity q < length (npq_data q)" using assms(1) by (simp add: npq_inv_def)
      obtain data1 where data1: "shift_up p ?n (npq_data q) = Inr data1" "length data1 = length (npq_data q)"
        using shift_up_update [OF p(1) plt inv(1) cap] by metis
      have ins: "npq_insert nbr q = Inr (q\<lparr>
          npq_data := data1[p := nb_new (nb_id nbr) (nb_distance nbr)],
          npq_size := (if ?n < npq_capacity q then ?n + 1 else ?n),
          npq_cur := (if p < npq_cur q then p else npq_cur q)\<rparr>)"
        unfolding insert using Some r data1 plt cap by simp
      from npq_insert_at [OF assms(1) p(1) plt assms(3) p(2,3) data1(1) refl]
      show ?thesis by (intro that [OF ins]) simp_all
    qed
  qed
qed

subsection \<open>Memory safety, whatever the candidates\<close>

text \<open>The shape of the array alone keeps every access inside it: neither the order of the candidates nor the
  comparison of their distances, which a NaN makes useless, plays a part.\<close>

definition npq_shape :: "npq \<Rightarrow> bool" where
  "npq_shape q \<longleftrightarrow> npq_size q \<le> npq_capacity q \<and> npq_capacity q < length (npq_data q)"

lemma npq_position_safe:
  "hi \<le> length data \<Longrightarrow> lo \<le> hi \<Longrightarrow>
     \<exists>r. npq_position data nbr lo hi = Inr r \<and> (\<forall>p. r = Some p \<longrightarrow> p \<le> hi)"
proof (induction data nbr lo hi rule: npq_position.induct)
  case (1 data nbr lo hi)
  show ?case
  proof (cases "lo < hi")
    case True
    define mid where "mid = (lo + hi) div 2"
    have mid: "lo \<le> mid" "mid < hi" using True by (simp_all add: mid_def)
    have get: "arr_get data mid = Inr (data ! mid)" using mid(2) "1.prems"(1) by simp
    have step: "npq_position data nbr lo hi =
        (if nb_less nbr (data ! mid) then npq_position data nbr lo mid
         else if nb_id (data ! mid) = nb_id nbr then Inr None else npq_position data nbr (mid + 1) hi)"
      using True by (subst npq_position.simps) (simp add: mid_def [symmetric] Let_def get)
    consider "nb_less nbr (data ! mid)" | "\<not> nb_less nbr (data ! mid)" "nb_id (data ! mid) = nb_id nbr"
      | "\<not> nb_less nbr (data ! mid)" "nb_id (data ! mid) \<noteq> nb_id nbr" by blast
    then show ?thesis
    proof cases
      case 1
      from "1.IH"(1) [OF True mid_def get 1] "1.prems"(1) mid 1 show ?thesis
        unfolding step by fastforce
    next
      case 2
      then show ?thesis unfolding step by simp
    next
      case 3
      from "1.IH"(2) [OF True mid_def get 3] "1.prems"(1) mid 3 show ?thesis
        unfolding step by simp
    qed
  qed (use "1.prems" in \<open>simp add: npq_position.simps\<close>)
qed

lemma npq_insert_safe:
  assumes "npq_shape q" and "0 < npq_capacity q"
  shows "\<exists>q'. npq_insert nbr q = Inr q' \<and> npq_shape q' \<and> npq_capacity q' = npq_capacity q \<and>
    length (npq_data q') = length (npq_data q)"
proof -
  let ?n = "npq_size q"
  have shape: "?n \<le> npq_capacity q" "npq_capacity q < length (npq_data q)"
    using assms(1) by (simp_all add: npq_shape_def)
  let ?beyond = "?n = npq_capacity q \<and> nb_less (npq_data q ! (?n - 1)) nbr"
  have "?n < length (npq_data q)" using shape by simp
  note insert = npq_insert_unfold [OF shape(1) this assms(2), of nbr]
  obtain r where r: "npq_position (npq_data q) nbr 0 ?n = Inr r" "\<forall>p. r = Some p \<longrightarrow> p \<le> ?n"
    using npq_position_safe [of ?n "npq_data q" 0 nbr] shape by auto
  show ?thesis
  proof (cases "?beyond \<or> r = None")
    case True
    then have "npq_insert nbr q = Inr q" unfolding insert r(1) rbind_simps by (auto simp del: not_None_eq)
    then show ?thesis using assms(1) by blast
  next
    case False
    then obtain lo where lo: "r = Some lo" "lo \<le> ?n" using r(2) by auto
    have "\<exists>data1. (if lo < npq_capacity q then shift_up lo ?n (npq_data q) else Inr (npq_data q)) = Inr data1 \<and>
      length data1 = length (npq_data q)"
    proof (cases "lo < npq_capacity q")
      case True
      show ?thesis using shift_up_update [OF lo(2) True shape] unfolding if_P [OF True] by metis
    qed simp
    then obtain data1 where data1:
      "(if lo < npq_capacity q then shift_up lo ?n (npq_data q) else Inr (npq_data q)) = Inr data1"
      "length data1 = length (npq_data q)" by blast
    have beyond: "\<not> ?beyond" using False by blast
    show ?thesis
      unfolding insert if_not_P [OF beyond] r(1) lo(1) rbind_simps option.case data1(1)
      using lo(2) shape data1(2) by (simp add: npq_shape_def)
  qed
qed

lemma npq_insert_all_safe:
  assumes "npq_shape q" and "0 < npq_capacity q"
  shows "\<exists>q'. rfold npq_insert nbs q = Inr q' \<and> npq_shape q' \<and> npq_capacity q' = npq_capacity q \<and>
    length (npq_data q') = length (npq_data q)"
  using assms
proof (induction nbs arbitrary: q)
  case (Cons x nbs)
  obtain q1 where q1: "npq_insert x q = Inr q1" "npq_shape q1" "npq_capacity q1 = npq_capacity q"
    "length (npq_data q1) = length (npq_data q)"
    using npq_insert_safe [OF Cons.prems] by blast
  with Cons.IH [of q1] Cons.prems(2) show ?case by simp
qed simp

section \<open>Taking the closest candidate\<close>

lemma npq_advance_spec:
  assumes "cur + n \<le> length data"
  shows "\<exists>cur'. npq_advance n data cur = Inr cur' \<and> cur \<le> cur' \<and> cur' \<le> cur + n \<and>
   (\<forall>i \<in> {cur..<cur'}. nb_expanded (data ! i)) \<and>
   (cur' < cur + n \<longrightarrow> \<not> nb_expanded (data ! cur'))"
  using assms
proof (induction n arbitrary: cur)
  case (Suc n)
  have get: "arr_get data cur = Inr (data ! cur)" using Suc.prems by simp
  show ?case
  proof (cases "nb_expanded (data ! cur)")
    case True
    obtain cur' where c: "npq_advance n data (cur + 1) = Inr cur'" "cur + 1 \<le> cur'" "cur' \<le> cur + 1 + n"
      "\<forall>i \<in> {cur + 1..<cur'}. nb_expanded (data ! i)" "cur' < cur + 1 + n \<longrightarrow> \<not> nb_expanded (data ! cur')"
      using Suc.IH [of "cur + 1"] Suc.prems by auto
    have "nb_expanded (data ! i)" if "i \<in> {cur..<cur'}" for i
      using c(4) True that by (cases "i = cur") auto
    then have "\<forall>i \<in> {cur..<cur'}. nb_expanded (data ! i)" by blast
    with c True get show ?thesis by simp
  qed (use get in simp)
qed simp

definition expand_at :: "nat \<Rightarrow> neighbor list \<Rightarrow> neighbor list" where
  "expand_at i xs = xs[i := (xs ! i)\<lparr>nb_expanded := True\<rparr>]"

lemma nb_less_expanded [simp]:
  "nb_less (a\<lparr>nb_expanded := b\<rparr>) c = nb_less a c" "nb_less c (a\<lparr>nb_expanded := b\<rparr>) = nb_less c a"
  "nb_num (a\<lparr>nb_expanded := b\<rparr>) = nb_num a" "nb_key (a\<lparr>nb_expanded := b\<rparr>) = nb_key a"
  by (simp_all add: nb_less_def nb_num_def nb_key_def)

lemma expand_at_props:
  assumes "i < length xs"
  shows "map nb_key (expand_at i xs) = map nb_key xs" and "length (expand_at i xs) = length xs"
    and "sorted_wrt nb_less (expand_at i xs) \<longleftrightarrow> sorted_wrt nb_less xs"
    and "(\<forall>x \<in> set (expand_at i xs). nb_num x) \<longleftrightarrow> (\<forall>x \<in> set xs. nb_num x)"
proof -
  have nth: "expand_at i xs ! j = (if j = i then (xs ! j)\<lparr>nb_expanded := True\<rparr> else xs ! j)" if "j < length xs" for j
    using that by (simp add: expand_at_def nth_list_update)
  show "length (expand_at i xs) = length xs" by (simp add: expand_at_def)
  then show "map nb_key (expand_at i xs) = map nb_key xs"
    by (intro nth_equalityI) (auto simp: nth)
  show "sorted_wrt nb_less (expand_at i xs) \<longleftrightarrow> sorted_wrt nb_less xs"
  proof -
    have "nb_less (expand_at i xs ! j) (expand_at i xs ! k) \<longleftrightarrow> nb_less (xs ! j) (xs ! k)"
      if "j < length xs" "k < length xs" for j k using that by (simp add: nth)
    then show ?thesis
      unfolding sorted_wrt_iff_nth_less using \<open>length (expand_at i xs) = length xs\<close> by auto
  qed
  show "(\<forall>x \<in> set (expand_at i xs). nb_num x) \<longleftrightarrow> (\<forall>x \<in> set xs. nb_num x)"
  proof -
    have "nb_num (expand_at i xs ! j) \<longleftrightarrow> nb_num (xs ! j)" if "j < length xs" for j using that by (simp add: nth)
    then show ?thesis
      unfolding all_set_conv_all_nth using \<open>length (expand_at i xs) = length xs\<close> by auto
  qed
qed

lemma npq_closest_spec:
  assumes "npq_inv q" and "npq_has_unexpanded_node q"
  obtains nbr q' where "npq_closest_unexpanded q = Inr (nbr, q')" and "npq_inv q'"
    and "npq_list q' = expand_at (npq_cur q) (npq_list q)" and "npq_cur q < npq_size q"
    and "nbr = (npq_list q ! npq_cur q)\<lparr>nb_expanded := True\<rparr>" and "\<not> nb_expanded (npq_list q ! npq_cur q)"
    and "\<forall>i < npq_cur q. nb_expanded (npq_list q ! i)" and "npq_capacity q' = npq_capacity q"
    and "npq_size q' = npq_size q"
proof -
  let ?n = "npq_size q" and ?c = "npq_cur q" and ?d = "npq_data q"
  have inv: "?n \<le> npq_capacity q" "npq_capacity q < length ?d" "\<forall>i < ?c. nb_expanded (?d ! i)"
    "\<not> nb_expanded (?d ! ?c)" "?c < ?n" "?c < length ?d"
    using assms by (simp_all add: npq_inv_def npq_has_unexpanded_node_def)
  have len: "length (npq_list q) = ?n" by (rule length_npq_list [OF assms(1)])
  have nth: "npq_list q ! i = ?d ! i" if "i < ?n" for i using that by (simp add: npq_list_def)
  let ?d' = "?d[?c := (?d ! ?c)\<lparr>nb_expanded := True\<rparr>]"
  have bound: "?c + (?n - ?c) \<le> length ?d'" using inv by simp
  obtain c' where adv0: "npq_advance (?n - ?c) ?d' ?c = Inr c'" "?c \<le> c'" "c' \<le> ?c + (?n - ?c)"
    "\<forall>i \<in> {?c..<c'}. nb_expanded (?d' ! i)" "c' < ?c + (?n - ?c) \<longrightarrow> \<not> nb_expanded (?d' ! c')"
    using npq_advance_spec [OF bound] by blast
  let ?q' = "q\<lparr>npq_data := ?d', npq_cur := c'\<rparr>"
  have adv: "?c \<le> c'" "c' \<le> ?n" "\<forall>i \<in> {?c..<c'}. nb_expanded (?d' ! i)"
    "c' < ?n \<Longrightarrow> \<not> nb_expanded (?d' ! c')"
    using adv0 inv(5) by simp_all
  have list': "npq_list ?q' = expand_at ?c (npq_list q)"
    using inv(5) nth by (simp add: npq_list_def expand_at_def take_update_swap)
  have "\<forall>i < c'. nb_expanded (?d' ! i)"
    using adv(3) inv(3,6) by (metis atLeastLessThan_iff linorder_not_le nth_list_update_neq order_less_irrefl)
  then have "npq_inv ?q'"
    using assms(1) list' adv(2,4) expand_at_props [of ?c "npq_list q"] inv(5) len
    by (simp add: npq_inv_def)
  moreover have "npq_closest_unexpanded q = Inr ((?d ! ?c)\<lparr>nb_expanded := True\<rparr>, ?q')"
    using inv(6) adv0(1) by (simp add: npq_closest_unexpanded_def)
  ultimately show ?thesis
    using list' inv nth by (intro that [of "(?d ! ?c)\<lparr>nb_expanded := True\<rparr>" ?q']) auto
qed

section \<open>The best candidates of a sequence\<close>

lemma key_less_prod: "key_less a b \<longleftrightarrow> a < b"
  by (cases a; cases b) (auto simp: key_less_def)

lemma take_insort: "take n (insort k (take n S)) = take n (insort k S)"
proof (induction S arbitrary: n)
  case (Cons x S)
  show ?case
  proof (cases n)
    case (Suc m)
    then show ?thesis using Cons.IH [of m] by (cases m) (auto simp: take_Cons')
  qed simp
qed simp

lemma insort_sorted_split:
  assumes "sorted S" and "distinct S" and "k \<notin> set S"
  shows "insort k S = filter (\<lambda>x. x < k) S @ k # filter (\<lambda>x. k < x) S"
  using assms
proof (induction S)
  case (Cons x S)
  show ?case
  proof (cases "k \<le> x")
    case True
    then have above: "k < y" if "y \<in> set (x # S)" for y
      using that Cons.prems by (auto simp: le_less)
    then have "filter (\<lambda>y. k < y) (x # S) = x # S" by (simp only: filter_id_conv) blast
    moreover have "filter (\<lambda>y. y < k) (x # S) = []"
      using above by (simp only: filter_empty_conv) (blast dest: less_asym)
    ultimately show ?thesis using True by simp
  next
    case False
    then have "\<not> k < x" "x \<noteq> k" "x < k" by auto
    then show ?thesis using Cons by simp
  qed
qed simp

lemma map_filter_key:
  assumes "\<forall>x \<in> set xs. P x \<longleftrightarrow> Q (nb_key x)"
  shows "map nb_key (filter P xs) = filter Q (map nb_key xs)"
  using assms by (induction xs) auto

lemma list_insert_keys:
  assumes "map nb_key xs = take cap (sorted_list_of_set A)" and "finite A" and "nb_num nbr"
    and "\<forall>x \<in> set xs. nb_num x"
  shows "map nb_key (list_insert cap nbr xs) = take cap (sorted_list_of_set (insert (nb_key nbr) A))"
proof -
  let ?S = "sorted_list_of_set A" and ?k = "nb_key nbr"
  have S: "sorted ?S" "distinct ?S" "set ?S = A" using assms(2) by simp_all
  have T: "sorted (take cap ?S)" "distinct (take cap ?S)" using S by (simp_all add: sorted_wrt_take)
  have keys: "nb_key ` set xs = set (take cap ?S)" by (metis assms(1) list.set_map)
  have less: "map nb_key (filter (\<lambda>x. nb_less x nbr) xs) = filter (\<lambda>y. y < ?k) (take cap ?S)"
    "map nb_key (filter (\<lambda>x. nb_less nbr x) xs) = filter (\<lambda>y. ?k < y) (take cap ?S)"
    unfolding assms(1) [symmetric] using assms(3,4)
    by (intro map_filter_key; simp add: nb_less_key key_less_prod)+
  show ?thesis
  proof (cases "?k \<in> set (take cap ?S)")
    case True
    then have "?k \<in> A" using S(3) in_set_takeD by metis
    then have "insert ?k A = A" by blast
    then show ?thesis using True keys assms(1) by (simp add: list_insert_def)
  next
    case new: False
    have key: "nb_key (nb_new (nb_id nbr) (nb_distance nbr)) = ?k" by (simp add: nb_key_def nb_new_def)
    have ins: "map nb_key (filter (\<lambda>x. nb_less x nbr) xs @ nb_new (nb_id nbr) (nb_distance nbr) #
        filter (\<lambda>x. nb_less nbr x) xs) = insort ?k (take cap ?S)"
      unfolding map_append list.map less key insort_sorted_split [OF T new] by (rule refl)
    have "nb_key nbr \<notin> nb_key ` set xs" using new keys by simp
    then have "map nb_key (list_insert cap nbr xs) = take cap (insort ?k (take cap ?S))"
      unfolding list_insert_def ins [symmetric] take_map by simp
    also have "\<dots> = take cap (insort ?k ?S)" by (rule take_insort)
    also have "\<dots> = take cap (sorted_list_of_set (insert ?k A))"
    proof (cases "?k \<in> A")
      case False
      then show ?thesis using assms(2) by (simp add: sorted_list_of_set.sorted_key_list_of_set_insert)
    next
      case True
      then obtain i where i: "i < length ?S" "?S ! i = ?k" using S(3) by (metis in_set_conv_nth)
      then have "cap \<le> i" using new by (metis in_set_conv_nth length_take min_less_iff_conj not_le nth_take)
      have "insort ?k (take cap ?S) = take cap ?S @ [?k]"
      proof -
        have lt: "y < ?k" if y: "y \<in> set (take cap ?S)" for y
        proof -
          obtain j where j: "j < cap" "j < length ?S" "y = ?S ! j" using y by (auto simp: in_set_conv_nth)
          then have "j \<le> i" using \<open>cap \<le> i\<close> by simp
          then have "y \<le> ?k" using sorted_nth_mono [OF S(1) _ i(1), of j] i(2) j(3) by simp
          moreover have "y \<noteq> ?k" using y new by blast
          ultimately show ?thesis by simp
        qed
        then have "filter (\<lambda>x. x < ?k) (take cap ?S) = take cap ?S" "filter (\<lambda>x. ?k < x) (take cap ?S) = []"
          by (auto simp: filter_id_conv filter_empty_conv dest: less_asym)
        then show ?thesis using insort_sorted_split [OF T new] by simp
      qed
      then have "take cap (insort ?k ?S) = take cap ?S"
        using take_insort [of cap ?k ?S] i(1) \<open>cap \<le> i\<close> by simp
      moreover have "insert ?k A = A" using True by blast
      ultimately show ?thesis by simp
    qed
    finally show ?thesis .
  qed
qed

lemma npq_inv_fresh: "npq_inv (npq_reserve cap npq_new)" "npq_list (npq_reserve cap npq_new) = []"
    "npq_capacity (npq_reserve cap npq_new) = cap"
  by (simp_all add: npq_inv_def npq_reserve_def npq_new_def npq_list_def)

lemma set_list_insert:
  "set (list_insert cap nbr xs) \<subseteq> insert (nb_new (nb_id nbr) (nb_distance nbr)) (set xs)"
  by (auto simp: list_insert_def dest!: in_set_takeD)

lemma npq_insert_all:
  assumes "npq_inv q" and "0 < npq_capacity q" and "finite A"
    and "map nb_key (npq_list q) = take (npq_capacity q) (sorted_list_of_set A)"
    and "\<forall>x \<in> set nbs. nb_num x" and "\<forall>a \<in> A \<union> nb_key ` set nbs. \<forall>b \<in> A \<union> nb_key ` set nbs. snd a = snd b \<longrightarrow> fst a = fst b"
  shows "\<exists>q'. rfold npq_insert nbs q = Inr q' \<and> npq_inv q' \<and> npq_capacity q' = npq_capacity q \<and>
    map nb_key (npq_list q') = take (npq_capacity q) (sorted_list_of_set (A \<union> nb_key ` set nbs)) \<and>
    set (npq_list q') \<subseteq> set (npq_list q) \<union> (\<lambda>x. nb_new (nb_id x) (nb_distance x)) ` set nbs"
  using assms
proof (induction nbs arbitrary: q A)
  case Nil
  then show ?case by simp
next
  case (Cons x nbs)
  have keys: "nb_key ` set (npq_list q) \<subseteq> A"
    using Cons.prems(3,4) by (metis in_set_takeD list.set_map set_sorted_list_of_set subsetI)
  have "\<forall>y \<in> set (npq_list q). nb_id y = nb_id x \<longrightarrow> nb_distance y = nb_distance x"
  proof (intro ballI impI)
    fix y assume y: "y \<in> set (npq_list q)" "nb_id y = nb_id x"
    then have "nb_key y \<in> A" using keys by blast
    moreover have "snd (nb_key y) = snd (nb_key x)" using y(2) by (simp add: nb_key_def)
    ultimately have "fst (nb_key y) = fst (nb_key x)"
      using Cons.prems(6) by (metis UnCI image_eqI list.set_intros(1))
    then show "nb_distance y = nb_distance x" by (simp add: nb_key_def)
  qed
  then obtain q1 where q1: "npq_insert x q = Inr q1" "npq_inv q1"
    "npq_list q1 = list_insert (npq_capacity q) x (npq_list q)" "npq_capacity q1 = npq_capacity q"
    using npq_insert_spec [OF Cons.prems(1,2), of x] Cons.prems(5) by auto
  have "map nb_key (npq_list q1) = take (npq_capacity q1) (sorted_list_of_set (insert (nb_key x) A))"
    unfolding q1(3,4) using Cons.prems(1,3,4,5) by (intro list_insert_keys) (simp_all add: npq_inv_def)
  note keys1 = this
  have eq: "insert (nb_key x) A \<union> nb_key ` set nbs = A \<union> nb_key ` set (x # nbs)" by simp
  have "0 < npq_capacity q1" "finite (insert (nb_key x) A)" "\<forall>x \<in> set nbs. nb_num x"
    using Cons.prems(2,3,5) q1(4) by simp_all
  note IH = Cons.IH [OF q1(2) this(1,2) keys1 this(3), unfolded eq, OF Cons.prems(6)]
  obtain q' where q': "rfold npq_insert nbs q1 = Inr q'" "npq_inv q'" "npq_capacity q' = npq_capacity q1"
    "map nb_key (npq_list q') = take (npq_capacity q1) (sorted_list_of_set (A \<union> nb_key ` set (x # nbs)))"
    "set (npq_list q') \<subseteq> set (npq_list q1) \<union> (\<lambda>x. nb_new (nb_id x) (nb_distance x)) ` set nbs"
    using IH by blast
  have "set (npq_list q1) \<subseteq> insert (nb_new (nb_id x) (nb_distance x)) (set (npq_list q))"
    unfolding q1(3) by (rule set_list_insert)
  then have "set (npq_list q') \<subseteq> set (npq_list q) \<union> (\<lambda>x. nb_new (nb_id x) (nb_distance x)) ` set (x # nbs)"
    using q'(5) by auto
  then show ?case using q' unfolding q1(4) rfold.simps q1(1) rbind_simps by blast
qed

section \<open>Properties\<close>

text \<open>C18: The candidate list keeps the best and stays in its array. Inserting any sequence of candidates into
  an empty queue of positive capacity reads and writes inside the \<open>capacity + 1\<close> slots only, even when
  distances are NaN or differ for one id. When no distance is NaN and equal ids have equal distances, the
  queue then holds exactly the \<open>capacity\<close> smallest distinct candidates, in order.\<close>

theorem npq_holds_best:
  assumes "0 < cap"
  shows "\<exists>q. rfold npq_insert nbs (npq_reserve cap npq_new) = Inr q \<and>
    npq_size q \<le> cap \<and> length (npq_data q) = cap + 1 \<and>
    ((\<forall>x \<in> set nbs. nb_num x) \<and>
     (\<forall>a \<in> set nbs. \<forall>b \<in> set nbs. nb_id a = nb_id b \<longrightarrow> nb_distance a = nb_distance b) \<longrightarrow>
       npq_inv q \<and> map nb_key (npq_list q) = take cap (sorted_list_of_set (nb_key ` set nbs)))"
proof -
  let ?q0 = "npq_reserve cap npq_new"
  have q0: "npq_shape ?q0" "npq_capacity ?q0 = cap" "length (npq_data ?q0) = cap + 1"
    by (simp_all add: npq_shape_def npq_reserve_def npq_new_def)
  obtain q where q: "rfold npq_insert nbs ?q0 = Inr q" "npq_shape q" "npq_capacity q = cap"
    "length (npq_data q) = cap + 1"
    using npq_insert_all_safe [OF q0(1), of nbs] q0 assms by auto
  have "npq_inv q \<and> map nb_key (npq_list q) = take cap (sorted_list_of_set (nb_key ` set nbs))"
    if num: "\<forall>x \<in> set nbs. nb_num x"
      and fn: "\<forall>a \<in> set nbs. \<forall>b \<in> set nbs. nb_id a = nb_id b \<longrightarrow> nb_distance a = nb_distance b"
  proof -
    have "\<forall>a \<in> nb_key ` set nbs. \<forall>b \<in> nb_key ` set nbs. snd a = snd b \<longrightarrow> fst a = fst b"
      by (metis fn imageE fst_conv snd_conv nb_key_def)
    from npq_insert_all [OF npq_inv_fresh(1) [of cap], of "{}" nbs, unfolded npq_inv_fresh Un_empty_left,
        OF assms finite.emptyI _ num this] q(1)
    show ?thesis by auto
  qed
  moreover have "npq_size q \<le> cap" using q(2,3) by (simp add: npq_shape_def)
  ultimately show ?thesis using q(1,4) by blast
qed

theorem npq_holds_best_witness:
  "\<exists>q. rfold npq_insert [nb_new 4 (Fin 3), nb_new 7 (Fin 1), nb_new 9 (Fin 2), nb_new 7 (Fin 1)]
      (npq_reserve 2 npq_new) = Inr q \<and> map nb_key (npq_list q) = [(Fin 1, 7), (Fin 2, 9)]"
proof -
  let ?nbs = "[nb_new 4 (Fin 3), nb_new 7 (Fin 1), nb_new 9 (Fin 2), nb_new 7 (Fin 1)]"
  have "nb_key ` set ?nbs = {(Fin 1, 7), (Fin 2, 9), (Fin 3, 4)}" by (auto simp: nb_key_def nb_new_def)
  moreover have "sorted_list_of_set {(Fin 1, 7::nat), (Fin 2, 9), (Fin 3, 4)} = [(Fin 1, 7), (Fin 2, 9), (Fin 3, 4)]"
    by simp
  ultimately show ?thesis
    using npq_holds_best [of 2 ?nbs] by (fastforce simp: nb_num_def nb_new_def)
qed

text \<open>C20: The search expands in order. When a candidate is unexpanded, \<open>closest_unexpanded\<close> returns the
  smallest such candidate, marks it, changes nothing else, and leaves the cursor at the next one.\<close>

theorem npq_pops_closest:
  assumes "npq_inv q" and "npq_has_unexpanded_node q"
  shows "\<exists>nbr q'. npq_closest_unexpanded q = Inr (nbr, q') \<and> npq_inv q' \<and>
    npq_list q' = expand_at (npq_cur q) (npq_list q) \<and>
    nbr \<in> set (npq_list q') \<and> \<not> nb_expanded (npq_list q ! npq_cur q) \<and> nb_key nbr = nb_key (npq_list q ! npq_cur q) \<and>
    (\<forall>x \<in> set (npq_list q). nb_expanded x \<or> nb_key nbr \<le> nb_key x)"
proof -
  obtain nbr q' where q': "npq_closest_unexpanded q = Inr (nbr, q')" "npq_inv q'"
    "npq_list q' = expand_at (npq_cur q) (npq_list q)" "npq_cur q < npq_size q"
    "nbr = (npq_list q ! npq_cur q)\<lparr>nb_expanded := True\<rparr>" "\<not> nb_expanded (npq_list q ! npq_cur q)"
    "\<forall>i < npq_cur q. nb_expanded (npq_list q ! i)"
    using npq_closest_spec [OF assms] by metis
  have len: "length (npq_list q) = npq_size q" by (rule length_npq_list [OF assms(1)])
  have "nb_expanded x \<or> nb_key nbr \<le> nb_key x" if x: "x \<in> set (npq_list q)" for x
  proof -
    obtain i where i: "i < npq_size q" "x = npq_list q ! i" using x len by (metis in_set_conv_nth)
    consider "i < npq_cur q" | "i = npq_cur q" | "npq_cur q < i" by linarith
    then show ?thesis
    proof cases
      case 3
      then have "nb_less (npq_list q ! npq_cur q) x"
        using assms(1) i len sorted_wrt_nth_less [of nb_less "npq_list q" "npq_cur q" i] by (simp add: npq_inv_def)
      moreover have "nb_num x" "nb_num (npq_list q ! npq_cur q)"
        using assms(1) x len q'(4) by (simp_all add: npq_inv_def)
      ultimately have "nb_key (npq_list q ! npq_cur q) < nb_key x" by (simp add: nb_less_key key_less_prod)
      then show ?thesis using q'(5) by (simp add: less_imp_le)
    qed (use q'(5,7) i in simp_all)
  qed
  moreover have "nbr \<in> set (npq_list q')"
    using q'(3,4,5) len by (simp add: expand_at_def set_update_memI)
  ultimately show ?thesis using q' by auto
qed

theorem npq_pops_closest_witness:
  "\<exists>q nbr q'. rfold npq_insert [nb_new 4 (Fin 3), nb_new 7 (Fin 1)] (npq_reserve 2 npq_new) = Inr q \<and>
    npq_closest_unexpanded q = Inr (nbr, q') \<and> nb_id nbr = 7"
proof -
  let ?nbs = "[nb_new 4 (Fin 3), nb_new 7 (Fin 1)]"
  obtain q where q: "rfold npq_insert ?nbs (npq_reserve 2 npq_new) = Inr q"
    "q = \<lparr>npq_size = 2, npq_capacity = 2, npq_cur = 0,
       npq_data = [nb_new 7 (Fin 1), nb_new 4 (Fin 3), nb_zero]\<rparr>"
    by (simp add: npq_insert_def npq_reserve_def npq_new_def npq_position.simps shift_up_def nb_new_def
        arr_get_def arr_set_def arr_move_def nb_less_def fp_lt_def fp_eq_def numeral_2_eq_2)
  have "npq_inv q"
    by (simp add: q(2) npq_inv_def npq_list_def nb_new_def nb_less_def nb_num_def fp_lt_def numeral_2_eq_2)
  then obtain nbr q' where "npq_closest_unexpanded q = Inr (nbr, q')" "nb_key nbr = nb_key (npq_list q ! npq_cur q)"
    using npq_pops_closest [of q] by (auto simp: q(2) npq_has_unexpanded_node_def)
  then show ?thesis using q by (auto simp: nb_key_def npq_list_def nb_new_def)
qed

end
