(* ===== verification/NnContainers.thy ===== *)
theory NnContainers
  imports QvPrelude
begin

text \<open>
  The containers of slots and tags of a DiskANN index: \<open>natural_number_set\<close> and \<open>natural_number_map\<close> of
  \<open>external/DiskANN/src\<close>. Both keep a vector and a \<open>boost::dynamic_bitset\<close>; the bitset is a list of
  booleans that \<open>resize\<close> pads with zeros. Testing or setting a bit past the bitset's size is undefined.
\<close>

section \<open>Bitsets and vectors\<close>

definition bs_resize :: "nat \<Rightarrow> bool list \<Rightarrow> bool list" where
  "bs_resize n bs = take n bs @ replicate (n - length bs) False"

definition bs_test :: "bool list \<Rightarrow> nat \<Rightarrow> bool result" where
  "bs_test bs i = (if i < length bs then Inr (bs ! i) else Inl (Undefined ''bitset index out of range''))"

definition bs_has :: "bool list \<Rightarrow> nat \<Rightarrow> bool" where
  "bs_has bs i \<longleftrightarrow> i < length bs \<and> bs ! i"

lemma bs_has_resize: "length bs \<le> n \<Longrightarrow> bs_has (bs_resize n bs) i \<longleftrightarrow> bs_has bs i"
  by (auto simp: bs_has_def bs_resize_def nth_append)

lemma length_bs_resize [simp]: "length (bs_resize n bs) = n"
  by (simp add: bs_resize_def)

lemma bs_has_update: "i < length bs \<Longrightarrow> bs_has (bs[i := b]) j \<longleftrightarrow> (if j = i then b else bs_has bs j)"
  by (auto simp: bs_has_def)

lemma bs_has_Nil [simp]: "\<not> bs_has [] i"
  by (simp add: bs_has_def)

section \<open>\<open>natural_number_set\<close>\<close>

record nnset =
  nns_vector :: "nat list"
  nns_bits :: "bool list"

definition nns_new :: nnset where
  "nns_new = \<lparr>nns_vector = [], nns_bits = []\<rparr>"

definition nns_is_empty :: "nnset \<Rightarrow> bool" where
  "nns_is_empty s \<longleftrightarrow> nns_vector s = []"

definition nns_insert :: "nat \<Rightarrow> nnset \<Rightarrow> nnset" where
  "nns_insert i s =
     (let bits = (if i \<ge> length (nns_bits s) then bs_resize (i + 1) (nns_bits s) else nns_bits s)
      in \<lparr>nns_vector = nns_vector s @ [i], nns_bits = bits[i := True]\<rparr>)"

definition nns_pop_any :: "nnset \<Rightarrow> (nat \<times> nnset) result" where
  "nns_pop_any s =
     (if nns_vector s = [] then Inl (Throws ''No values available'')
      else let i = last (nns_vector s)
           in if i < length (nns_bits s)
              then Inr (i, \<lparr>nns_vector = butlast (nns_vector s), nns_bits = (nns_bits s)[i := False]\<rparr>)
              else Inl (Undefined ''bitset index out of range''))"

definition nns_clear :: "nnset \<Rightarrow> nnset" where
  "nns_clear s = \<lparr>nns_vector = [], nns_bits = []\<rparr>"

definition nns_size :: "nnset \<Rightarrow> nat" where
  "nns_size s = length (nns_vector s)"

definition nns_is_in_set :: "nnset \<Rightarrow> nat \<Rightarrow> bool result" where
  "nns_is_in_set s i = bs_test (nns_bits s) i"

text \<open>Vector and bitset agree, and no value is stored twice.\<close>

definition nns_inv :: "nnset \<Rightarrow> bool" where
  "nns_inv s \<longleftrightarrow> distinct (nns_vector s) \<and> (\<forall>i. bs_has (nns_bits s) i \<longleftrightarrow> i \<in> set (nns_vector s))"

abbreviation nns_set :: "nnset \<Rightarrow> nat set" where
  "nns_set s \<equiv> set (nns_vector s)"

lemma nns_inv_new [simp]: "nns_inv nns_new" "nns_set nns_new = {}" "nns_bits nns_new = []"
  by (simp_all add: nns_inv_def nns_new_def)

lemma nns_inv_clear [simp]: "nns_inv (nns_clear s)" "nns_set (nns_clear s) = {}" "nns_bits (nns_clear s) = []"
  by (simp_all add: nns_inv_def nns_clear_def)

lemma nns_size_card: "nns_inv s \<Longrightarrow> nns_size s = card (nns_set s)"
  by (simp add: nns_inv_def nns_size_def distinct_card)

lemma nns_insert_spec:
  assumes "nns_inv s" and "i \<notin> nns_set s"
  shows "nns_inv (nns_insert i s)" and "nns_set (nns_insert i s) = insert i (nns_set s)"
    and "length (nns_bits (nns_insert i s)) = max (length (nns_bits s)) (i + 1)"
proof -
  have "bs_has (nns_bits (nns_insert i s)) j \<longleftrightarrow> j = i \<or> bs_has (nns_bits s) j" for j
    by (cases "i < length (nns_bits s)") (simp_all add: nns_insert_def bs_has_update bs_has_resize)
  then show "nns_inv (nns_insert i s)"
    using assms by (auto simp: nns_inv_def) (auto simp: nns_insert_def)
qed (auto simp: nns_insert_def Let_def)

lemma nns_pop_any_spec:
  assumes "nns_inv s" and "nns_vector s \<noteq> []"
  obtains i s' where "nns_pop_any s = Inr (i, s')" and "i \<in> nns_set s" and "nns_set s' = nns_set s - {i}"
    and "nns_inv s'" and "length (nns_bits s') = length (nns_bits s)" and "i = last (nns_vector s)"
    and "nns_size s = Suc (nns_size s')" and "nns_insert i s' = s"
proof -
  let ?i = "last (nns_vector s)"
  let ?s = "\<lparr>nns_vector = butlast (nns_vector s), nns_bits = (nns_bits s)[?i := False]\<rparr>"
  have i: "?i \<in> nns_set s" using assms(2) by simp
  then have len: "?i < length (nns_bits s)" using assms(1) by (auto simp: nns_inv_def bs_has_def)
  have set: "nns_set ?s = nns_set s - {?i}"
    using set_butlast_distinct [OF _ assms(2)] assms(1) by (simp add: nns_inv_def)
  moreover have "nns_inv ?s"
    using assms set len by (simp add: nns_inv_def bs_has_update distinct_butlast)
  moreover have "nns_insert ?i ?s = s"
  proof -
    have "(nns_bits s)[?i := True] = nns_bits s"
      using assms(1) i by (intro list_update_same_conv [THEN iffD2]) (auto simp: nns_inv_def bs_has_def)
    then show ?thesis using len assms(2) by (simp add: nns_insert_def)
  qed
  ultimately show ?thesis
    using that [of ?i ?s] i len assms(2) by (simp add: nns_pop_any_def nns_size_def Let_def)
qed

lemma nns_is_in_set_spec:
  assumes "nns_inv s" and "i < length (nns_bits s)"
  shows "nns_is_in_set s i = Inr (i \<in> nns_set s)"
  using assms by (auto simp: nns_is_in_set_def bs_test_def nns_inv_def bs_has_def)

section \<open>\<open>natural_number_map\<close>\<close>

text \<open>A vector slot that was never written holds a default value.\<close>

record 'v nnmap =
  nnm_size :: nat
  nnm_vector :: "'v option list"
  nnm_bits :: "bool list"

definition nnm_new :: "'v nnmap" where
  "nnm_new = \<lparr>nnm_size = 0, nnm_vector = [], nnm_bits = []\<rparr>"

definition nnm_set :: "nat \<Rightarrow> 'v \<Rightarrow> 'v nnmap \<Rightarrow> 'v nnmap" where
  "nnm_set k v m =
     (let m1 = (if k \<ge> length (nnm_bits m)
                then m\<lparr>nnm_bits := bs_resize (k + 1) (nnm_bits m),
                       nnm_vector := take (k + 1) (nnm_vector m) @ replicate (k + 1 - length (nnm_vector m)) None\<rparr>
                else m);
          was_present = nnm_bits m1 ! k
      in m1\<lparr>nnm_vector := (nnm_vector m1)[k := Some v], nnm_bits := (nnm_bits m1)[k := True],
            nnm_size := (if was_present then nnm_size m1 else Suc (nnm_size m1))\<rparr>)"

definition nnm_erase :: "nat \<Rightarrow> 'v nnmap \<Rightarrow> 'v nnmap" where
  "nnm_erase k m =
     (if k < length (nnm_bits m)
      then m\<lparr>nnm_bits := (nnm_bits m)[k := False],
             nnm_size := (if nnm_bits m ! k then nnm_size m - 1 else nnm_size m)\<rparr>
      else m)"

definition nnm_contains :: "'v nnmap \<Rightarrow> nat \<Rightarrow> bool" where
  "nnm_contains m k \<longleftrightarrow> k < length (nnm_bits m) \<and> nnm_bits m ! k"

definition nnm_try_get :: "'v nnmap \<Rightarrow> nat \<Rightarrow> 'v option" where
  "nnm_try_get m k = (if nnm_contains m k then nnm_vector m ! k else None)"

definition nnm_clear :: "'v nnmap \<Rightarrow> 'v nnmap" where
  "nnm_clear m = \<lparr>nnm_size = 0, nnm_vector = [], nnm_bits = []\<rparr>"

text \<open>\<open>find_first\<close>, \<open>find_next\<close> and \<open>is_valid\<close>: a position is a key, or \<open>npos\<close>, and a count of keys seen.\<close>

fun bs_find_from :: "nat \<Rightarrow> bool list \<Rightarrow> nat option" where
  "bs_find_from i [] = None"
| "bs_find_from i (b # bs) = (if b then Some i else bs_find_from (Suc i) bs)"

definition nnm_find_first :: "'v nnmap \<Rightarrow> nat option \<times> nat" where
  "nnm_find_first m = (if nnm_size m > 0 then bs_find_from 0 (nnm_bits m) else None, 0)"

definition nnm_find_next :: "'v nnmap \<Rightarrow> nat option \<times> nat \<Rightarrow> nat option \<times> nat" where
  "nnm_find_next m pos =
     (case pos of
        (None, c) \<Rightarrow> (None, c + 1)
      | (Some k, c) \<Rightarrow>
          (if c < nnm_size m then bs_find_from (k + 1) (drop (k + 1) (nnm_bits m)) else None, c + 1))"

text \<open>\<open>size\<close> counts the set bits, and every set bit has a value.\<close>

definition nnm_inv :: "'v nnmap \<Rightarrow> bool" where
  "nnm_inv m \<longleftrightarrow> length (nnm_vector m) = length (nnm_bits m) \<and>
     nnm_size m = card {i. bs_has (nnm_bits m) i} \<and>
     (\<forall>i. bs_has (nnm_bits m) i \<longrightarrow> nnm_vector m ! i \<noteq> None)"

lemma bs_finite [simp]: "finite {i. bs_has bs i}"
  by (rule finite_subset [of _ "{..<length bs}"]) (auto simp: bs_has_def)

lemma nnm_contains_iff: "nnm_inv m \<Longrightarrow> nnm_contains m k \<longleftrightarrow> nnm_try_get m k \<noteq> None"
  by (auto simp: nnm_inv_def nnm_contains_def nnm_try_get_def bs_has_def)

lemma nnm_dom: "nnm_inv m \<Longrightarrow> dom (nnm_try_get m) = {i. bs_has (nnm_bits m) i}"
  by (auto simp: nnm_inv_def nnm_contains_def nnm_try_get_def bs_has_def dom_def)

lemma nnm_size_dom: "nnm_inv m \<Longrightarrow> nnm_size m = card (dom (nnm_try_get m))"
  by (simp add: nnm_dom) (simp add: nnm_inv_def)

lemma nnm_inv_new [simp]: "nnm_inv nnm_new" "nnm_try_get nnm_new = Map.empty"
  by (auto simp: nnm_inv_def nnm_new_def nnm_try_get_def nnm_contains_def)

lemma nnm_inv_clear [simp]: "nnm_inv (nnm_clear m)" "nnm_try_get (nnm_clear m) = Map.empty"
  by (auto simp: nnm_inv_def nnm_clear_def nnm_try_get_def nnm_contains_def)

lemma nnm_set_bits: "bs_has (nnm_bits (nnm_set k v m)) i \<longleftrightarrow> i = k \<or> bs_has (nnm_bits m) i"
  by (cases "k < length (nnm_bits m)") (auto simp: nnm_set_def bs_has_update bs_has_resize Let_def)

lemma nnm_set_vector:
  assumes "nnm_inv m"
  shows "length (nnm_vector (nnm_set k v m)) = length (nnm_bits (nnm_set k v m))"
    and "nnm_vector (nnm_set k v m) ! k = Some v"
    and "bs_has (nnm_bits m) i \<Longrightarrow> i \<noteq> k \<Longrightarrow> nnm_vector (nnm_set k v m) ! i = nnm_vector m ! i"
  using assms by (auto simp: nnm_inv_def nnm_set_def Let_def bs_has_def nth_append)

lemma nnm_set_spec:
  assumes "nnm_inv m"
  shows "nnm_inv (nnm_set k v m)" and "nnm_try_get (nnm_set k v m) = (nnm_try_get m)(k \<mapsto> v)"
proof -
  have bits: "{i. bs_has (nnm_bits (nnm_set k v m)) i} = insert k {i. bs_has (nnm_bits m) i}"
    by (auto simp: nnm_set_bits)
  have was: "(if k < length (nnm_bits m) then nnm_bits m ! k else False) \<longleftrightarrow> bs_has (nnm_bits m) k"
    by (simp add: bs_has_def)
  have size: "nnm_size (nnm_set k v m) = (if bs_has (nnm_bits m) k then nnm_size m else Suc (nnm_size m))"
    by (auto simp: nnm_set_def Let_def bs_has_def bs_resize_def nth_append)
  show inv: "nnm_inv (nnm_set k v m)"
    unfolding nnm_inv_def bits size
  proof (intro conjI allI impI)
    show "(if bs_has (nnm_bits m) k then nnm_size m else Suc (nnm_size m)) =
        card (insert k {i. bs_has (nnm_bits m) i})"
      using assms by (auto simp: nnm_inv_def insert_absorb)
    show "nnm_vector (nnm_set k v m) ! i \<noteq> None" if "bs_has (nnm_bits (nnm_set k v m)) i" for i
      using that assms nnm_set_vector [OF assms] by (cases "i = k") (auto simp: nnm_set_bits nnm_inv_def)
  qed (rule nnm_set_vector [OF assms])
  show "nnm_try_get (nnm_set k v m) = (nnm_try_get m)(k \<mapsto> v)"
  proof
    fix i
    have c: "nnm_contains (nnm_set k v m) i \<longleftrightarrow> i = k \<or> nnm_contains m i"
      using nnm_set_bits [of k v m i] by (simp add: nnm_contains_def bs_has_def)
    show "nnm_try_get (nnm_set k v m) i = ((nnm_try_get m)(k \<mapsto> v)) i"
      using nnm_set_vector [OF assms] c
      by (cases "i = k") (auto simp: nnm_try_get_def nnm_contains_def bs_has_def)
  qed
qed

lemma nnm_erase_spec:
  assumes "nnm_inv m"
  shows "nnm_inv (nnm_erase k m)" and "nnm_try_get (nnm_erase k m) = (nnm_try_get m)(k := None)"
proof -
  have bits: "bs_has (nnm_bits (nnm_erase k m)) i \<longleftrightarrow> i \<noteq> k \<and> bs_has (nnm_bits m) i" for i
    by (auto simp: nnm_erase_def bs_has_def nth_list_update)
  then have set: "{i. bs_has (nnm_bits (nnm_erase k m)) i} = {i. bs_has (nnm_bits m) i} - {k}" by auto
  have size: "nnm_size (nnm_erase k m) = (if bs_has (nnm_bits m) k then nnm_size m - 1 else nnm_size m)"
    by (auto simp: nnm_erase_def bs_has_def)
  show "nnm_inv (nnm_erase k m)"
    unfolding nnm_inv_def set size
  proof (intro conjI allI impI)
    show "(if bs_has (nnm_bits m) k then nnm_size m - 1 else nnm_size m) = card ({i. bs_has (nnm_bits m) i} - {k})"
      using assms by (auto simp: nnm_inv_def)
    show "nnm_vector (nnm_erase k m) ! i \<noteq> None" if "bs_has (nnm_bits (nnm_erase k m)) i" for i
      using that assms unfolding bits by (auto simp: nnm_inv_def nnm_erase_def)
    show "length (nnm_vector (nnm_erase k m)) = length (nnm_bits (nnm_erase k m))"
      using assms by (simp add: nnm_inv_def nnm_erase_def)
  qed
  show "nnm_try_get (nnm_erase k m) = (nnm_try_get m)(k := None)"
    by (auto simp: fun_eq_iff nnm_try_get_def nnm_contains_def nnm_erase_def)
qed

section \<open>The next set bit\<close>

lemma bs_find_from_shift: "bs_find_from (Suc i) bs = map_option Suc (bs_find_from i bs)"
  by (induction bs arbitrary: i) auto

lemma bs_find_filter:
  "bs_find_from k (drop k bs) =
    (case filter (bs_has bs) [k..<length bs] of [] \<Rightarrow> None | j # _ \<Rightarrow> Some j)"
proof (induction "length bs - k" arbitrary: k)
  case 0
  then show ?case by simp
next
  case (Suc d)
  then have k: "k < length bs" "d = length bs - Suc k" by simp_all
  have "drop k bs = bs ! k # drop (Suc k) bs" "[k..<length bs] = k # [Suc k..<length bs]"
    using k(1) by (simp_all add: Cons_nth_drop_Suc upt_conv_Cons)
  moreover have "bs_has bs k \<longleftrightarrow> bs ! k" using k(1) by (simp add: bs_has_def)
  ultimately show ?case using Suc.hyps(1) [OF k(2)] by simp
qed

end
