(* ===== verification/GraphStore.thy ===== *)
theory GraphStore
  imports NeighborQueue NnContainers
begin

text \<open>
  The two stores behind a DiskANN index: the adjacency lists (\<open>in_mem_graph_store.cpp\<close>) and the vectors
  (\<open>in_mem_data_store.cpp\<close>). A vector is an abstract value: the arithmetic on it (the distance
  function, the preprocessing of base points) sits behind the \<open>Distance\<close> object of the data store and is
  a parameter. Accesses out of range are faults: \<open>at\<close> throws, the others are undefined.
\<close>

section \<open>Adjacency lists\<close>

record graph_store =
  gs_graph :: "nat list list"
  gs_max_degree :: nat

definition gs_get_neighbours :: "graph_store \<Rightarrow> nat \<Rightarrow> nat list result" where
  "gs_get_neighbours g i =
     (if i < length (gs_graph g) then Inr (gs_graph g ! i) else Inl (Throws ''vector::at''))"

definition gs_update :: "nat \<Rightarrow> nat list \<Rightarrow> graph_store \<Rightarrow> graph_store result" where
  "gs_update i ns g =
     (if i < length (gs_graph g) then Inr (g\<lparr>gs_graph := (gs_graph g)[i := ns]\<rparr>)
      else Inl (Undefined ''_graph[i] out of range''))"

definition gs_observe :: "nat \<Rightarrow> graph_store \<Rightarrow> graph_store" where
  "gs_observe d g = (if gs_max_degree g < d then g\<lparr>gs_max_degree := d\<rparr> else g)"

definition gs_add_neighbour :: "nat \<Rightarrow> nat \<Rightarrow> graph_store \<Rightarrow> graph_store result" where
  "gs_add_neighbour i j g =
     rbind (gs_update i (gs_graph g ! i @ [j]) g) (\<lambda>g1. Inr (gs_observe (length (gs_graph g1 ! i)) g1))"

definition gs_clear_neighbours :: "nat \<Rightarrow> graph_store \<Rightarrow> graph_store result" where
  "gs_clear_neighbours i g = gs_update i [] g"

definition gs_swap_neighbours :: "nat \<Rightarrow> nat \<Rightarrow> graph_store \<Rightarrow> graph_store result" where
  "gs_swap_neighbours a b g =
     rbind (gs_update a (gs_graph g ! b) g) (\<lambda>g1. gs_update b (gs_graph g ! a) g1)"

definition gs_set_neighbours :: "nat \<Rightarrow> nat list \<Rightarrow> graph_store \<Rightarrow> graph_store result" where
  "gs_set_neighbours i ns g = rbind (gs_update i ns g) (\<lambda>g1. Inr (gs_observe (length ns) g1))"

abbreviation adj :: "graph_store \<Rightarrow> nat \<Rightarrow> nat list" where
  "adj g i \<equiv> gs_graph g ! i"

abbreviation gs_len :: "graph_store \<Rightarrow> nat" where
  "gs_len g \<equiv> length (gs_graph g)"

lemma gs_observe_graph [simp]: "gs_graph (gs_observe d g) = gs_graph g"
  by (simp add: gs_observe_def)

lemma gs_get_Inr [simp]: "i < gs_len g \<Longrightarrow> gs_get_neighbours g i = Inr (adj g i)"
  by (simp add: gs_get_neighbours_def)

lemma gs_ops_Inr:
  assumes "i < gs_len g"
  shows "\<exists>g'. gs_set_neighbours i ns g = Inr g' \<and> gs_graph g' = (gs_graph g)[i := ns]"
    and "\<exists>g'. gs_add_neighbour i j g = Inr g' \<and> gs_graph g' = (gs_graph g)[i := adj g i @ [j]]"
    and "\<exists>g'. gs_clear_neighbours i g = Inr g' \<and> gs_graph g' = (gs_graph g)[i := []]"
  using assms by (auto simp: gs_set_neighbours_def gs_add_neighbour_def gs_clear_neighbours_def gs_update_def)

lemma gs_swap_Inr:
  assumes "a < gs_len g" and "b < gs_len g"
  shows "\<exists>g'. gs_swap_neighbours a b g = Inr g' \<and> gs_graph g' = (gs_graph g)[a := adj g b, b := adj g a]"
  using assms by (auto simp: gs_swap_neighbours_def gs_update_def)

section \<open>Vectors\<close>

text \<open>The distance object: \<open>compare\<close>, \<open>preprocess_base_points\<close>, and the all-zero vector of \<open>memset\<close>.\<close>

record 'v space =
  sp_dist :: "'v \<Rightarrow> 'v \<Rightarrow> fp"
  sp_prep :: "'v \<Rightarrow> 'v"
  sp_zero :: 'v

definition ds_get :: "'v list \<Rightarrow> nat \<Rightarrow> 'v result" where
  "ds_get data i = (if i < length data then Inr (data ! i) else Inl (Undefined ''_data out of range''))"

definition ds_set_vector :: "'v space \<Rightarrow> nat \<Rightarrow> 'v \<Rightarrow> 'v list \<Rightarrow> 'v list result" where
  "ds_set_vector sp loc v data =
     (if loc < length data then Inr (data[loc := sp_prep sp v]) else Inl (Undefined ''_data out of range''))"

definition ds_query_distance :: "'v space \<Rightarrow> 'v list \<Rightarrow> 'v \<Rightarrow> nat \<Rightarrow> fp result" where
  "ds_query_distance sp data query loc = rbind (ds_get data loc) (\<lambda>v. Inr (sp_dist sp query v))"

definition ds_distance :: "'v space \<Rightarrow> 'v list \<Rightarrow> nat \<Rightarrow> nat \<Rightarrow> fp result" where
  "ds_distance sp data loc1 loc2 =
     rbind (ds_get data loc1) (\<lambda>v1. rbind (ds_get data loc2) (\<lambda>v2. Inr (sp_dist sp v1 v2)))"

text \<open>\<open>copy_vectors\<close> of one vector.\<close>

definition ds_copy_vector :: "nat \<Rightarrow> nat \<Rightarrow> 'v list \<Rightarrow> 'v list result" where
  "ds_copy_vector from_loc to_loc data =
     rbind (ds_get data from_loc) (\<lambda>v.
       if to_loc < length data then Inr (data[to_loc := v]) else Inl (Undefined ''_data out of range''))"

lemma ds_simps [simp]:
  "i < length data \<Longrightarrow> ds_get data i = Inr (data ! i)"
  "i < length data \<Longrightarrow> ds_query_distance sp data query i = Inr (sp_dist sp query (data ! i))"
  "i < length data \<Longrightarrow> j < length data \<Longrightarrow> ds_distance sp data i j = Inr (sp_dist sp (data ! i) (data ! j))"
  "i < length data \<Longrightarrow> ds_set_vector sp i v data = Inr (data[i := sp_prep sp v])"
  by (simp_all add: ds_get_def ds_query_distance_def ds_distance_def ds_set_vector_def)

section \<open>Visited nodes\<close>

text \<open>
  A search marks the nodes it has met in a bitset when the index is small enough, else in a hash set
  (\<open>fast_iterate\<close>). The bitset is sized for twice the index, up to the bound.
\<close>

definition MAX_POINTS_FOR_USING_BITSET :: int where
  "MAX_POINTS_FOR_USING_BITSET = 10000000"

datatype visited = Pool_bits "bool list" | Pool_hash "nat list"

definition visited_new :: "nat \<Rightarrow> visited" where
  "visited_new tot =
     (if int tot \<le> MAX_POINTS_FOR_USING_BITSET
      then Pool_bits (replicate (if 2 * int tot > MAX_POINTS_FOR_USING_BITSET
                                 then nat MAX_POINTS_FOR_USING_BITSET else 2 * tot) False)
      else Pool_hash [])"

fun is_not_visited :: "visited \<Rightarrow> nat \<Rightarrow> bool result" where
  "is_not_visited (Pool_bits bs) i = rbind (bs_test bs i) (\<lambda>b. Inr (\<not> b))"
| "is_not_visited (Pool_hash xs) i = Inr (i \<notin> set xs)"

fun mark_visited :: "nat \<Rightarrow> visited \<Rightarrow> visited result" where
  "mark_visited i (Pool_bits bs) =
     (if i < length bs then Inr (Pool_bits (bs[i := True])) else Inl (Undefined ''bitset index out of range''))"
| "mark_visited i (Pool_hash xs) = Inr (Pool_hash (List.insert i xs))"

fun visited_set :: "visited \<Rightarrow> nat set" where
  "visited_set (Pool_bits bs) = {i. bs_has bs i}"
| "visited_set (Pool_hash xs) = set xs"

fun visited_covers :: "nat \<Rightarrow> visited \<Rightarrow> bool" where
  "visited_covers tot (Pool_bits bs) \<longleftrightarrow> tot \<le> length bs"
| "visited_covers tot (Pool_hash xs) \<longleftrightarrow> True"

lemma visited_new_spec [simp]: "visited_set (visited_new tot) = {}" "visited_covers tot (visited_new tot)"
  by (auto simp: visited_new_def bs_has_def)

lemma is_not_visited_Inr:
  "visited_covers tot v \<Longrightarrow> i < tot \<Longrightarrow> is_not_visited v i = Inr (i \<notin> visited_set v)"
  by (cases v) (auto simp: bs_test_def bs_has_def)

lemma mark_visited_Inr:
  assumes "visited_covers tot v" and "i < tot"
  obtains v' where "mark_visited i v = Inr v'" and "visited_covers tot v'"
    and "visited_set v' = insert i (visited_set v)"
proof (cases v)
  case (Pool_bits bs)
  then have "{j. bs_has (bs[i := True]) j} = insert i {j. bs_has bs j}"
    using assms by (auto simp: bs_has_update)
  then show ?thesis using that [of "Pool_bits (bs[i := True])"] assms Pool_bits by simp
next
  case (Pool_hash xs)
  then show ?thesis using that [of "Pool_hash (List.insert i xs)"] by simp
qed

lemma mark_all_Inr:
  assumes "visited_covers tot v" and "\<forall>i \<in> set ids. i < tot"
  shows "\<exists>v'. rfold mark_visited ids v = Inr v' \<and> visited_covers tot v' \<and>
    visited_set v' = visited_set v \<union> set ids"
  using assms
proof (induction ids arbitrary: v)
  case (Cons i ids)
  from Cons.prems(2) have "i < tot" by simp
  from mark_visited_Inr [OF Cons.prems(1) this] obtain v1 where
    v1: "mark_visited i v = Inr v1" "visited_covers tot v1" "visited_set v1 = insert i (visited_set v)" .
  then show ?case using Cons.IH [OF v1(2)] Cons.prems(2) by auto
qed simp

end
