(* ===== verification/IndexState.thy ===== *)
theory IndexState
  imports GraphStore
begin

text \<open>
  The state of a DiskANN in-memory index (\<open>external/DiskANN/src/index.cpp\<close>, \<open>index_factory.cpp\<close>,
  \<open>index_config.h\<close>) and its slot bookkeeping: which locations are live, lazily deleted or empty, and the two
  maps between tags and locations. Locations below \<open>max_points\<close> hold points; the frozen points that
  searches start from follow them. Label filters and product quantisation are off in every index the cache
  builds and are not modelled. A location is a natural number (\<open>uint32_t\<close> in the code; an index has
  fewer than \<open>2^31\<close> points) and \<open>reserve_location\<close> returns \<open>None\<close> for -1.
\<close>

section \<open>Configuration\<close>

record write_params =
  wp_search_list_size :: nat
  wp_max_degree :: nat
  wp_max_occlusion_size :: nat
  wp_alpha :: fp
  wp_saturate_graph :: bool
  wp_num_threads :: nat

record search_params =
  sr_initial_search_list_size :: nat
  sr_num_search_threads :: nat

record index_config =
  cf_metric :: metric
  cf_dimension :: nat
  cf_max_points :: nat
  cf_num_frozen_pts :: nat
  cf_dynamic_index :: bool
  cf_enable_tags :: bool
  cf_pq_dist_build :: bool
  cf_concurrent_consolidate :: bool
  cf_write_params :: "write_params option"
  cf_search_params :: "search_params option"

text \<open>\<open>IndexConfigBuilder::build\<close>.\<close>

definition config_build :: "index_config \<Rightarrow> index_config result" where
  "config_build cf =
     (let cf1 = (if cf_dynamic_index cf \<and> cf_num_frozen_pts cf = 0 then cf\<lparr>cf_num_frozen_pts := 1\<rparr> else cf)
      in if cf_dynamic_index cf1 \<and>
            (case cf_search_params cf1 of None \<Rightarrow> False | Some sp \<Rightarrow> sr_initial_search_list_size sp = 0)
         then Inl (Throws ''Error: please pass initial_search_list_size for building dynamic index.'')
         else Inr cf1)"

text \<open>\<open>IndexFactory::check_config\<close>, without the type names.\<close>

definition check_config :: "index_config \<Rightarrow> unit result" where
  "check_config cf =
     (if cf_dynamic_index cf \<and> \<not> cf_enable_tags cf
      then Inl (Throws ''ERROR: Dynamic Indexing must have tags enabled.'')
      else if cf_pq_dist_build cf \<and> cf_dynamic_index cf
      then Inl (Throws ''ERROR: Dynamic Indexing not supported with PQ distance based index construction'')
      else if cf_pq_dist_build cf \<and> cf_metric cf = INNER_PRODUCT
      then Inl (Throws ''ERROR: Inner product metrics not yet supported with PQ distance base index'')
      else Inr ())"

section \<open>The index\<close>

record 'v vindex =
  vx_metric :: metric
  vx_max_points :: nat
  vx_num_frozen_pts :: nat
  vx_dynamic_index :: bool
  vx_enable_tags :: bool
  vx_conc_consolidate :: bool
  vx_start :: nat
  vx_nd :: nat
  vx_graph_store :: graph_store
  vx_data_store :: "'v list"
  vx_tag_to_location :: "(u32 \<times> nat) list"
  vx_location_to_tag :: "u32 nnmap"
  vx_delete_set :: "nat list"
  vx_empty_slots :: nnset
  vx_data_compacted :: bool
  vx_deletes_enabled :: bool
  vx_indexing_queue_size :: nat
  vx_indexing_range :: nat
  vx_indexing_maxc :: nat
  vx_indexing_alpha :: fp
  vx_saturate_graph :: bool

text \<open>\<open>for (slot = lo; slot < hi; ++slot) empty_slots.insert(slot)\<close>\<close>

definition insert_range :: "nat \<Rightarrow> nat \<Rightarrow> nnset \<Rightarrow> nnset" where
  "insert_range lo hi s = foldl (\<lambda>t i. nns_insert i t) s [lo..<hi]"

definition enable_delete :: "'v vindex \<Rightarrow> int \<times> 'v vindex" where
  "enable_delete ix =
     (if \<not> vx_enable_tags ix then (- 2, ix)
      else if vx_deletes_enabled ix then (0, ix)
      else let ix1 = (if vx_data_compacted ix
                      then ix\<lparr>vx_empty_slots := insert_range (vx_nd ix) (vx_max_points ix) (vx_empty_slots ix)\<rparr>
                      else ix)
           in (0, ix1\<lparr>vx_deletes_enabled := True\<rparr>))"

definition DEFAULT_MAXC :: nat where
  "DEFAULT_MAXC = 750"

text \<open>
  The constructor. The stores come from the factory; \<open>initialize_query_scratch\<close> throws on a zero parameter
  when at least one scratch space is wanted.
\<close>

definition index_ctor :: "index_config \<Rightarrow> 'v list \<Rightarrow> graph_store \<Rightarrow> 'v vindex result" where
  "index_ctor cf data graph =
     (if cf_dynamic_index cf \<and> \<not> cf_enable_tags cf
      then Inl (Throws ''ERROR: Dynamic Indexing must have tags enabled.'')
      else if cf_pq_dist_build cf \<and> cf_dynamic_index cf
      then Inl (Throws ''ERROR: Dynamic Indexing not supported with PQ distance based index construction'')
      else if cf_pq_dist_build cf \<and> cf_metric cf = INNER_PRODUCT
      then Inl (Throws ''ERROR: Inner product metrics not yet supported with PQ distance base index'')
      else
        let frozen = (if cf_dynamic_index cf \<and> cf_num_frozen_pts cf = 0 then 1 else cf_num_frozen_pts cf);
            max_points = (if cf_max_points cf = 0 then 1 else cf_max_points cf);
            ix = \<lparr>vx_metric = cf_metric cf, vx_max_points = max_points, vx_num_frozen_pts = frozen,
                  vx_dynamic_index = cf_dynamic_index cf, vx_enable_tags = cf_enable_tags cf,
                  vx_conc_consolidate = cf_concurrent_consolidate cf, vx_start = max_points, vx_nd = 0,
                  vx_graph_store = graph, vx_data_store = data, vx_tag_to_location = [],
                  vx_location_to_tag = nnm_new, vx_delete_set = [], vx_empty_slots = nns_new,
                  vx_data_compacted = True, vx_deletes_enabled = False, vx_indexing_queue_size = 0,
                  vx_indexing_range = 0, vx_indexing_maxc = DEFAULT_MAXC, vx_indexing_alpha = Fin 1,
                  vx_saturate_graph = False\<rparr>;
            ix1 = (if cf_dynamic_index cf then snd (enable_delete ix) else ix)
        in case cf_write_params cf of
             None \<Rightarrow> Inr ix1
           | Some wp \<Rightarrow>
               let ix2 = ix1\<lparr>vx_indexing_queue_size := wp_search_list_size wp,
                             vx_indexing_range := wp_max_degree wp,
                             vx_indexing_maxc := wp_max_occlusion_size wp,
                             vx_indexing_alpha := wp_alpha wp,
                             vx_saturate_graph := wp_saturate_graph wp\<rparr>
               in case cf_search_params cf of
                    None \<Rightarrow> Inr ix2
                  | Some sp \<Rightarrow>
                      if sr_num_search_threads sp + wp_num_threads wp > 0 \<and>
                         (sr_initial_search_list_size sp = 0 \<or> wp_search_list_size wp = 0 \<or>
                          wp_max_degree wp = 0 \<or> cf_dimension cf = 0)
                      then Inl (Throws ''In InMemQueryScratch, a parameter is zero.'')
                      else Inr ix2)"

text \<open>
  \<open>IndexFactory::create_instance\<close>: vectors for \<open>max_points + num_frozen_pts\<close> points, adjacency lists for
  \<open>num_frozen_pts\<close> more.
\<close>

definition create_instance :: "'v space \<Rightarrow> index_config \<Rightarrow> 'v vindex result" where
  "create_instance sp cf =
     rbind (check_config cf) (\<lambda>u.
       let num_points = cf_max_points cf + cf_num_frozen_pts cf
       in index_ctor cf (replicate num_points (sp_zero sp))
            \<lparr>gs_graph = replicate (num_points + cf_num_frozen_pts cf) [], gs_max_degree = 0\<rparr>)"

text \<open>\<open>set_start_points\<close>: \<open>points\<close> are the vectors, one for each frozen point.\<close>

definition set_start_points :: "'v space \<Rightarrow> 'v list \<Rightarrow> 'v vindex \<Rightarrow> 'v vindex result" where
  "set_start_points sp points ix =
     (if vx_nd ix > 0 then Inl (Throws ''Can not set starting point for a non-empty index'')
      else if length points \<noteq> vx_num_frozen_pts ix then Inl (Throws ''Invalid number of points'')
      else rbind (rfold (\<lambda>i data. ds_set_vector sp (i + vx_max_points ix) (points ! i) data)
                    [0..<vx_num_frozen_pts ix] (vx_data_store ix))
             (\<lambda>data. Inr (ix\<lparr>vx_data_store := data\<rparr>)))"

definition get_init_ids :: "'v vindex \<Rightarrow> nat list" where
  "get_init_ids ix =
     vx_start ix # filter (\<lambda>frozen. frozen \<noteq> vx_start ix)
                     [vx_max_points ix..<vx_max_points ix + vx_num_frozen_pts ix]"

section \<open>Slots\<close>

definition reserve_location :: "'v vindex \<Rightarrow> (nat option \<times> 'v vindex) result" where
  "reserve_location ix =
     (if vx_nd ix \<ge> vx_max_points ix then Inr (None, ix)
      else if vx_data_compacted ix \<and> nns_is_empty (vx_empty_slots ix)
      then Inr (Some (vx_nd ix), ix\<lparr>vx_nd := vx_nd ix + 1\<rparr>)
      else rbind (nns_pop_any (vx_empty_slots ix)) (\<lambda>(location, empty).
             Inr (Some location,
                  ix\<lparr>vx_empty_slots := empty, vx_delete_set := removeAll location (vx_delete_set ix),
                     vx_nd := vx_nd ix + 1\<rparr>)))"

definition release_location :: "nat \<Rightarrow> 'v vindex \<Rightarrow> 'v vindex result" where
  "release_location location ix =
     rbind (nns_is_in_set (vx_empty_slots ix) location) (\<lambda>present.
       if present then Inl (Throws ''Trying to release location, but location already in empty slots'')
       else Inr (ix\<lparr>vx_empty_slots := nns_insert location (vx_empty_slots ix), vx_nd := vx_nd ix - 1\<rparr>))"

text \<open>\<open>locations\<close> lists the hash set in its iteration order.\<close>

definition release_locations :: "nat list \<Rightarrow> 'v vindex \<Rightarrow> (nat \<times> 'v vindex) result" where
  "release_locations locations ix =
     rbind (rfold release_location locations ix) (\<lambda>ix1.
       if nns_size (vx_empty_slots ix1) + vx_nd ix1 \<noteq> vx_max_points ix1
       then Inl (Throws ''#empty slots + nd != max points'')
       else Inr (vx_nd ix1, ix1))"

definition delete_tag :: "u32 \<Rightarrow> nat \<Rightarrow> 'v vindex \<Rightarrow> 'v vindex" where
  "delete_tag tag location ix =
     ix\<lparr>vx_delete_set := List.insert location (vx_delete_set ix),
        vx_location_to_tag := nnm_erase location (vx_location_to_tag ix),
        vx_tag_to_location := um_erase tag (vx_tag_to_location ix)\<rparr>"

definition lazy_delete :: "u32 \<Rightarrow> 'v vindex \<Rightarrow> int \<times> 'v vindex" where
  "lazy_delete tag ix =
     (let ix1 = ix\<lparr>vx_data_compacted := False\<rparr>
      in case map_of (vx_tag_to_location ix1) tag of
           None \<Rightarrow> (- 1, ix1)
         | Some location \<Rightarrow> (0, delete_tag tag location ix1))"

definition lazy_delete_each :: "u32 \<Rightarrow> u32 list \<times> 'v vindex \<Rightarrow> u32 list \<times> 'v vindex" where
  "lazy_delete_each tag st =
     (case map_of (vx_tag_to_location (snd st)) tag of
        None \<Rightarrow> (fst st @ [tag], snd st)
      | Some location \<Rightarrow> (fst st, delete_tag tag location (snd st)))"

definition lazy_delete_all :: "u32 list \<Rightarrow> u32 list \<Rightarrow> 'v vindex \<Rightarrow> (u32 list \<times> 'v vindex) result" where
  "lazy_delete_all tags failed ix =
     (if failed \<noteq> [] then Inl (Throws ''failed_tags should be passed as an empty list'')
      else Inr (fold lazy_delete_each tags (failed, ix\<lparr>vx_data_compacted := False\<rparr>)))"

definition get_number_of_active_vectors :: "'v vindex \<Rightarrow> nat" where
  "get_number_of_active_vectors ix = length (vx_tag_to_location ix)"

definition get_number_of_lazy_deleted_points :: "'v vindex \<Rightarrow> nat" where
  "get_number_of_lazy_deleted_points ix = length (vx_delete_set ix)"

definition get_max_points :: "'v vindex \<Rightarrow> nat" where
  "get_max_points ix = vx_max_points ix"

definition get_active_tags :: "'v vindex \<Rightarrow> u32 list" where
  "get_active_tags ix = map fst (vx_tag_to_location ix)"

section \<open>The slot invariant\<close>

text \<open>
  Every location below \<open>max_points\<close> is live, lazily deleted, pending (reserved by an insertion that has not
  recorded its tag yet, or taken out of the delete set by a running consolidation) or empty. The tag maps
  are inverse to each other, no point has tag 0, and \<open>nd\<close> counts the locations that are not empty.
\<close>

abbreviation tag_at :: "'v vindex \<Rightarrow> nat \<Rightarrow> u32 option" where
  "tag_at ix \<equiv> nnm_try_get (vx_location_to_tag ix)"

abbreviation live :: "'v vindex \<Rightarrow> nat set" where
  "live ix \<equiv> dom (tag_at ix)"

abbreviation empty_set :: "'v vindex \<Rightarrow> nat set" where
  "empty_set ix \<equiv> nns_set (vx_empty_slots ix)"

definition slot_partition :: "nat set \<Rightarrow> 'v vindex \<Rightarrow> bool" where
  "slot_partition P ix \<longleftrightarrow> part4 (live ix) (set (vx_delete_set ix)) P (empty_set ix) {0..<vx_max_points ix}"

definition tags_inverse :: "'v vindex \<Rightarrow> bool" where
  "tags_inverse ix \<longleftrightarrow>
     (\<forall>tag loc. map_of (vx_tag_to_location ix) tag = Some loc \<longleftrightarrow> tag_at ix loc = Some tag)"

definition slot_inv :: "nat set \<Rightarrow> 'v vindex \<Rightarrow> bool" where
  "slot_inv P ix \<longleftrightarrow> slot_partition P ix \<and> tags_inverse ix \<and>
     nns_inv (vx_empty_slots ix) \<and> vx_max_points ix \<le> length (nns_bits (vx_empty_slots ix)) \<and>
     nnm_inv (vx_location_to_tag ix) \<and> distinct (map fst (vx_tag_to_location ix)) \<and>
     0 \<notin> set (map fst (vx_tag_to_location ix)) \<and> distinct (vx_delete_set ix) \<and>
     vx_nd ix = card (live ix) + length (vx_delete_set ix) + card P"

lemma slot_invD:
  assumes "slot_inv P ix"
  shows "slot_partition P ix" and "tags_inverse ix" and "nns_inv (vx_empty_slots ix)"
    and "vx_max_points ix \<le> length (nns_bits (vx_empty_slots ix))"
    and "nnm_inv (vx_location_to_tag ix)" and "distinct (map fst (vx_tag_to_location ix))"
    and "0 \<notin> set (map fst (vx_tag_to_location ix))" and "distinct (vx_delete_set ix)"
    and "vx_nd ix = card (live ix) + length (vx_delete_set ix) + card P"
  using assms unfolding slot_inv_def by blast+

lemma slot_part: "slot_inv P ix \<Longrightarrow> part4 (live ix) (set (vx_delete_set ix)) P (empty_set ix) {0..<vx_max_points ix}"
  using slot_invD(1) by (simp add: slot_partition_def)

lemma slot_finite:
  assumes "slot_inv P ix"
  shows "finite (live ix)" and "finite P"
  by (rule card_part4(2) [OF slot_part [OF assms] finite_atLeastLessThan],
      rule card_part4(4) [OF slot_part [OF assms] finite_atLeastLessThan])

lemma slot_counts:
  assumes "slot_inv P ix"
  shows "nns_size (vx_empty_slots ix) + vx_nd ix = vx_max_points ix"
  using card_part4(1) [OF slot_part [OF assms] finite_atLeastLessThan] slot_invD(9) [OF assms]
    nns_size_card [OF slot_invD(3) [OF assms]] distinct_card [OF slot_invD(8) [OF assms]]
  by (simp only: card_atLeastLessThan)

lemma live_card:
  assumes "tags_inverse ix" and "distinct (map fst (vx_tag_to_location ix))"
  shows "live ix = snd ` set (vx_tag_to_location ix)" and "length (vx_tag_to_location ix) = card (live ix)"
proof -
  let ?m = "vx_tag_to_location ix"
  have mem: "(t, l) \<in> set ?m \<longleftrightarrow> tag_at ix l = Some t" for t l
    using assms map_of_eq_Some_iff [OF assms(2)] unfolding tags_inverse_def by metis
  show live: "live ix = snd ` set ?m"
    using mem by (force simp: dom_def image_iff)
  have "inj_on snd (set ?m)"
    using mem by (intro inj_onI) (metis option.inject prod.collapse)
  then have "card (snd ` set ?m) = card (set ?m)" by (rule card_image)
  then show "length ?m = card (live ix)"
    using live assms(2) distinct_card [of ?m] by (simp add: distinct_map)
qed

lemma active_count:
  "slot_inv P ix \<Longrightarrow> get_number_of_active_vectors ix = card (live ix)"
  by (simp add: get_number_of_active_vectors_def slot_inv_def live_card)

section \<open>What the operations keep\<close>

lemma insert_range_spec:
  assumes "nns_inv s" and "\<forall>i \<in> {lo..<hi}. i \<notin> nns_set s"
  shows "nns_inv (insert_range lo hi s)" and "nns_set (insert_range lo hi s) = nns_set s \<union> {lo..<hi}"
    and "lo < hi \<Longrightarrow> hi \<le> length (nns_bits (insert_range lo hi s))"
proof -
  have "nns_inv (insert_range lo hi s) \<and> nns_set (insert_range lo hi s) = nns_set s \<union> {lo..<hi} \<and>
      (lo < hi \<longrightarrow> hi \<le> length (nns_bits (insert_range lo hi s)))"
    using assms(2)
  proof (induction hi)
    case 0
    then show ?case using assms(1) by (simp add: insert_range_def)
  next
    case (Suc hi)
    show ?case
    proof (cases "lo \<le> hi")
      case True
      let ?t = "insert_range lo hi s"
      have step: "insert_range lo (Suc hi) s = nns_insert hi ?t"
        using True by (simp add: insert_range_def)
      have IH: "nns_inv ?t" "nns_set ?t = nns_set s \<union> {lo..<hi}" using Suc by auto
      have "hi \<notin> nns_set ?t" using IH(2) Suc.prems True by simp
      note ins = nns_insert_spec [OF IH(1) this]
      show ?thesis unfolding step using ins IH(2) True by auto
    qed (use assms(1) in \<open>simp add: insert_range_def\<close>)
  qed
  then show "nns_inv (insert_range lo hi s)" "nns_set (insert_range lo hi s) = nns_set s \<union> {lo..<hi}"
    "lo < hi \<Longrightarrow> hi \<le> length (nns_bits (insert_range lo hi s))" by blast+
qed

lemma reserve_location_spec:
  assumes "slot_inv P ix" and "vx_nd ix < vx_max_points ix"
  obtains loc empty where "loc \<in> empty_set ix" and "loc \<notin> P" and "loc < vx_max_points ix"
    and "reserve_location ix = Inr (Some loc, ix\<lparr>vx_empty_slots := empty, vx_nd := vx_nd ix + 1\<rparr>)"
    and "slot_inv (insert loc P) (ix\<lparr>vx_empty_slots := empty, vx_nd := vx_nd ix + 1\<rparr>)"
    and "nns_set empty = empty_set ix - {loc}" and "nns_insert loc empty = vx_empty_slots ix"
proof -
  note inv = slot_invD [OF assms(1)]
  have "vx_empty_slots ix \<noteq> nns_new \<and> nns_vector (vx_empty_slots ix) \<noteq> []"
    using slot_counts [OF assms(1)] assms(2) by (auto simp: nns_size_def nns_new_def)
  then have ne: "nns_vector (vx_empty_slots ix) \<noteq> []" by blast
  obtain loc empty where pop: "nns_pop_any (vx_empty_slots ix) = Inr (loc, empty)" "loc \<in> empty_set ix"
    "nns_set empty = empty_set ix - {loc}" "nns_inv empty" "length (nns_bits empty) = length (nns_bits (vx_empty_slots ix))"
    "nns_insert loc empty = vx_empty_slots ix"
    by (rule nns_pop_any_spec [OF inv(3) ne])
  have part: "loc \<notin> live ix" "loc \<notin> set (vx_delete_set ix)" "loc \<notin> P" "loc < vx_max_points ix"
    using part4_D(1) [OF slot_part [OF assms(1)] pop(2)] by simp_all
  let ?ix = "ix\<lparr>vx_empty_slots := empty, vx_nd := vx_nd ix + 1\<rparr>"
  have "removeAll loc (vx_delete_set ix) = vx_delete_set ix" using part(2) by simp
  then have "reserve_location ix = Inr (Some loc, ?ix)"
    using assms(2) ne pop(1) by (simp add: reserve_location_def nns_is_empty_def)
  moreover have "slot_partition (insert loc P) ?ix"
    using part4_moves(1) [OF slot_part [OF assms(1)] pop(2)] pop(3) by (simp add: slot_partition_def)
  moreover have "finite P" by (rule slot_finite [OF assms(1)])
  ultimately show ?thesis
    using that [of loc empty] pop part inv(2-9) by (simp add: slot_inv_def tags_inverse_def)
qed

lemma release_location_spec:
  assumes "slot_inv (insert loc P) ix" and "loc \<notin> P"
  obtains empty where "release_location loc ix = Inr (ix\<lparr>vx_empty_slots := empty, vx_nd := vx_nd ix - 1\<rparr>)"
    and "slot_inv P (ix\<lparr>vx_empty_slots := empty, vx_nd := vx_nd ix - 1\<rparr>)"
    and "nns_set empty = insert loc (empty_set ix)" and "0 < vx_nd ix"
    and "empty = nns_insert loc (vx_empty_slots ix)"
proof -
  note inv = slot_invD [OF assms(1)]
  let ?e = "nns_insert loc (vx_empty_slots ix)" and ?ix = "ix\<lparr>vx_empty_slots := nns_insert loc (vx_empty_slots ix), vx_nd := vx_nd ix - 1\<rparr>"
  have loc: "loc \<notin> empty_set ix" "loc < vx_max_points ix"
    using part4_D(2) [OF slot_part [OF assms(1)], of loc] by simp_all
  note ins = nns_insert_spec [OF inv(3) loc(1)]
  have "finite P" using slot_finite(2) [OF assms(1)] by simp
  then have nd: "vx_nd ix = Suc (card (live ix) + length (vx_delete_set ix) + card P)"
    using inv(9) assms(2) by simp
  have "nns_is_in_set (vx_empty_slots ix) loc = Inr False"
    using nns_is_in_set_spec [OF inv(3)] inv(4) loc by simp
  then have "release_location loc ix = Inr ?ix" by (simp add: release_location_def)
  moreover have "slot_partition P ?ix"
    using part4_moves(2) [OF slot_part [OF assms(1)] assms(2)] ins(2) by (simp add: slot_partition_def)
  ultimately show ?thesis
    using that [of ?e] ins inv(2,4-8) nd by (simp add: slot_inv_def tags_inverse_def)
qed

text \<open>Recording the tag of a reserved location.\<close>

definition record_tag :: "u32 \<Rightarrow> nat \<Rightarrow> 'v vindex \<Rightarrow> 'v vindex" where
  "record_tag tag loc ix =
     ix\<lparr>vx_tag_to_location := um_put tag loc (vx_tag_to_location ix),
        vx_location_to_tag := nnm_set loc tag (vx_location_to_tag ix)\<rparr>"

lemma record_tag_fields [simp]:
  "vx_graph_store (record_tag tag loc ix) = vx_graph_store ix"
  "vx_data_store (record_tag tag loc ix) = vx_data_store ix"
  "vx_max_points (record_tag tag loc ix) = vx_max_points ix"
  "vx_num_frozen_pts (record_tag tag loc ix) = vx_num_frozen_pts ix"
  "vx_start (record_tag tag loc ix) = vx_start ix"
  "vx_metric (record_tag tag loc ix) = vx_metric ix"
  "vx_delete_set (record_tag tag loc ix) = vx_delete_set ix"
  "vx_empty_slots (record_tag tag loc ix) = vx_empty_slots ix"
  "vx_enable_tags (record_tag tag loc ix) = vx_enable_tags ix"
  "vx_conc_consolidate (record_tag tag loc ix) = vx_conc_consolidate ix"
  "vx_indexing_queue_size (record_tag tag loc ix) = vx_indexing_queue_size ix"
  "vx_indexing_range (record_tag tag loc ix) = vx_indexing_range ix"
  "vx_indexing_alpha (record_tag tag loc ix) = vx_indexing_alpha ix"
  "vx_location_to_tag (record_tag tag loc ix) = nnm_set loc tag (vx_location_to_tag ix)"
  by (simp_all add: record_tag_def)

lemma record_tag_spec:
  assumes "slot_inv (insert loc P) ix" and "loc \<notin> P" and "map_of (vx_tag_to_location ix) tag = None" and "tag \<noteq> 0"
  shows "slot_inv P (record_tag tag loc ix)" and "tag_at (record_tag tag loc ix) = (tag_at ix)(loc \<mapsto> tag)"
    and "map_of (vx_tag_to_location (record_tag tag loc ix)) = (map_of (vx_tag_to_location ix))(tag \<mapsto> loc)"
proof -
  note inv = slot_invD [OF assms(1)]
  note set = nnm_set_spec [OF inv(5), of loc tag]
  have new: "loc \<notin> live ix" using part4_D(2) [OF slot_part [OF assms(1)], of loc] by simp
  show tags: "tag_at (record_tag tag loc ix) = (tag_at ix)(loc \<mapsto> tag)"
    "map_of (vx_tag_to_location (record_tag tag loc ix)) = (map_of (vx_tag_to_location ix))(tag \<mapsto> loc)"
    using set(2) by (simp_all add: record_tag_def update_conv')
  have live: "live (record_tag tag loc ix) = insert loc (live ix)" unfolding tags(1) by simp
  have "finite (live ix)" "finite P" using slot_finite [OF assms(1)] by simp_all
  then have nd: "vx_nd (record_tag tag loc ix) = card (insert loc (live ix)) + length (vx_delete_set ix) + card P"
    using inv(9) assms(2) new by (simp add: record_tag_def)
  have inverse: "tags_inverse (record_tag tag loc ix)"
    unfolding tags_inverse_def tags
  proof (intro allI)
    fix t l
    have "map_of (vx_tag_to_location ix) t = Some l \<longleftrightarrow> tag_at ix l = Some t" for t l
      using inv(2) unfolding tags_inverse_def by blast
    then show "((map_of (vx_tag_to_location ix))(tag \<mapsto> loc)) t = Some l \<longleftrightarrow> ((tag_at ix)(loc \<mapsto> tag)) l = Some t"
      using assms(3) new by (auto simp: dom_def; metis option.distinct(1))
  qed
  have part: "slot_partition P (record_tag tag loc ix)"
    using part4_moves(3) [OF slot_part [OF assms(1)] assms(2)] unfolding slot_partition_def live
    by (simp add: record_tag_def)
  show "slot_inv P (record_tag tag loc ix)"
    unfolding slot_inv_def live using part inverse nd inv(3,4,6,7,8) set(1) assms(4)
    by (simp add: record_tag_def um_distinct_put um_keys_put del: set_map)
qed

lemma slot_inv_updates [simp]:
  "slot_inv P (ix\<lparr>vx_data_compacted := b\<rparr>) = slot_inv P ix"
  "slot_inv P (ix\<lparr>vx_graph_store := g\<rparr>) = slot_inv P ix"
  "slot_inv P (ix\<lparr>vx_data_store := d\<rparr>) = slot_inv P ix"
  by (simp_all add: slot_inv_def slot_partition_def tags_inverse_def)

lemma delete_tag_spec:
  assumes "slot_inv P ix" and "map_of (vx_tag_to_location ix) tag = Some loc"
  shows "slot_inv P (delete_tag tag loc ix)" and "tag_at (delete_tag tag loc ix) = (tag_at ix)(loc := None)"
    and "map_of (vx_tag_to_location (delete_tag tag loc ix)) = (map_of (vx_tag_to_location ix))(tag := None)"
    and "set (vx_delete_set (delete_tag tag loc ix)) = insert loc (set (vx_delete_set ix))"
    and "loc \<in> live ix"
proof -
  note inv = slot_invD [OF assms(1)]
  note erase = nnm_erase_spec [OF inv(5), of loc]
  have inverse: "map_of (vx_tag_to_location ix) t = Some l \<longleftrightarrow> tag_at ix l = Some t" for t l
    using inv(2) unfolding tags_inverse_def by blast
  then have loc: "tag_at ix loc = Some tag" using assms(2) by blast
  then show live: "loc \<in> live ix" by blast
  then have notD: "loc \<notin> set (vx_delete_set ix)"
    using part4_D(4) [OF slot_part [OF assms(1)] live] by simp
  show tags: "tag_at (delete_tag tag loc ix) = (tag_at ix)(loc := None)"
    "map_of (vx_tag_to_location (delete_tag tag loc ix)) = (map_of (vx_tag_to_location ix))(tag := None)"
    using erase(2) by (simp_all add: delete_tag_def delete_conv')
  have live': "live (delete_tag tag loc ix) = live ix - {loc}" unfolding tags(1) by simp
  show D: "set (vx_delete_set (delete_tag tag loc ix)) = insert loc (set (vx_delete_set ix))"
    by (simp add: delete_tag_def)
  have "card (live ix) = Suc (card (live ix - {loc}))"
    using card_Suc_Diff1 [OF slot_finite(1) [OF assms(1)] live] by simp
  then have nd: "vx_nd (delete_tag tag loc ix) =
      card (live (delete_tag tag loc ix)) + length (vx_delete_set (delete_tag tag loc ix)) + card P"
    unfolding live' using inv(9) notD by (simp add: delete_tag_def)
  have inverse': "tags_inverse (delete_tag tag loc ix)"
    unfolding tags_inverse_def tags
  proof (intro allI)
    fix t l
    have "(t = tag) = (l = loc)" if "tag_at ix l = Some t"
      using that inverse loc by (metis option.inject)
    then show "((map_of (vx_tag_to_location ix))(tag := None)) t = Some l \<longleftrightarrow> ((tag_at ix)(loc := None)) l = Some t"
      using inverse by auto
  qed
  have part: "slot_partition P (delete_tag tag loc ix)"
    using part4_moves(4) [OF slot_part [OF assms(1)] live] unfolding slot_partition_def live' D
    by (simp add: delete_tag_def)
  have "set (map fst (um_erase tag (vx_tag_to_location ix))) \<subseteq> set (map fst (vx_tag_to_location ix))"
    by (simp add: AList.delete_keys del: set_map)
  then have "0 \<notin> set (map fst (um_erase tag (vx_tag_to_location ix)))" using inv(7) by blast
  then show "slot_inv P (delete_tag tag loc ix)"
    unfolding slot_inv_def using part inverse' nd inv(3,4,6,8) erase(1) notD
    by (simp add: delete_tag_def um_distinct_erase del: set_map)
qed

lemma lazy_delete_spec:
  assumes "slot_inv P ix" and "lazy_delete tag ix = (r, ix')"
  shows "slot_inv P ix'" and "r = (if map_of (vx_tag_to_location ix) tag = None then - 1 else 0)"
    and "map_of (vx_tag_to_location ix') = (map_of (vx_tag_to_location ix))(tag := None)"
proof -
  let ?ix = "ix\<lparr>vx_data_compacted := False\<rparr>"
  have inv: "slot_inv P ?ix" using assms(1) by simp
  show "slot_inv P ix'" "r = (if map_of (vx_tag_to_location ix) tag = None then - 1 else 0)"
    "map_of (vx_tag_to_location ix') = (map_of (vx_tag_to_location ix))(tag := None)"
    using assms(2) delete_tag_spec(1,3) [OF inv] inv
    by (auto simp: lazy_delete_def Let_def fun_upd_idem split: option.splits)
qed

lemma swap_delete_set_spec:
  assumes "slot_inv P ix"
  shows "slot_inv (set (vx_delete_set ix) \<union> P) (ix\<lparr>vx_delete_set := []\<rparr>)"
proof -
  note inv = slot_invD [OF assms]
  have "set (vx_delete_set ix) \<inter> P = {}" using slot_part [OF assms] by (simp add: part4_def)
  then have "card (set (vx_delete_set ix) \<union> P) = length (vx_delete_set ix) + card P"
    using slot_finite(2) [OF assms] inv(8) by (simp add: card_Un_disjoint distinct_card)
  then show ?thesis
    using inv(2-7,9) part4_moves(5) [OF slot_part [OF assms]]
    by (simp add: slot_inv_def slot_partition_def tags_inverse_def)
qed

lemma release_locations_spec:
  assumes "slot_inv (set locs \<union> P) ix" and "distinct locs" and "set locs \<inter> P = {}"
  obtains empty where "release_locations locs ix =
      Inr (vx_nd ix - length locs, ix\<lparr>vx_empty_slots := empty, vx_nd := vx_nd ix - length locs\<rparr>)"
    and "slot_inv P (ix\<lparr>vx_empty_slots := empty, vx_nd := vx_nd ix - length locs\<rparr>)"
    and "nns_set empty = set locs \<union> empty_set ix"
proof -
  have "\<exists>empty. rfold release_location locs ix =
      Inr (ix\<lparr>vx_empty_slots := empty, vx_nd := vx_nd ix - length locs\<rparr>) \<and>
      slot_inv P (ix\<lparr>vx_empty_slots := empty, vx_nd := vx_nd ix - length locs\<rparr>) \<and>
      nns_set empty = set locs \<union> empty_set ix"
    using assms
  proof (induction locs arbitrary: ix)
    case Nil
    then show ?case by (intro exI [of _ "vx_empty_slots ix"]) simp
  next
    case (Cons loc locs)
    have "slot_inv (insert loc (set locs \<union> P)) ix" "loc \<notin> set locs \<union> P"
      using Cons.prems by auto
    from release_location_spec [OF this] obtain empty where
      rel: "release_location loc ix = Inr (ix\<lparr>vx_empty_slots := empty, vx_nd := vx_nd ix - 1\<rparr>)"
        "slot_inv (set locs \<union> P) (ix\<lparr>vx_empty_slots := empty, vx_nd := vx_nd ix - 1\<rparr>)"
        "nns_set empty = insert loc (empty_set ix)" by blast
    then show ?case using Cons.IH [OF rel(2)] Cons.prems(2,3) by simp
  qed
  then obtain empty where rel: "rfold release_location locs ix =
      Inr (ix\<lparr>vx_empty_slots := empty, vx_nd := vx_nd ix - length locs\<rparr>)"
    "slot_inv P (ix\<lparr>vx_empty_slots := empty, vx_nd := vx_nd ix - length locs\<rparr>)"
    "nns_set empty = set locs \<union> empty_set ix" by blast
  show ?thesis
    using that [of empty] rel slot_counts [OF rel(2)] by (simp add: release_locations_def)
qed

text \<open>A new dynamic index: every slot is empty.\<close>

lemma enable_delete_fresh:
  assumes "vx_enable_tags ix" and "\<not> vx_deletes_enabled ix" and "vx_data_compacted ix" and "vx_nd ix = 0"
    and "vx_empty_slots ix = nns_new" and "vx_delete_set ix = []" and "vx_tag_to_location ix = []"
    and "vx_location_to_tag ix = nnm_new" and "0 < vx_max_points ix"
  shows "slot_inv {} (snd (enable_delete ix))"
proof -
  let ?e = "insert_range 0 (vx_max_points ix) nns_new"
  have e: "nns_inv ?e" "nns_set ?e = {0..<vx_max_points ix}" "vx_max_points ix \<le> length (nns_bits ?e)"
    using insert_range_spec [of nns_new 0 "vx_max_points ix"] assms(9) by auto
  show ?thesis using assms e
    by (simp add: enable_delete_def Let_def slot_inv_def slot_partition_def tags_inverse_def part4_def)
qed

end
