(* ===== verification/GraphSearch.thy ===== *)
theory GraphSearch
  imports IndexState
begin

text \<open>
  The greedy graph search of a DiskANN index: \<open>iterate_to_fixed_point\<close> and \<open>search_with_tags\<close> of
  \<open>external/DiskANN/src/index.cpp\<close>. \<open>keep\<close> is the label test of a filtered search, constantly true in the
  searches of the cache. The main loop takes fuel; every expansion uses up an unexpanded candidate and adds
  at most as many as it marks, so the number of locations is enough.
\<close>

section \<open>The search loop\<close>

record search_state =
  ss_best_L_nodes :: npq
  ss_visited :: visited
  ss_expanded_nodes :: "neighbor list"
  ss_cmps :: u32

abbreviation vx_total :: "'v vindex \<Rightarrow> nat" where
  "vx_total ix \<equiv> vx_max_points ix + vx_num_frozen_pts ix"

text \<open>One start node.\<close>

definition admit_start :: "'v space \<Rightarrow> 'v vindex \<Rightarrow> 'v \<Rightarrow> (nat \<Rightarrow> bool) \<Rightarrow> nat \<Rightarrow> search_state \<Rightarrow> search_state result" where
  "admit_start sp ix query keep i st =
     (if i \<ge> vx_total ix then Inl (Throws ''Wrong loc'')
      else if \<not> keep i then Inr st
      else rbind (is_not_visited (ss_visited st) i) (\<lambda>new.
        if \<not> new then Inr st
        else rbind (mark_visited i (ss_visited st)) (\<lambda>vis.
             rbind (ds_query_distance sp (vx_data_store ix) query i) (\<lambda>d.
             rbind (npq_insert (nb_new i d) (ss_best_L_nodes st)) (\<lambda>q.
               Inr (st\<lparr>ss_visited := vis, ss_best_L_nodes := q\<rparr>))))))"

text \<open>One iteration: expand the closest unexpanded candidate \<open>n\<close>.\<close>

definition expand_step :: "'v space \<Rightarrow> 'v vindex \<Rightarrow> 'v \<Rightarrow> (nat \<Rightarrow> bool) \<Rightarrow> bool \<Rightarrow> search_state \<Rightarrow> search_state result" where
  "expand_step sp ix query keep search_invocation st =
     rbind (npq_closest_unexpanded (ss_best_L_nodes st)) (\<lambda>(nbr, q1).
     rbind (gs_get_neighbours (vx_graph_store ix) (nb_id nbr)) (\<lambda>nbrs.
     rbind (rfilter (is_not_visited (ss_visited st)) (filter keep nbrs)) (\<lambda>ids.
     rbind (rfold mark_visited ids (ss_visited st)) (\<lambda>vis.
     rbind (rmap (ds_query_distance sp (vx_data_store ix) query) ids) (\<lambda>dists.
     rbind (rfold npq_insert (map2 nb_new ids dists) q1) (\<lambda>q2.
       Inr \<lparr>ss_best_L_nodes = q2, ss_visited = vis,
            ss_expanded_nodes = (if search_invocation then ss_expanded_nodes st
                                 else ss_expanded_nodes st @ [nbr]),
            ss_cmps = ss_cmps st + of_nat (length ids)\<rparr>))))))"

fun expand_loop :: "nat \<Rightarrow> 'v space \<Rightarrow> 'v vindex \<Rightarrow> 'v \<Rightarrow> (nat \<Rightarrow> bool) \<Rightarrow> bool \<Rightarrow> search_state \<Rightarrow> search_state result" where
  "expand_loop 0 sp ix query keep search_invocation st =
     (if npq_has_unexpanded_node (ss_best_L_nodes st) then Inl Out_of_fuel else Inr st)"
| "expand_loop (Suc fuel) sp ix query keep search_invocation st =
     (if npq_has_unexpanded_node (ss_best_L_nodes st)
      then rbind (expand_step sp ix query keep search_invocation st)
             (expand_loop fuel sp ix query keep search_invocation)
      else Inr st)"

text \<open>The scratch space is clear when a search begins.\<close>

definition iterate_to_fixed_point ::
  "'v space \<Rightarrow> 'v vindex \<Rightarrow> 'v \<Rightarrow> nat \<Rightarrow> nat list \<Rightarrow> (nat \<Rightarrow> bool) \<Rightarrow> bool \<Rightarrow> search_state result" where
  "iterate_to_fixed_point sp ix query Lsize init_ids keep search_invocation =
     rbind (rfold (admit_start sp ix query keep) init_ids
              \<lparr>ss_best_L_nodes = npq_reserve Lsize npq_new, ss_visited = visited_new (vx_total ix),
               ss_expanded_nodes = [], ss_cmps = 0\<rparr>)
       (expand_loop (vx_total ix) sp ix query keep search_invocation)"

section \<open>Results by tag\<close>

text \<open>
  The loop over the candidates: \<open>pos\<close> results so far. The test \<open>pos == K || pos == res_vectors.size()\<close> is
  made only after a result was written, so \<open>K = 0\<close> never stops it. The output arrays hold \<open>cap\<close> entries
  (K in every call of the cache); a write past them is undefined. Only the callers that ask for no vectors
  are modelled.
\<close>

definition reported_distance :: "metric \<Rightarrow> fp \<Rightarrow> fp" where
  "reported_distance m d = (if m = INNER_PRODUCT then fp_neg d else d)"

fun collect_tags :: "'v vindex \<Rightarrow> nat \<Rightarrow> nat \<Rightarrow> neighbor list \<Rightarrow> (u32 \<times> fp) list \<Rightarrow> (u32 \<times> fp) list result" where
  "collect_tags ix K cap [] out = Inr out"
| "collect_tags ix K cap (node # nodes) out =
     (case nnm_try_get (vx_location_to_tag ix) (nb_id node) of
        None \<Rightarrow> collect_tags ix K cap nodes out
      | Some tag \<Rightarrow>
          if length out \<ge> cap then Inl (Undefined ''tags[pos] out of range'')
          else let out' = out @ [(tag, reported_distance (vx_metric ix) (nb_distance node))]
               in if length out' = K then Inr out' else collect_tags ix K cap nodes out')"

definition search_with_tags ::
  "'v space \<Rightarrow> 'v vindex \<Rightarrow> 'v \<Rightarrow> nat \<Rightarrow> nat \<Rightarrow> nat \<Rightarrow> (u32 \<times> fp) list result" where
  "search_with_tags sp ix query K L cap =
     (if K > L then Inl (Throws ''Set L to a value of at least K'')
      else rbind (iterate_to_fixed_point sp ix query L (get_init_ids ix) (\<lambda>i. True) True) (\<lambda>st.
             collect_tags ix K cap (npq_list (ss_best_L_nodes st)) []))"

section \<open>What the search keeps\<close>

text \<open>
  \<open>index_shape\<close>: the stores cover all locations and edges stay inside. \<open>search_inv\<close>: the candidate list
  holds the best \<open>L\<close> of the visited locations, and the neighbours of every expanded one were visited.
\<close>

definition index_shape :: "'v vindex \<Rightarrow> bool" where
  "index_shape ix \<longleftrightarrow> vx_total ix \<le> length (vx_data_store ix) \<and> vx_total ix \<le> gs_len (vx_graph_store ix) \<and>
     (\<forall>i < vx_total ix. \<forall>j \<in> set (adj (vx_graph_store ix) i). j < vx_total ix) \<and>
     vx_start ix < vx_total ix"

definition cand_key :: "'v space \<Rightarrow> 'v vindex \<Rightarrow> 'v \<Rightarrow> nat \<Rightarrow> fp \<times> nat" where
  "cand_key sp ix query i = (sp_dist sp query (vx_data_store ix ! i), i)"

definition numeric :: "'v space \<Rightarrow> bool" where
  "numeric sp \<longleftrightarrow> (\<forall>u v. sp_dist sp u v \<noteq> NaN)"

definition unexpanded :: "npq \<Rightarrow> neighbor set" where
  "unexpanded q = {x \<in> set (npq_list q). \<not> nb_expanded x}"

definition edge_closed :: "'v vindex \<Rightarrow> nat set \<Rightarrow> bool" where
  "edge_closed ix S \<longleftrightarrow> (\<forall>i \<in> S. set (adj (vx_graph_store ix) i) \<subseteq> S)"

definition search_inv :: "'v space \<Rightarrow> 'v vindex \<Rightarrow> 'v \<Rightarrow> nat \<Rightarrow> (nat \<Rightarrow> bool) \<Rightarrow> search_state \<Rightarrow> bool" where
  "search_inv sp ix query Lsize keep st \<longleftrightarrow>
     npq_inv (ss_best_L_nodes st) \<and> npq_capacity (ss_best_L_nodes st) = Lsize \<and>
     visited_covers (vx_total ix) (ss_visited st) \<and> visited_set (ss_visited st) \<subseteq> {..<vx_total ix} \<and>
     map nb_key (npq_list (ss_best_L_nodes st)) =
       take Lsize (sorted_list_of_set (cand_key sp ix query ` visited_set (ss_visited st))) \<and>
     (\<forall>x \<in> set (npq_list (ss_best_L_nodes st)). nb_expanded x \<longrightarrow>
        (\<forall>j \<in> set (adj (vx_graph_store ix) (nb_id x)). keep j \<longrightarrow> j \<in> visited_set (ss_visited st)))"

lemma nb_key_cand [simp]: "nb_key (nb_new i (sp_dist sp query (vx_data_store ix ! i))) = cand_key sp ix query i"
  by (simp add: nb_key_def nb_new_def cand_key_def)

lemma snd_cand_key [simp]: "snd (cand_key sp ix query i) = i"
  by (simp add: cand_key_def)

lemma insert_candidates:
  assumes "numeric sp" and "npq_inv q" and "npq_capacity q = Lsize" and "0 < Lsize" and "finite V"
    and "map nb_key (npq_list q) = take Lsize (sorted_list_of_set (cand_key sp ix query ` V))"
  obtains q' where
    "rfold npq_insert (map (\<lambda>i. nb_new i (sp_dist sp query (vx_data_store ix ! i))) ids) q = Inr q'"
    and "npq_inv q'" and "npq_capacity q' = Lsize"
    and "map nb_key (npq_list q') = take Lsize (sorted_list_of_set (cand_key sp ix query ` (V \<union> set ids)))"
    and "set (npq_list q') \<subseteq> set (npq_list q) \<union>
      (\<lambda>i. nb_new i (sp_dist sp query (vx_data_store ix ! i))) ` set ids"
proof -
  let ?f = "\<lambda>i. nb_new i (sp_dist sp query (vx_data_store ix ! i))"
  have num: "\<forall>x \<in> set (map ?f ids). nb_num x"
    using assms(1) by (auto simp: numeric_def nb_num_def nb_new_def)
  have key: "nb_key ` set (map ?f ids) = cand_key sp ix query ` set ids" by (simp add: image_image)
  have fn: "\<forall>a \<in> cand_key sp ix query ` V \<union> nb_key ` set (map ?f ids).
      \<forall>b \<in> cand_key sp ix query ` V \<union> nb_key ` set (map ?f ids). snd a = snd b \<longrightarrow> fst a = fst b"
    unfolding key by (auto simp: cand_key_def)
  have new: "(\<lambda>x. nb_new (nb_id x) (nb_distance x)) ` set (map ?f ids) = ?f ` set ids"
    by (simp add: image_image nb_new_def)
  obtain q' where "rfold npq_insert (map ?f ids) q = Inr q'" "npq_inv q'" "npq_capacity q' = npq_capacity q"
    "map nb_key (npq_list q') = take (npq_capacity q)
       (sorted_list_of_set (cand_key sp ix query ` V \<union> nb_key ` set (map ?f ids)))"
    "set (npq_list q') \<subseteq> set (npq_list q) \<union> (\<lambda>x. nb_new (nb_id x) (nb_distance x)) ` set (map ?f ids)"
    using npq_insert_all [OF assms(2) _ _ _ num fn] assms(3-6) by auto
  then show ?thesis
    using that [of q'] unfolding new key image_Un [symmetric] assms(3) by blast
qed

lemma search_invD:
  assumes "search_inv sp ix query Lsize keep st"
  shows "npq_inv (ss_best_L_nodes st)" and "npq_capacity (ss_best_L_nodes st) = Lsize"
    and "visited_covers (vx_total ix) (ss_visited st)" and "visited_set (ss_visited st) \<subseteq> {..<vx_total ix}"
    and "map nb_key (npq_list (ss_best_L_nodes st)) =
       take Lsize (sorted_list_of_set (cand_key sp ix query ` visited_set (ss_visited st)))"
    and "\<And>x j. x \<in> set (npq_list (ss_best_L_nodes st)) \<Longrightarrow> nb_expanded x \<Longrightarrow>
        j \<in> set (adj (vx_graph_store ix) (nb_id x)) \<Longrightarrow> keep j \<Longrightarrow> j \<in> visited_set (ss_visited st)"
    and "finite (visited_set (ss_visited st))"
  using assms unfolding search_inv_def by (blast+) (metis finite_lessThan finite_subset assms search_inv_def)

lemma search_inv_ids:
  assumes "search_inv sp ix query Lsize keep st" and "x \<in> set (npq_list (ss_best_L_nodes st))"
  shows "nb_id x \<in> visited_set (ss_visited st)" and "nb_key x = cand_key sp ix query (nb_id x)"
    and "nb_id x < vx_total ix"
proof -
  have "nb_key x \<in> set (map nb_key (npq_list (ss_best_L_nodes st)))" using assms(2) by simp
  then have "nb_key x \<in> set (sorted_list_of_set (cand_key sp ix query ` visited_set (ss_visited st)))"
    unfolding search_invD(5) [OF assms(1)] by (rule in_set_takeD)
  then obtain i where i: "i \<in> visited_set (ss_visited st)" "nb_key x = cand_key sp ix query i"
    using search_invD(7) [OF assms(1)] by auto
  moreover have "nb_id x = i" using arg_cong [OF i(2), of snd] by (simp add: nb_key_def)
  ultimately show "nb_id x \<in> visited_set (ss_visited st)" "nb_key x = cand_key sp ix query (nb_id x)"
    "nb_id x < vx_total ix"
    using search_invD(4) [OF assms(1)] by auto
qed

lemma admit_start_spec:
  assumes "numeric sp" and "index_shape ix" and "0 < Lsize" and "search_inv sp ix query Lsize keep st"
    and "i < vx_total ix" and "\<forall>x \<in> set (npq_list (ss_best_L_nodes st)). \<not> nb_expanded x"
  obtains st' where "admit_start sp ix query keep i st = Inr st'" and "search_inv sp ix query Lsize keep st'"
    and "visited_set (ss_visited st') = visited_set (ss_visited st) \<union> (if keep i then {i} else {})"
    and "\<forall>x \<in> set (npq_list (ss_best_L_nodes st')). \<not> nb_expanded x"
    and "ss_expanded_nodes st' = ss_expanded_nodes st"
proof (cases "keep i \<and> i \<notin> visited_set (ss_visited st)")
  case False
  then show ?thesis
    using that [of st] assms(4-6) is_not_visited_Inr [OF search_invD(3) [OF assms(4)] assms(5)]
    by (auto simp: admit_start_def insert_absorb)
next
  case True
  note inv = search_invD [OF assms(4)]
  obtain vis where vis: "mark_visited i (ss_visited st) = Inr vis" "visited_covers (vx_total ix) vis"
    "visited_set vis = insert i (visited_set (ss_visited st))"
    by (rule mark_visited_Inr [OF inv(3) assms(5)])
  obtain q where q: "rfold npq_insert (map (\<lambda>i. nb_new i (sp_dist sp query (vx_data_store ix ! i))) [i])
      (ss_best_L_nodes st) = Inr q" "npq_inv q" "npq_capacity q = Lsize"
    "map nb_key (npq_list q) = take Lsize (sorted_list_of_set (cand_key sp ix query ` (visited_set (ss_visited st) \<union> set [i])))"
    "set (npq_list q) \<subseteq> set (npq_list (ss_best_L_nodes st)) \<union>
      (\<lambda>i. nb_new i (sp_dist sp query (vx_data_store ix ! i))) ` set [i]"
    by (rule insert_candidates [OF assms(1) inv(1,2) assms(3) inv(7,5), of "[i]"])
  have ins: "npq_insert (nb_new i (sp_dist sp query (vx_data_store ix ! i))) (ss_best_L_nodes st) = Inr q"
    using q(1) by (simp add: rbind_eq_Inr_conv)
  have fresh: "\<not> nb_expanded x" if "x \<in> set (npq_list q)" for x
    using that q(5) assms(6) by (auto simp: nb_new_def)
  let ?st = "st\<lparr>ss_visited := vis, ss_best_L_nodes := q\<rparr>"
  have "admit_start sp ix query keep i st = Inr ?st"
    using True assms(2,5) vis(1) ins is_not_visited_Inr [OF inv(3) assms(5)]
    by (simp add: admit_start_def index_shape_def)
  moreover have "search_inv sp ix query Lsize keep ?st"
    using q(2-4) vis(2,3) inv(4) assms(5) fresh by (auto simp: search_inv_def)
  ultimately show ?thesis using that [of ?st] vis(3) fresh True by simp
qed

lemma unexpanded_expand_at:
  assumes "i < length xs" and "distinct xs" and "\<not> nb_expanded (xs ! i)"
  shows "{x \<in> set (expand_at i xs). \<not> nb_expanded x} = {x \<in> set xs. \<not> nb_expanded x} - {xs ! i}"
    and "{x \<in> set (expand_at i xs). nb_expanded x} =
      insert ((xs ! i)\<lparr>nb_expanded := True\<rparr>) {x \<in> set xs. nb_expanded x}"
proof -
  have "set (expand_at i xs) = insert ((xs ! i)\<lparr>nb_expanded := True\<rparr>) (set xs - {xs ! i})"
    unfolding expand_at_def by (rule set_update_distinct [OF assms(2,1)])
  then show "{x \<in> set (expand_at i xs). \<not> nb_expanded x} = {x \<in> set xs. \<not> nb_expanded x} - {xs ! i}"
    "{x \<in> set (expand_at i xs). nb_expanded x} =
      insert ((xs ! i)\<lparr>nb_expanded := True\<rparr>) {x \<in> set xs. nb_expanded x}"
    using assms(3) by (auto dest: arg_cong [of _ _ nb_expanded])
qed

lemma search_inv_distinct:
  assumes "search_inv sp ix query Lsize keep st"
  shows "distinct (map nb_key (npq_list (ss_best_L_nodes st)))" and "distinct (npq_list (ss_best_L_nodes st))"
proof -
  show d: "distinct (map nb_key (npq_list (ss_best_L_nodes st)))"
    unfolding search_invD(5) [OF assms] by (intro distinct_take) simp
  then show "distinct (npq_list (ss_best_L_nodes st))" by (simp add: distinct_map)
qed

lemma expand_step_spec:
  assumes "numeric sp" and "index_shape ix" and "0 < Lsize" and "search_inv sp ix query Lsize keep st"
    and "npq_has_unexpanded_node (ss_best_L_nodes st)"
  obtains st' x new where "expand_step sp ix query keep si st = Inr st'" and "search_inv sp ix query Lsize keep st'"
    and "x \<in> unexpanded (ss_best_L_nodes st)"
    and "visited_set (ss_visited st') = visited_set (ss_visited st) \<union> new"
    and "new \<inter> visited_set (ss_visited st) = {}" and "new \<subseteq> {..<vx_total ix}"
    and "unexpanded (ss_best_L_nodes st') \<subseteq> unexpanded (ss_best_L_nodes st) - {x} \<union>
      (\<lambda>i. nb_new i (sp_dist sp query (vx_data_store ix ! i))) ` new"
    and "{y \<in> set (npq_list (ss_best_L_nodes st')). nb_expanded y} \<subseteq>
      insert (x\<lparr>nb_expanded := True\<rparr>) {y \<in> set (npq_list (ss_best_L_nodes st)). nb_expanded y}"
    and "ss_expanded_nodes st' = (if si then ss_expanded_nodes st else ss_expanded_nodes st @ [x\<lparr>nb_expanded := True\<rparr>])"
    and "new \<subseteq> set (adj (vx_graph_store ix) (nb_id x))"
proof -
  let ?f = "\<lambda>i. nb_new i (sp_dist sp query (vx_data_store ix ! i))"
  let ?q = "ss_best_L_nodes st" and ?V = "visited_set (ss_visited st)" and ?g = "vx_graph_store ix"
  note inv = search_invD [OF assms(4)]
  obtain nbr q1 where cl: "npq_closest_unexpanded ?q = Inr (nbr, q1)" "npq_inv q1"
    "npq_list q1 = expand_at (npq_cur ?q) (npq_list ?q)" "npq_cur ?q < npq_size ?q"
    "nbr = (npq_list ?q ! npq_cur ?q)\<lparr>nb_expanded := True\<rparr>" "\<not> nb_expanded (npq_list ?q ! npq_cur ?q)"
    "npq_capacity q1 = npq_capacity ?q"
    using npq_closest_spec [OF inv(1) assms(5)] by metis
  define x where "x = npq_list ?q ! npq_cur ?q"
  have cur: "npq_cur ?q < length (npq_list ?q)" using cl(4) length_npq_list [OF inv(1)] by simp
  then have x: "x \<in> set (npq_list ?q)" "nb_id nbr = nb_id x" "x \<in> unexpanded ?q"
    using cl(5,6) by (auto simp: x_def unexpanded_def)
  note dist = search_inv_distinct(2) [OF assms(4)]
  note un = unexpanded_expand_at [OF cur dist cl(6), folded cl(3) x_def]
  have n: "nb_id x < vx_total ix" by (rule search_inv_ids(3) [OF assms(4) x(1)])
  have shape: "nb_id x < gs_len ?g" "\<forall>j \<in> set (adj ?g (nb_id x)). j < vx_total ix" "vx_total ix \<le> length (vx_data_store ix)"
    using assms(2) n by (auto simp: index_shape_def)
  define ids where "ids = filter (\<lambda>i. i \<notin> ?V) (filter keep (adj ?g (nb_id x)))"
  have ids: "\<forall>i \<in> set ids. i < vx_total ix" "set ids \<inter> ?V = {}"
    "\<forall>j \<in> set (adj ?g (nb_id x)). keep j \<longrightarrow> j \<in> ?V \<union> set ids"
    using shape(2) by (auto simp: ids_def)
  have fil: "rfilter (is_not_visited (ss_visited st)) (filter keep (adj ?g (nb_id x))) = Inr ids"
    unfolding ids_def using shape(2) is_not_visited_Inr [OF inv(3)] by (intro rfilter_Inr) simp
  obtain vis where vis: "rfold mark_visited ids (ss_visited st) = Inr vis" "visited_covers (vx_total ix) vis"
    "visited_set vis = ?V \<union> set ids"
    using mark_all_Inr [OF inv(3) ids(1)] by blast
  have dists: "rmap (ds_query_distance sp (vx_data_store ix) query) ids =
      Inr (map (\<lambda>i. sp_dist sp query (vx_data_store ix ! i)) ids)"
    using ids(1) shape(3) by (intro rmap_Inr ds_simps(2)) (meson less_le_trans)
  have keys: "map nb_key (npq_list q1) = take Lsize (sorted_list_of_set (cand_key sp ix query ` ?V))"
    unfolding cl(3) using expand_at_props(1) [OF cur] inv(5) by simp
  obtain q2 where q2: "rfold npq_insert (map ?f ids) q1 = Inr q2" "npq_inv q2" "npq_capacity q2 = Lsize"
    "map nb_key (npq_list q2) = take Lsize (sorted_list_of_set (cand_key sp ix query ` (?V \<union> set ids)))"
    "set (npq_list q2) \<subseteq> set (npq_list q1) \<union> ?f ` set ids"
    by (rule insert_candidates [OF assms(1) cl(2) cl(7) [unfolded inv(2)] assms(3) inv(7) keys, of ids])
  have map2: "map2 nb_new ids (map (\<lambda>i. sp_dist sp query (vx_data_store ix ! i)) ids) = map ?f ids"
    by (induction ids) auto
  define st' where "st' = \<lparr>ss_best_L_nodes = q2, ss_visited = vis,
    ss_expanded_nodes = (if si then ss_expanded_nodes st else ss_expanded_nodes st @ [nbr]),
    ss_cmps = ss_cmps st + of_nat (length ids)\<rparr>"
  have step: "expand_step sp ix query keep si st = Inr st'"
    unfolding expand_step_def using shape(1)
    by (simp add: cl(1) x(2) fil vis(1) dists map2 q2(1) st'_def)
  have "j \<in> ?V \<union> set ids"
    if y: "y \<in> set (npq_list q2)" "nb_expanded y" and j: "j \<in> set (adj ?g (nb_id y))" "keep j" for y j
  proof -
    have "y \<in> {z \<in> set (npq_list q1). nb_expanded z}" using y q2(5) by (auto simp: nb_new_def)
    then consider "nb_id y = nb_id x" | "y \<in> set (npq_list ?q)" unfolding un(2) by auto
    then show ?thesis
    proof cases
      case 1
      then show ?thesis using ids(3) j by simp
    next
      case 2
      then show ?thesis using inv(6) y(2) j by blast
    qed
  qed
  then have SI: "search_inv sp ix query Lsize keep st'"
    using q2(2-4) vis(2,3) inv(4) ids(1) by (auto simp: search_inv_def st'_def)
  show ?thesis
  proof (rule that [OF step SI x(3)])
    show "visited_set (ss_visited st') = ?V \<union> set ids" using vis(3) by (simp add: st'_def)
    show "set ids \<subseteq> {..<vx_total ix}" using ids(1) by auto
    show "unexpanded (ss_best_L_nodes st') \<subseteq> unexpanded ?q - {x} \<union> ?f ` set ids"
      using q2(5) un(1) by (auto simp: unexpanded_def st'_def)
    have "{y \<in> set (npq_list q2). nb_expanded y} \<subseteq> {y \<in> set (npq_list q1). nb_expanded y}"
      using q2(5) by (auto simp: nb_new_def)
    then show "{y \<in> set (npq_list (ss_best_L_nodes st')). nb_expanded y} \<subseteq>
        insert (x\<lparr>nb_expanded := True\<rparr>) {y \<in> set (npq_list ?q). nb_expanded y}"
      using un(2) by (simp add: st'_def)
    show "ss_expanded_nodes st' =
        (if si then ss_expanded_nodes st else ss_expanded_nodes st @ [x\<lparr>nb_expanded := True\<rparr>])"
      using cl(5) by (simp add: st'_def x_def)
    show "set ids \<subseteq> set (adj ?g (nb_id x))" by (auto simp: ids_def)
  qed (rule ids(2))
qed

text \<open>The expanded nodes, kept when the search serves an insertion: each once, with its distance.\<close>

definition pool_inv :: "'v space \<Rightarrow> 'v vindex \<Rightarrow> 'v \<Rightarrow> search_state \<Rightarrow> bool" where
  "pool_inv sp ix query st \<longleftrightarrow>
     distinct (map nb_id (ss_expanded_nodes st)) \<and>
     (\<forall>x \<in> set (ss_expanded_nodes st). nb_id x \<in> visited_set (ss_visited st) \<and> nb_key x = cand_key sp ix query (nb_id x)) \<and>
     (\<forall>y \<in> unexpanded (ss_best_L_nodes st). nb_id y \<notin> nb_id ` set (ss_expanded_nodes st)) \<and>
     (\<forall>y \<in> set (npq_list (ss_best_L_nodes st)). nb_expanded y \<longrightarrow> nb_id y \<in> nb_id ` set (ss_expanded_nodes st))"

lemma pool_inv_step:
  assumes inv: "search_inv sp ix query Lsize keep st" and pool: "pool_inv sp ix query st"
    and x: "x \<in> unexpanded (ss_best_L_nodes st)"
    and vis: "visited_set (ss_visited st') = visited_set (ss_visited st) \<union> new"
    and new: "new \<inter> visited_set (ss_visited st) = {}"
    and un: "unexpanded (ss_best_L_nodes st') \<subseteq> unexpanded (ss_best_L_nodes st) - {x} \<union>
      (\<lambda>i. nb_new i (sp_dist sp query (vx_data_store ix ! i))) ` new"
    and ex: "{y \<in> set (npq_list (ss_best_L_nodes st')). nb_expanded y} \<subseteq>
      insert (x\<lparr>nb_expanded := True\<rparr>) {y \<in> set (npq_list (ss_best_L_nodes st)). nb_expanded y}"
    and nodes: "ss_expanded_nodes st' = ss_expanded_nodes st @ [x\<lparr>nb_expanded := True\<rparr>]"
  shows "pool_inv sp ix query st'"
proof -
  let ?ids = "nb_id ` set (ss_expanded_nodes st)"
  note p = pool [unfolded pool_inv_def]
  have xq: "x \<in> set (npq_list (ss_best_L_nodes st))" using x by (simp add: unexpanded_def)
  note xi = search_inv_ids [OF inv xq]
  have other: "nb_id y \<noteq> nb_id x" if y: "y \<in> unexpanded (ss_best_L_nodes st)" "y \<noteq> x" for y
  proof
    assume id: "nb_id y = nb_id x"
    have yq: "y \<in> set (npq_list (ss_best_L_nodes st))" using y(1) by (simp add: unexpanded_def)
    have "nb_key y = nb_key x" using search_inv_ids(2) [OF inv yq] xi(2) id by simp
    then show False
      using search_inv_distinct(1) [OF inv] xq yq y(2) by (auto simp: distinct_map dest: inj_onD)
  qed
  have ids: "?ids \<subseteq> visited_set (ss_visited st)" using p by blast
  have "nb_id y \<notin> insert (nb_id x) ?ids" if y: "y \<in> unexpanded (ss_best_L_nodes st')" for y
  proof -
    consider "y \<in> unexpanded (ss_best_L_nodes st)" "y \<noteq> x" | "nb_id y \<in> new"
      using subsetD [OF un y] by (auto simp: nb_new_def)
    then show ?thesis
    proof cases
      case 1
      then show ?thesis using p other by blast
    next
      case 2
      then have "nb_id y \<notin> visited_set (ss_visited st)" using new by (meson disjoint_iff)
      moreover have "insert (nb_id x) ?ids \<subseteq> visited_set (ss_visited st)" using ids xi(1) by simp
      ultimately show ?thesis by (meson subsetD)
    qed
  qed
  moreover have "nb_id y \<in> insert (nb_id x) ?ids"
    if y: "y \<in> set (npq_list (ss_best_L_nodes st'))" "nb_expanded y" for y
    using ex p y by force
  moreover have "nb_id x \<notin> ?ids" using p x by blast
  ultimately show ?thesis
    using p xi(1,2) vis by (auto simp: pool_inv_def nodes)
qed

definition search_measure :: "'v vindex \<Rightarrow> search_state \<Rightarrow> nat" where
  "search_measure ix st = vx_total ix - card (visited_set (ss_visited st)) + card (unexpanded (ss_best_L_nodes st))"

lemma finite_unexpanded [simp]: "finite (unexpanded q)"
  by (simp add: unexpanded_def)

lemma measure_step:
  assumes "finite V" and "V \<union> new \<subseteq> {..<n}" and "new \<inter> V = {}" and "x \<in> U" and "finite U"
    and "U' \<subseteq> U - {x} \<union> f ` new"
  shows "n - card (V \<union> new) + card U' < n - card V + card U"
proof -
  have fin: "finite new" using assms(2) finite_subset by blast
  have "card (V \<union> new) = card V + card new" using assms(1,3) fin by (simp add: card_Un_disjoint inf_commute)
  moreover have "card (V \<union> new) \<le> n" using card_mono [OF _ assms(2)] by simp
  moreover have "card U' \<le> card (U - {x}) + card new"
  proof -
    have "card U' \<le> card (U - {x} \<union> f ` new)" using assms(5,6) fin by (intro card_mono) simp_all
    also have "\<dots> \<le> card (U - {x}) + card (f ` new)" by (rule card_Un_le)
    also have "\<dots> \<le> card (U - {x}) + card new" by (rule add_left_mono [OF card_image_le [OF fin]])
    finally show ?thesis .
  qed
  moreover have "card U = Suc (card (U - {x}))" by (rule card_Suc_Diff1 [OF assms(5,4), symmetric])
  ultimately show ?thesis by linarith
qed

lemma has_unexpanded_iff:
  assumes "npq_inv q"
  shows "npq_has_unexpanded_node q \<longleftrightarrow> unexpanded q \<noteq> {}"
proof
  assume has: "npq_has_unexpanded_node q"
  then have "npq_cur q < length (npq_list q)" "\<not> nb_expanded (npq_list q ! npq_cur q)"
    using assms length_npq_list [OF assms] npq_list_nth [OF assms]
    by (simp_all add: npq_has_unexpanded_node_def npq_inv_def)
  then show "unexpanded q \<noteq> {}" unfolding unexpanded_def using nth_mem by blast
next
  assume "unexpanded q \<noteq> {}"
  then obtain i where i: "i < npq_size q" "\<not> nb_expanded (npq_data q ! i)"
    using length_npq_list [OF assms] npq_list_nth [OF assms]
    by (auto simp: unexpanded_def in_set_conv_nth)
  have "\<forall>j < npq_cur q. nb_expanded (npq_data q ! j)" using assms unfolding npq_inv_def by blast
  then have "npq_cur q \<le> i" using i(2) not_le by blast
  then show "npq_has_unexpanded_node q" using i(1) by (simp add: npq_has_unexpanded_node_def)
qed

lemma expand_loop_spec:
  assumes "numeric sp" and "index_shape ix" and "0 < Lsize" and "search_inv sp ix query Lsize keep st"
    and "if si then ss_expanded_nodes st = [] else pool_inv sp ix query st" and "search_measure ix st \<le> fuel"
  shows "\<exists>st'. expand_loop fuel sp ix query keep si st = Inr st' \<and> search_inv sp ix query Lsize keep st' \<and>
    unexpanded (ss_best_L_nodes st') = {} \<and> visited_set (ss_visited st) \<subseteq> visited_set (ss_visited st') \<and>
    (if si then ss_expanded_nodes st' = [] else pool_inv sp ix query st') \<and>
    (\<forall>S. edge_closed ix S \<longrightarrow> visited_set (ss_visited st) \<subseteq> S \<longrightarrow> visited_set (ss_visited st') \<subseteq> S)"
  using assms(4-6)
proof (induction fuel arbitrary: st)
  case 0
  then have "unexpanded (ss_best_L_nodes st) = {}" by (simp add: search_measure_def)
  then show ?case
    using 0 has_unexpanded_iff [OF search_invD(1) [OF 0(1)]] by (intro exI [of _ st]) simp
next
  case (Suc fuel)
  note inv = search_invD [OF Suc.prems(1)]
  show ?case
  proof (cases "npq_has_unexpanded_node (ss_best_L_nodes st)")
    case False
    then show ?thesis
      using Suc.prems has_unexpanded_iff [OF inv(1)] by (intro exI [of _ st]) simp
  next
    case True
    obtain st1 x new where s1: "expand_step sp ix query keep si st = Inr st1" "search_inv sp ix query Lsize keep st1"
      "x \<in> unexpanded (ss_best_L_nodes st)" "visited_set (ss_visited st1) = visited_set (ss_visited st) \<union> new"
      "new \<inter> visited_set (ss_visited st) = {}" "new \<subseteq> {..<vx_total ix}"
      "unexpanded (ss_best_L_nodes st1) \<subseteq> unexpanded (ss_best_L_nodes st) - {x} \<union>
        (\<lambda>i. nb_new i (sp_dist sp query (vx_data_store ix ! i))) ` new"
      "{y \<in> set (npq_list (ss_best_L_nodes st1)). nb_expanded y} \<subseteq>
        insert (x\<lparr>nb_expanded := True\<rparr>) {y \<in> set (npq_list (ss_best_L_nodes st)). nb_expanded y}"
      "ss_expanded_nodes st1 = (if si then ss_expanded_nodes st else ss_expanded_nodes st @ [x\<lparr>nb_expanded := True\<rparr>])"
      "new \<subseteq> set (adj (vx_graph_store ix) (nb_id x))"
      by (rule expand_step_spec [OF assms(1-3) Suc.prems(1) True])
    have "search_measure ix st1 < search_measure ix st"
      unfolding search_measure_def s1(4) using inv(4,7) s1(3,5,6,7)
      by (intro measure_step [where x = x]) auto
    then have le: "search_measure ix st1 \<le> fuel" using Suc.prems(3) by simp
    have pool: "if si then ss_expanded_nodes st1 = [] else pool_inv sp ix query st1"
      using Suc.prems(2) s1(9) pool_inv_step [OF Suc.prems(1) _ s1(3,4,5,7,8)] by (simp split: if_splits)
    obtain st2 where s2: "expand_loop fuel sp ix query keep si st1 = Inr st2" "search_inv sp ix query Lsize keep st2"
      "unexpanded (ss_best_L_nodes st2) = {}" "visited_set (ss_visited st1) \<subseteq> visited_set (ss_visited st2)"
      "if si then ss_expanded_nodes st2 = [] else pool_inv sp ix query st2"
      "\<forall>S. edge_closed ix S \<longrightarrow> visited_set (ss_visited st1) \<subseteq> S \<longrightarrow> visited_set (ss_visited st2) \<subseteq> S"
      using Suc.IH [OF s1(2) pool le] by blast
    have "nb_id x \<in> visited_set (ss_visited st)"
      using s1(3) search_inv_ids(1) [OF Suc.prems(1)] by (simp add: unexpanded_def)
    then have "visited_set (ss_visited st2) \<subseteq> S" if "edge_closed ix S" "visited_set (ss_visited st) \<subseteq> S" for S
      using s2(6) s1(4,10) that unfolding edge_closed_def by (metis le_sup_iff subset_trans subsetD)
    then show ?thesis using True s1(1,4) s2(1-5) by (intro exI [of _ st2]) auto
  qed
qed

section \<open>The whole search\<close>

lemma admit_all:
  assumes "numeric sp" and "index_shape ix" and "0 < Lsize" and "search_inv sp ix query Lsize keep st"
    and "\<forall>i \<in> set ids. i < vx_total ix" and "\<forall>x \<in> set (npq_list (ss_best_L_nodes st)). \<not> nb_expanded x"
  shows "\<exists>st'. rfold (admit_start sp ix query keep) ids st = Inr st' \<and> search_inv sp ix query Lsize keep st' \<and>
    visited_set (ss_visited st') = visited_set (ss_visited st) \<union> set (filter keep ids) \<and>
    (\<forall>x \<in> set (npq_list (ss_best_L_nodes st')). \<not> nb_expanded x) \<and>
    ss_expanded_nodes st' = ss_expanded_nodes st"
  using assms(4-6)
proof (induction ids arbitrary: st)
  case (Cons i ids)
  have i: "i < vx_total ix" using Cons.prems(2) by simp
  obtain st1 where s1: "admit_start sp ix query keep i st = Inr st1" "search_inv sp ix query Lsize keep st1"
    "visited_set (ss_visited st1) = visited_set (ss_visited st) \<union> (if keep i then {i} else {})"
    "\<forall>x \<in> set (npq_list (ss_best_L_nodes st1)). \<not> nb_expanded x" "ss_expanded_nodes st1 = ss_expanded_nodes st"
    by (rule admit_start_spec [OF assms(1-3) Cons.prems(1) i Cons.prems(3)])
  obtain st2 where "rfold (admit_start sp ix query keep) ids st1 = Inr st2" "search_inv sp ix query Lsize keep st2"
    "visited_set (ss_visited st2) = visited_set (ss_visited st1) \<union> set (filter keep ids)"
    "\<forall>x \<in> set (npq_list (ss_best_L_nodes st2)). \<not> nb_expanded x" "ss_expanded_nodes st2 = ss_expanded_nodes st1"
    using Cons.IH [OF s1(2) _ s1(4)] Cons.prems(2) by auto
  then show ?case using s1(1,3,5) by (intro exI [of _ st2]) auto
qed auto

lemma search_inv_size:
  assumes "search_inv sp ix query Lsize keep st"
  shows "search_measure ix st \<le> vx_total ix"
proof -
  let ?V = "visited_set (ss_visited st)" and ?q = "npq_list (ss_best_L_nodes st)"
  note inv = search_invD [OF assms]
  have "card (unexpanded (ss_best_L_nodes st)) \<le> card (set ?q)"
    unfolding unexpanded_def by (intro card_mono) auto
  also have "\<dots> \<le> length ?q" by (rule card_length)
  also have "\<dots> = length (map nb_key ?q)" by simp
  also have "\<dots> \<le> length (sorted_list_of_set (cand_key sp ix query ` ?V))" unfolding inv(5) by simp
  also have "\<dots> \<le> card ?V" using card_image_le [OF inv(7)] by simp
  finally have "card (unexpanded (ss_best_L_nodes st)) \<le> card ?V" .
  moreover have "card ?V \<le> vx_total ix" using card_mono [OF _ inv(4)] by simp
  ultimately show ?thesis by (simp add: search_measure_def)
qed

lemma iterate_spec:
  assumes "numeric sp" and "index_shape ix" and "0 < Lsize" and "\<forall>i \<in> set init. i < vx_total ix"
  obtains st where "iterate_to_fixed_point sp ix query Lsize init keep si = Inr st"
    and "search_inv sp ix query Lsize keep st" and "unexpanded (ss_best_L_nodes st) = {}"
    and "set (filter keep init) \<subseteq> visited_set (ss_visited st)" and "\<not> si \<Longrightarrow> pool_inv sp ix query st"
    and "\<And>S. edge_closed ix S \<Longrightarrow> set (filter keep init) \<subseteq> S \<Longrightarrow> visited_set (ss_visited st) \<subseteq> S"
proof -
  let ?st0 = "\<lparr>ss_best_L_nodes = npq_reserve Lsize npq_new, ss_visited = visited_new (vx_total ix),
               ss_expanded_nodes = [], ss_cmps = 0\<rparr>"
  have inv0: "search_inv sp ix query Lsize keep ?st0"
    using npq_inv_fresh [of Lsize] by (simp add: search_inv_def)
  have "\<forall>x \<in> set (npq_list (ss_best_L_nodes ?st0)). \<not> nb_expanded x"
    by (simp add: npq_inv_fresh)
  from admit_all [OF assms(1-3) inv0 assms(4) this] obtain st1 where
    s1: "rfold (admit_start sp ix query keep) init ?st0 = Inr st1" "search_inv sp ix query Lsize keep st1"
      "visited_set (ss_visited st1) = set (filter keep init)"
      "\<forall>x \<in> set (npq_list (ss_best_L_nodes st1)). \<not> nb_expanded x" "ss_expanded_nodes st1 = []"
    by auto
  have "if si then ss_expanded_nodes st1 = [] else pool_inv sp ix query st1"
    using s1(4,5) by (simp add: pool_inv_def)
  from expand_loop_spec [OF assms(1-3) s1(2) this search_inv_size [OF s1(2)]] obtain st where
    s2: "expand_loop (vx_total ix) sp ix query keep si st1 = Inr st" "search_inv sp ix query Lsize keep st"
      "unexpanded (ss_best_L_nodes st) = {}" "visited_set (ss_visited st1) \<subseteq> visited_set (ss_visited st)"
      "if si then ss_expanded_nodes st = [] else pool_inv sp ix query st"
      "\<forall>S. edge_closed ix S \<longrightarrow> visited_set (ss_visited st1) \<subseteq> S \<longrightarrow> visited_set (ss_visited st) \<subseteq> S" by blast
  show ?thesis
    using that [of st] s1(1,3) s2 by (simp add: iterate_to_fixed_point_def split: if_splits)
qed

lemma get_init_ids_range: "vx_start ix < vx_total ix \<Longrightarrow> \<forall>i \<in> set (get_init_ids ix). i < vx_total ix"
  by (auto simp: get_init_ids_def)

lemma fixed_point_closed:
  assumes "search_inv sp ix query Lsize keep st" and "unexpanded (ss_best_L_nodes st) = {}"
    and "x \<in> set (npq_list (ss_best_L_nodes st))" and "j \<in> set (adj (vx_graph_store ix) (nb_id x))" and "keep j"
  shows "j \<in> visited_set (ss_visited st)"
  using search_invD(6) [OF assms(1,3) _ assms(4,5)] assms(2,3) by (auto simp: unexpanded_def)

text \<open>Nodes that a search can reach, and what a candidate list as long as the index finds.\<close>

definition reachable :: "'v vindex \<Rightarrow> (nat \<Rightarrow> bool) \<Rightarrow> nat list \<Rightarrow> nat set" where
  "reachable ix keep init =
     {(i, j). j \<in> set (adj (vx_graph_store ix) i) \<and> keep j}\<^sup>* `` set (filter keep init)"

lemma full_list_closed:
  assumes inv: "search_inv sp ix query Lsize keep st" and "unexpanded (ss_best_L_nodes st) = {}"
    and "set (filter keep init) \<subseteq> visited_set (ss_visited st)" and "vx_total ix \<le> Lsize"
  shows "reachable ix keep init \<subseteq> visited_set (ss_visited st)"
    and "map nb_key (npq_list (ss_best_L_nodes st)) = sorted_list_of_set (cand_key sp ix query ` visited_set (ss_visited st))"
proof -
  let ?V = "visited_set (ss_visited st)"
  note i = search_invD [OF inv]
  have "card (cand_key sp ix query ` ?V) \<le> Lsize"
    using card_image_le [OF i(7), of "cand_key sp ix query"] card_mono [OF _ i(4)] assms(4) by simp
  then show keys: "map nb_key (npq_list (ss_best_L_nodes st)) = sorted_list_of_set (cand_key sp ix query ` ?V)"
    unfolding i(5) by simp
  have closed: "k \<in> ?V" if jk: "j \<in> ?V" "k \<in> set (adj (vx_graph_store ix) j)" "keep k" for j k
  proof -
    have "cand_key sp ix query j \<in> set (map nb_key (npq_list (ss_best_L_nodes st)))"
      unfolding keys using jk(1) i(7) by simp
    then obtain x where x: "x \<in> set (npq_list (ss_best_L_nodes st))" "nb_key x = cand_key sp ix query j" by auto
    then have "nb_id x = j" by (simp add: nb_key_def cand_key_def)
    then show ?thesis using fixed_point_closed [OF inv assms(2) x(1)] jk(2,3) by simp
  qed
  show "reachable ix keep init \<subseteq> ?V"
  proof
    fix y assume "y \<in> reachable ix keep init"
    then obtain x where x: "x \<in> set (filter keep init)"
      "(x, y) \<in> {(i, j). j \<in> set (adj (vx_graph_store ix) i) \<and> keep j}\<^sup>*"
      by (auto simp: reachable_def)
    from x(2) show "y \<in> ?V"
      by (induction rule: rtrancl_induct) (use x(1) assms(3) closed in auto)
  qed
qed

section \<open>Results by tag\<close>

definition tagged :: "'v vindex \<Rightarrow> fp \<times> nat \<Rightarrow> u32 \<times> fp" where
  "tagged ix k = (the (tag_at ix (snd k)), reported_distance (vx_metric ix) (fst k))"

lemma collect_tags_eq:
  assumes "length out < K" and "K \<le> cap"
  shows "collect_tags ix K cap nodes out =
    Inr (take K (out @ map (tagged ix) (filter (\<lambda>k. snd k \<in> live ix) (map nb_key nodes))))"
  using assms(1)
proof (induction nodes arbitrary: out)
  case (Cons x nodes)
  show ?case
  proof (cases "tag_at ix (nb_id x)")
    case None
    then have "snd (nb_key x) \<notin> live ix" by (simp add: nb_key_def domIff)
    then show ?thesis using None Cons by simp
  next
    case (Some tag)
    then have live: "snd (nb_key x) \<in> live ix" by (auto simp: nb_key_def)
    have tg: "tagged ix (nb_key x) = (tag, reported_distance (vx_metric ix) (nb_distance x))"
      using Some by (simp add: tagged_def nb_key_def)
    show ?thesis
    proof (cases "Suc (length out) = K")
      case True
      then have "K - length out = 1" by simp
      then show ?thesis using True Some live tg assms(2) Cons.prems by simp
    next
      case False
      let ?out = "out @ [(tag, reported_distance (vx_metric ix) (nb_distance x))]"
      have "length ?out < K" using False Cons.prems by simp
      from Cons.IH [OF this] show ?thesis
        using Some live tg False assms(2) Cons.prems by simp
    qed
  qed
qed simp

lemma filter_sorted_list_of_set:
  assumes "finite A"
  shows "filter P (sorted_list_of_set A) = sorted_list_of_set {a \<in> A. P a}"
proof -
  have "set (filter P (sorted_list_of_set A)) = {a \<in> A. P a}" using assms by simp
  moreover have "sorted (filter P (sorted_list_of_set A))" by (intro sorted_wrt_filter) simp
  moreover have "distinct (filter P (sorted_list_of_set A))" by simp
  ultimately show ?thesis using sorted_list_of_set.idem_if_sorted_distinct by metis
qed

lemma search_with_tags_eq:
  assumes "numeric sp" and "index_shape ix" and "0 < K" and "K \<le> L" and "K \<le> cap"
  obtains st where "search_inv sp ix query L (\<lambda>i. True) st" and "unexpanded (ss_best_L_nodes st) = {}"
    and "set (get_init_ids ix) \<subseteq> visited_set (ss_visited st)"
    and "search_with_tags sp ix query K L cap = Inr (take K (map (tagged ix)
      (filter (\<lambda>k. snd k \<in> live ix) (map nb_key (npq_list (ss_best_L_nodes st))))))"
proof -
  have "0 < L" "\<forall>i \<in> set (get_init_ids ix). i < vx_total ix"
    using assms(2-4) get_init_ids_range [of ix] unfolding index_shape_def by (linarith, blast)
  note start = this
  obtain st where
    st: "iterate_to_fixed_point sp ix query L (get_init_ids ix) (\<lambda>i. True) True = Inr st"
      "search_inv sp ix query L (\<lambda>i. True) st" "unexpanded (ss_best_L_nodes st) = {}"
      "set (filter (\<lambda>i. True) (get_init_ids ix)) \<subseteq> visited_set (ss_visited st)"
    using iterate_spec [OF assms(1,2) start, of query "\<lambda>i. True" True] by metis
  have "collect_tags ix K cap (npq_list (ss_best_L_nodes st)) [] = Inr (take K (map (tagged ix)
      (filter (\<lambda>k. snd k \<in> live ix) (map nb_key (npq_list (ss_best_L_nodes st))))))"
    using collect_tags_eq [of "[]" K cap ix] assms(3,5) by simp
  then have "search_with_tags sp ix query K L cap = Inr (take K (map (tagged ix)
      (filter (\<lambda>k. snd k \<in> live ix) (map nb_key (npq_list (ss_best_L_nodes st))))))"
    using assms(4) st(1) by (simp only: search_with_tags_def rbind_simps not_le [symmetric] not_True_eq_False if_False)
  then show ?thesis using that [OF st(2,3)] st(4) by simp
qed

text \<open>A list of results as the caller reads it.\<close>

definition tagged_result :: "'v space \<Rightarrow> 'v vindex \<Rightarrow> 'v \<Rightarrow> (u32 \<times> fp) list \<Rightarrow> bool" where
  "tagged_result sp ix query res \<longleftrightarrow> distinct (map fst res) \<and>
     (\<forall>(tag, d) \<in> set res. \<exists>loc. map_of (vx_tag_to_location ix) tag = Some loc \<and>
        d = reported_distance (vx_metric ix) (sp_dist sp query (vx_data_store ix ! loc))) \<and>
     (\<exists>ds. sorted ds \<and> map snd res = map (reported_distance (vx_metric ix)) ds)"

lemma tagged_result_take:
  assumes "tags_inverse ix" and "finite V"
  shows "tagged_result sp ix query (take K (map (tagged ix)
    (filter (\<lambda>k. snd k \<in> live ix) (take L (sorted_list_of_set (cand_key sp ix query ` V))))))"
proof -
  let ?ks = "take K (filter (\<lambda>k. snd k \<in> live ix) (take L (sorted_list_of_set (cand_key sp ix query ` V))))"
  have sd: "sorted ?ks" "distinct ?ks"
    by (simp_all add: sorted_wrt_take sorted_wrt_filter)
  have mem: "snd k \<in> live ix \<and> k = cand_key sp ix query (snd k)" if "k \<in> set ?ks" for k
    using that assms(2) by (auto dest!: in_set_takeD)
  have tag: "map_of (vx_tag_to_location ix) t = Some l \<longleftrightarrow> tag_at ix l = Some t" for t l
    using assms(1) unfolding tags_inverse_def by blast
  have "inj_on (\<lambda>k. the (tag_at ix (snd k))) (set ?ks)"
  proof (rule inj_onI)
    fix a b assume a: "a \<in> set ?ks" and b: "b \<in> set ?ks"
      and eq: "the (tag_at ix (snd a)) = the (tag_at ix (snd b))"
    obtain t where t: "tag_at ix (snd a) = Some t" "tag_at ix (snd b) = Some t"
      using mem [OF a] mem [OF b] eq by (auto simp: dom_def)
    then have "snd a = snd b" using tag by (metis option.inject)
    then show "a = b" using mem [OF a] mem [OF b] by metis
  qed
  then have "distinct (map fst (map (tagged ix) ?ks))"
    using sd(2) by (simp add: distinct_map tagged_def comp_def)
  moreover have "\<exists>loc. map_of (vx_tag_to_location ix) (fst r) = Some loc \<and>
      snd r = reported_distance (vx_metric ix) (sp_dist sp query (vx_data_store ix ! loc))"
    if r: "r \<in> set (map (tagged ix) ?ks)" for r
  proof -
    obtain k where k: "k \<in> set ?ks" "r = tagged ix k" using r unfolding set_map by blast
    then obtain t where t: "tag_at ix (snd k) = Some t" using mem [OF k(1)] by blast
    have "fst k = sp_dist sp query (vx_data_store ix ! snd k)"
      using arg_cong [OF conjunct2 [OF mem [OF k(1)]], of fst] by (simp add: cand_key_def)
    then show ?thesis using t tag k(2) by (intro exI [of _ "snd k"]) (simp add: tagged_def)
  qed
  moreover have "sorted (map fst ?ks)"
    unfolding sorted_map by (rule sorted_wrt_mono_rel [OF _ sd(1)]) (auto simp: less_eq_prod_def)
  ultimately show ?thesis
    unfolding tagged_result_def take_map
    by (intro conjI exI [of _ "map fst ?ks"]) (auto simp: tagged_def case_prod_beta)
qed

section \<open>Properties\<close>

text \<open>C12: The search ends at a fixed point. With distances that are numbers, edges inside the index and room for
  a candidate, \<open>iterate_to_fixed_point\<close> returns (it neither faults nor runs on), the candidate list holds in
  order the best \<open>L\<close> of the visited locations, and every kept neighbour of a candidate was visited: no
  neighbour of the list is better than the list.\<close>

theorem search_reaches_fixed_point:
  assumes "numeric sp" and "index_shape ix" and "0 < Lsize" and "\<forall>i \<in> set init. i < vx_total ix"
  shows "\<exists>st. iterate_to_fixed_point sp ix query Lsize init keep si = Inr st \<and>
    (let V = visited_set (ss_visited st); best = npq_list (ss_best_L_nodes st) in
       set (filter keep init) \<subseteq> V \<and> V \<subseteq> {..<vx_total ix} \<and>
       map nb_key best = take Lsize (sorted_list_of_set (cand_key sp ix query ` V)) \<and>
       (\<forall>x \<in> set best. \<forall>j \<in> set (adj (vx_graph_store ix) (nb_id x)). keep j \<longrightarrow> j \<in> V))"
proof -
  obtain st where st: "iterate_to_fixed_point sp ix query Lsize init keep si = Inr st"
    "search_inv sp ix query Lsize keep st" "unexpanded (ss_best_L_nodes st) = {}"
    "set (filter keep init) \<subseteq> visited_set (ss_visited st)"
    using iterate_spec [OF assms] by metis
  then show ?thesis
    using search_invD(4,5) [OF st(2)] fixed_point_closed [OF st(2,3)] unfolding Let_def by blast
qed

definition line_space :: "rat space" where
  "line_space = \<lparr>sp_dist = (\<lambda>u v. Fin (\<bar>u - v\<bar>)), sp_prep = (\<lambda>v. v), sp_zero = 0\<rparr>"

text \<open>Two points and the frozen start point, in a cycle.\<close>

definition line_index :: "rat vindex" where
  "line_index = \<lparr>vx_metric = L2, vx_max_points = 2, vx_num_frozen_pts = 1, vx_dynamic_index = True,
     vx_enable_tags = True, vx_conc_consolidate = True, vx_start = 2, vx_nd = 2,
     vx_graph_store = \<lparr>gs_graph = [[1], [0, 2], [0]], gs_max_degree = 2\<rparr>,
     vx_data_store = [1, 5, 0], vx_tag_to_location = [(7, 0), (8, 1)],
     vx_location_to_tag = \<lparr>nnm_size = 2, nnm_vector = [Some 7, Some 8], nnm_bits = [True, True]\<rparr>,
     vx_delete_set = [], vx_empty_slots = \<lparr>nns_vector = [], nns_bits = [False, False]\<rparr>,
     vx_data_compacted = True, vx_deletes_enabled = True, vx_indexing_queue_size = 4,
     vx_indexing_range = 2, vx_indexing_maxc = 750, vx_indexing_alpha = Fin 1, vx_saturate_graph = False\<rparr>"

lemma line_numeric: "numeric line_space"
  by (simp add: numeric_def line_space_def)

lemma line_shape: "index_shape line_index"
  by (auto simp: index_shape_def line_index_def less_Suc_eq numeral_3_eq_3 numeral_2_eq_2)

lemma line_init: "get_init_ids line_index = [2]"
  by (simp add: get_init_ids_def line_index_def)

lemma line_live: "tag_at line_index 0 = Some 7" "tag_at line_index (Suc 0) = Some 8" "live line_index = {0, 1}"
proof -
  have tag: "tag_at line_index i = (if i = 0 then Some 7 else if i = 1 then Some 8 else None)" for i
    by (auto simp: line_index_def nnm_try_get_def nnm_contains_def less_Suc_eq numeral_2_eq_2)
  show "tag_at line_index 0 = Some 7" "tag_at line_index (Suc 0) = Some 8" by (simp_all add: tag)
  show "live line_index = {0, 1}" by (auto simp: dom_def tag split: if_splits)
qed

lemma line_tags: "tags_inverse line_index"
proof -
  have tag: "tag_at line_index i = (if i = 0 then Some 7 else if i = 1 then Some 8 else None)" for i
    by (auto simp: line_index_def nnm_try_get_def nnm_contains_def less_Suc_eq numeral_2_eq_2)
  show ?thesis by (auto simp: tags_inverse_def tag) (auto simp: line_index_def split: if_splits)
qed

theorem search_reaches_fixed_point_witness:
  "\<exists>st. iterate_to_fixed_point line_space line_index 4 1 [2] (\<lambda>i. True) True = Inr st \<and>
     2 \<in> visited_set (ss_visited st)"
proof -
  have "\<forall>i \<in> set [2]. i < vx_total line_index" by (simp add: line_index_def)
  from search_reaches_fixed_point [OF line_numeric line_shape _ this, of 1 4 "\<lambda>i. True" True]
  show ?thesis unfolding Let_def by auto
qed

text \<open>C13: A search by tag is sound. With \<open>0 < K \<le> L\<close> and room for \<open>K\<close> results it returns at most \<open>K\<close> pairs of a
  tag and a distance, without fault: every tag is that of a live point, none occurs twice, its distance is the
  one of the point's vector to the query, and the results come in order of the distance. A lazily deleted, empty
  or frozen location is never returned.\<close>

theorem search_with_tags_sound:
  assumes "numeric sp" and "index_shape ix" and "tags_inverse ix" and "0 < K" and "K \<le> L" and "K \<le> cap"
  shows "\<exists>res. search_with_tags sp ix query K L cap = Inr res \<and> length res \<le> K \<and> tagged_result sp ix query res"
proof -
  obtain st where st: "search_inv sp ix query L (\<lambda>i. True) st"
    "search_with_tags sp ix query K L cap = Inr (take K (map (tagged ix)
      (filter (\<lambda>k. snd k \<in> live ix) (map nb_key (npq_list (ss_best_L_nodes st))))))"
    using search_with_tags_eq [OF assms(1,2,4-6), of query] by metis
  show ?thesis
    unfolding st(2) search_invD(5) [OF st(1)]
    using tagged_result_take [OF assms(3) search_invD(7) [OF st(1)]] by auto
qed

theorem search_with_tags_sound_witness:
  "search_with_tags line_space line_index 4 1 2 1 = Inr [(8, Fin 1)] \<and>
   tagged_result line_space line_index 4 [(8, Fin 1)]"
proof -
  have eval: "search_with_tags line_space line_index 4 1 2 1 = Inr [(8, Fin 1)]" by code_simp
  show ?thesis
    using search_with_tags_sound [OF line_numeric line_shape line_tags, of 1 2 1 4] eval by simp
qed

text \<open>C15: The search is exact when the candidate list is as long as the index. If every live point can be
  reached from the start points, the results are the \<open>K\<close> live points nearest to the query, in order: greedy
  search over the graph agrees with a linear scan.\<close>

theorem search_exact:
  assumes "numeric sp" and "index_shape ix" and "0 < K" and "K \<le> L" and "K \<le> cap" and "vx_total ix \<le> L"
    and "live ix \<subseteq> reachable ix (\<lambda>i. True) (get_init_ids ix)"
  shows "search_with_tags sp ix query K L cap =
    Inr (take K (map (tagged ix) (sorted_list_of_set (cand_key sp ix query ` live ix))))"
proof -
  obtain st where st: "search_inv sp ix query L (\<lambda>i. True) st" "unexpanded (ss_best_L_nodes st) = {}"
    "set (get_init_ids ix) \<subseteq> visited_set (ss_visited st)"
    "search_with_tags sp ix query K L cap = Inr (take K (map (tagged ix)
      (filter (\<lambda>k. snd k \<in> live ix) (map nb_key (npq_list (ss_best_L_nodes st))))))"
    using search_with_tags_eq [OF assms(1-5), of query] by metis
  let ?V = "visited_set (ss_visited st)"
  have init: "set (filter (\<lambda>i. True) (get_init_ids ix)) \<subseteq> ?V" using st(3) by simp
  note full = full_list_closed [OF st(1,2) init assms(6)]
  have "{k \<in> cand_key sp ix query ` ?V. snd k \<in> live ix} = cand_key sp ix query ` live ix"
    using full(1) assms(7) by (auto simp: image_iff)
  moreover have "finite (cand_key sp ix query ` ?V)" using search_invD(7) [OF st(1)] by simp
  ultimately show ?thesis
    unfolding st(4) full(2) by (simp only: filter_sorted_list_of_set)
qed

theorem search_exact_witness:
  "search_with_tags line_space line_index 4 2 3 2 =
   Inr (take 2 (map (tagged line_index) (sorted_list_of_set (cand_key line_space line_index 4 ` {0, 1}))))"
proof -
  have "(2, 0) \<in> {(i, j). j \<in> set (adj (vx_graph_store line_index) i) \<and> True}"
    "(0, 1) \<in> {(i, j). j \<in> set (adj (vx_graph_store line_index) i) \<and> True}"
    by (simp_all add: line_index_def)
  then have "{0, 1} \<subseteq> {(i, j). j \<in> set (adj (vx_graph_store line_index) i) \<and> True}\<^sup>* `` {2}"
    by (auto intro: r_into_rtrancl rtrancl_into_rtrancl)
  then have "live line_index \<subseteq> reachable line_index (\<lambda>i. True) (get_init_ids line_index)"
    unfolding reachable_def line_init line_live(3) by simp
  moreover have "vx_total line_index \<le> 3" by (simp add: line_index_def)
  ultimately show ?thesis
    using search_exact [OF line_numeric line_shape, of 2 3 2 4] line_live(3) by simp
qed

end
