(* ===== verification/GraphPrune.thy ===== *)
theory GraphPrune
  imports GraphSearch
begin

text \<open>
  How a DiskANN index chooses edges (\<open>external/DiskANN/src/index.cpp\<close>): \<open>occlude_list\<close>, \<open>prune_neighbors\<close>,
  \<open>inter_insert\<close>, \<open>search_for_point_and_prune\<close> and \<open>process_delete\<close>, in binary32 arithmetic. The rounds of
  \<open>occlude_list\<close> multiply \<open>cur_alpha\<close> by 1.2f while it is at most \<open>alpha\<close>; for a finite \<open>alpha\<close>
  512 rounds are enough, and the definition allows 600. A hash set is a list without repetitions that is
  iterated in an unspecified order, the parameter \<open>ord\<close>.
\<close>

section \<open>Pruning\<close>

abbreviation f32 :: "rat \<Rightarrow> fp" where
  "f32 \<equiv> fround binary32"

text \<open>\<open>std::max\<close>: the first argument unless it is less than the second.\<close>

definition std_max :: "fp \<Rightarrow> fp \<Rightarrow> fp" where
  "std_max a b = (if fp_lt a b then b else a)"

definition FLT_MAX :: fp where
  "FLT_MAX = fp_max binary32"

text \<open>The new occlude factor of a later candidate at distance \<open>d\<close>, \<open>djk\<close> away from the chosen one.\<close>

definition occlude_factor :: "metric \<Rightarrow> fp \<Rightarrow> fp \<Rightarrow> fp \<Rightarrow> fp \<Rightarrow> fp" where
  "occlude_factor m cur_alpha factor d djk =
     (if m = L2 \<or> m = COSINE
      then (if fp_eq djk (Fin 0) then FLT_MAX else std_max factor (fp_div binary32 d djk))
      else if m = INNER_PRODUCT
      then (if fp_lt (fp_mul binary32 cur_alpha (fp_neg d)) (fp_neg djk)
            then std_max factor (fp_add binary32 cur_alpha (f32 (1 / 100))) else factor)
      else factor)"

definition occlude_later ::
  "'v space \<Rightarrow> 'v vindex \<Rightarrow> fp \<Rightarrow> fp \<Rightarrow> neighbor list \<Rightarrow> nat \<Rightarrow> nat \<Rightarrow> fp list \<Rightarrow> fp list result" where
  "occlude_later sp ix alpha cur_alpha pool p t factors =
     (if fp_lt alpha (factors ! t) then Inr factors
      else rbind (ds_distance sp (vx_data_store ix) (nb_id (pool ! t)) (nb_id (pool ! p))) (\<lambda>djk.
        Inr (factors[t := occlude_factor (vx_metric ix) cur_alpha (factors ! t) (nb_distance (pool ! t)) djk])))"

text \<open>One position of the pool in one round.\<close>

definition occlude_visit ::
  "'v space \<Rightarrow> 'v vindex \<Rightarrow> nat \<Rightarrow> fp \<Rightarrow> nat \<Rightarrow> nat list option \<Rightarrow> fp \<Rightarrow> neighbor list \<Rightarrow> nat \<Rightarrow>
   fp list \<times> nat list \<Rightarrow> (fp list \<times> nat list) result" where
  "occlude_visit sp ix location alpha degree delete_set cur_alpha pool p st =
     (if \<not> length (snd st) < degree then Inr st
      else if fp_lt cur_alpha (fst st ! p) then Inr st
      else
        let i = nb_id (pool ! p);
            kept = (case delete_set of None \<Rightarrow> True | Some ds \<Rightarrow> i \<notin> set ds);
            res = (if kept \<and> i \<noteq> location then snd st @ [i] else snd st)
        in rbind (rfold (occlude_later sp ix alpha cur_alpha pool p) [p + 1..<length pool]
                   ((fst st)[p := FLT_MAX]))
             (\<lambda>factors. Inr (factors, res)))"

fun occlude_rounds ::
  "nat \<Rightarrow> 'v space \<Rightarrow> 'v vindex \<Rightarrow> nat \<Rightarrow> fp \<Rightarrow> nat \<Rightarrow> nat list option \<Rightarrow> neighbor list \<Rightarrow> fp \<Rightarrow>
   fp list \<times> nat list \<Rightarrow> (fp list \<times> nat list) result" where
  "occlude_rounds 0 sp ix location alpha degree delete_set pool cur_alpha st =
     (if fp_le cur_alpha alpha \<and> length (snd st) < degree then Inl Out_of_fuel else Inr st)"
| "occlude_rounds (Suc fuel) sp ix location alpha degree delete_set pool cur_alpha st =
     (if fp_le cur_alpha alpha \<and> length (snd st) < degree
      then rbind (rfold (occlude_visit sp ix location alpha degree delete_set cur_alpha pool) [0..<length pool] st)
             (occlude_rounds fuel sp ix location alpha degree delete_set pool
                (fp_mul binary32 cur_alpha (f32 (12 / 10))))
      else Inr st)"

text \<open>The pool is truncated in place, so it is part of the result. The result list is empty at first.\<close>

definition occlude_list ::
  "'v space \<Rightarrow> 'v vindex \<Rightarrow> nat \<Rightarrow> neighbor list \<Rightarrow> fp \<Rightarrow> nat \<Rightarrow> nat \<Rightarrow> nat list option \<Rightarrow>
   (neighbor list \<times> nat list) result" where
  "occlude_list sp ix location pool alpha degree maxc delete_set =
     (if pool = [] then Inr (pool, [])
      else let pool1 = (if length pool > maxc then take maxc pool else pool)
           in rbind (occlude_rounds 600 sp ix location alpha degree delete_set pool1 (Fin 1)
                       (replicate (length pool1) (Fin 0), []))
                (\<lambda>st. Inr (pool1, snd st)))"

text \<open>\<open>std::sort\<close> with \<open>operator<\<close>, which is no strict weak order when a distance is NaN.\<close>

definition sort_pool :: "neighbor list \<Rightarrow> neighbor list result" where
  "sort_pool pool =
     (if \<forall>x \<in> set pool. nb_num x then Inr (sort_key nb_key pool)
      else Inl (Undefined ''std::sort without a strict weak order''))"

definition saturate_step :: "nat \<Rightarrow> nat \<Rightarrow> neighbor \<Rightarrow> nat list \<Rightarrow> nat list" where
  "saturate_step location rng node pruned =
     (if length pruned \<ge> rng then pruned
      else if nb_id node \<notin> set pruned \<and> nb_id node \<noteq> location then pruned @ [nb_id node] else pruned)"

definition prune_neighbors ::
  "'v space \<Rightarrow> 'v vindex \<Rightarrow> nat \<Rightarrow> neighbor list \<Rightarrow> nat \<Rightarrow> nat \<Rightarrow> fp \<Rightarrow> nat list result" where
  "prune_neighbors sp ix location pool rng max_candidate_size alpha =
     (if pool = [] then Inr []
      else rbind (sort_pool pool) (\<lambda>pool1.
           rbind (occlude_list sp ix location pool1 alpha rng max_candidate_size None) (\<lambda>(pool2, pruned).
             Inr (if vx_saturate_graph ix \<and> fp_lt (Fin 1) alpha
                  then fold (saturate_step location rng) pool2 pruned else pruned))))"

definition search_for_point_and_prune :: "'v space \<Rightarrow> 'v vindex \<Rightarrow> nat \<Rightarrow> nat \<Rightarrow> nat list result" where
  "search_for_point_and_prune sp ix location Lindex =
     rbind (ds_get (vx_data_store ix) location) (\<lambda>query.
     rbind (iterate_to_fixed_point sp ix query Lindex (get_init_ids ix) (\<lambda>i. True) False) (\<lambda>st.
       prune_neighbors sp ix location (filter (\<lambda>x. nb_id x \<noteq> location) (ss_expanded_nodes st))
         (vx_indexing_range ix) (vx_indexing_maxc ix) (vx_indexing_alpha ix)))"

section \<open>Back edges\<close>

text \<open>\<open>(uint64_t)(GRAPH_SLACK_FACTOR * rng)\<close>, in single precision.\<close>

definition slack_bound :: "nat \<Rightarrow> nat result" where
  "slack_bound rng = fp_to_size (fp_mul binary32 (f32 (13 / 10)) (fp_of_nat binary32 rng))"

definition dummy_step :: "'v space \<Rightarrow> 'v vindex \<Rightarrow> nat \<Rightarrow> nat \<Rightarrow> nat list \<times> neighbor list \<Rightarrow>
    (nat list \<times> neighbor list) result" where
  "dummy_step sp ix des cur_nbr st =
     (if cur_nbr \<notin> set (fst st) \<and> cur_nbr \<noteq> des
      then rbind (ds_distance sp (vx_data_store ix) des cur_nbr) (\<lambda>dist.
             Inr (fst st @ [cur_nbr], snd st @ [nb_new cur_nbr dist]))
      else Inr st)"

definition inter_insert_one :: "'v space \<Rightarrow> nat \<Rightarrow> nat \<Rightarrow> nat \<Rightarrow> 'v vindex \<Rightarrow> 'v vindex result" where
  "inter_insert_one sp n rng des ix =
     rbind (gs_get_neighbours (vx_graph_store ix) des) (\<lambda>des_pool.
       if n \<in> set des_pool then Inr ix
       else rbind (slack_bound rng) (\<lambda>bound.
         if length des_pool < bound
         then rbind (gs_add_neighbour des n (vx_graph_store ix)) (\<lambda>g. Inr (ix\<lparr>vx_graph_store := g\<rparr>))
         else rbind (rfold (dummy_step sp ix des) (des_pool @ [n]) ([], [])) (\<lambda>(visited, dummy_pool).
              rbind (prune_neighbors sp ix des dummy_pool (vx_indexing_range ix) (vx_indexing_maxc ix)
                       (vx_indexing_alpha ix)) (\<lambda>new_out_neighbors.
              rbind (gs_set_neighbours des new_out_neighbors (vx_graph_store ix)) (\<lambda>g.
                Inr (ix\<lparr>vx_graph_store := g\<rparr>))))))"

definition inter_insert :: "'v space \<Rightarrow> nat \<Rightarrow> nat list \<Rightarrow> 'v vindex \<Rightarrow> 'v vindex result" where
  "inter_insert sp n pruned_list ix =
     rfold (inter_insert_one sp n (vx_indexing_range ix)) pruned_list ix"

section \<open>Repair after a deletion\<close>

definition gather_step :: "graph_store \<Rightarrow> nat list \<Rightarrow> nat \<Rightarrow> nat \<Rightarrow> bool \<times> nat list \<Rightarrow> (bool \<times> nat list) result" where
  "gather_step g old loc ngh st =
     (if ngh \<notin> set old then Inr (fst st, List.insert ngh (snd st))
      else rbind (gs_get_neighbours g ngh) (\<lambda>nbrs.
        Inr (True, fold List.insert (filter (\<lambda>j. j \<noteq> loc \<and> j \<notin> set old) nbrs) (snd st))))"

definition process_delete ::
  "(nat list \<Rightarrow> nat list) \<Rightarrow> 'v space \<Rightarrow> nat list \<Rightarrow> nat \<Rightarrow> nat \<Rightarrow> fp \<Rightarrow> nat \<Rightarrow> 'v vindex \<Rightarrow> 'v vindex result" where
  "process_delete ord sp old rng maxc alpha loc ix =
     rbind (gs_get_neighbours (vx_graph_store ix) loc) (\<lambda>adj_list.
     rbind (rfold (gather_step (vx_graph_store ix) old loc) adj_list (False, [])) (\<lambda>(modify, expanded).
       if \<not> modify then Inr ix
       else if length expanded \<le> rng
       then rbind (gs_clear_neighbours loc (vx_graph_store ix)) (\<lambda>g1.
            rbind (rfold (\<lambda>ngh. gs_add_neighbour loc ngh) (ord expanded) g1) (\<lambda>g2.
              Inr (ix\<lparr>vx_graph_store := g2\<rparr>)))
       else rbind (rmap (\<lambda>ngh. rbind (ds_distance sp (vx_data_store ix) loc ngh) (\<lambda>d. Inr (nb_new ngh d)))
                     (ord expanded)) (\<lambda>pool.
            rbind (sort_pool pool) (\<lambda>pool1.
            rbind (occlude_list sp ix loc pool1 alpha rng maxc (Some old)) (\<lambda>(pool2, out).
            rbind (gs_set_neighbours loc out (vx_graph_store ix)) (\<lambda>g.
              Inr (ix\<lparr>vx_graph_store := g\<rparr>)))))))"

section \<open>The rounds end\<close>

lemma f32_constants:
  "f32 (12 / 10) = Fin (10066330 / 8388608)" "f32 (13 / 10) = Fin (10905190 / 8388608)"
  by code_simp+

lemma round_pos_lower:
  assumes "1 \<le> x"
  shows "x * (1 - 1 / 2 ^ 23) \<le> round_pos binary32 x"
proof -
  have x: "0 < x" using assms by simp
  have "\<not> flog2 x < 0" using flog2_le_iff [OF x, of 0] assms by simp
  then have u: "ulp_exp binary32 x = flog2 x - 23" by (simp add: ulp_exp_def binary32_def)
  let ?u = "2 powi (flog2 x - 23) :: rat"
  have up: "0 < ?u" by (rule powi2_pos)
  have "?u = 2 powi flog2 x / 2 powi 23" by (rule powi2_diff)
  then have "?u = 2 powi flog2 x / 2 ^ 23" by simp
  then have ux: "?u \<le> x / 2 ^ 23" using flog2_bounds(1) [OF x] by simp
  have "x / ?u - 1 \<le> of_int \<lfloor>x / ?u\<rfloor>" by linarith
  also have "\<dots> \<le> of_int (rhe (x / ?u))" using rhe_floor(1) by simp
  finally have "(x / ?u - 1) * ?u \<le> of_int (rhe (x / ?u)) * ?u" using up by (simp add: mult_right_mono)
  moreover have "(x / ?u - 1) * ?u = x - ?u" using up by (simp add: left_diff_distrib)
  ultimately have "x - ?u \<le> round_pos binary32 x" by (simp only: round_pos_def u)
  moreover have "x * (1 - 1 / 2 ^ 23) = x - x / 2 ^ 23" by (simp add: algebra_simps)
  ultimately show ?thesis using ux by linarith
qed

lemma alpha_grows:
  assumes "1 \<le> c"
  shows "fp_mul binary32 (Fin c) (f32 (12 / 10)) = PInf \<or>
    (\<exists>c'. fp_mul binary32 (Fin c) (f32 (12 / 10)) = Fin c' \<and> 119 / 100 * c \<le> c' \<and> c' < 2 ^ 128)"
proof -
  let ?x = "c * (10066330 / 8388608)"
  have x: "1 \<le> ?x" using assms by simp
  have "119 / 100 * c \<le> ?x * (1 - 1 / 2 ^ 23)" using assms by simp
  also have "\<dots> \<le> round_pos binary32 ?x" by (rule round_pos_lower [OF x])
  finally have lower: "119 / 100 * c \<le> round_pos binary32 ?x" .
  have rat: "round_rat binary32 ?x = round_pos binary32 ?x" using x by (simp add: round_rat_def)
  have "0 < round_pos binary32 ?x" using lower assms by linarith
  then have "\<not> round_pos binary32 ?x \<le> - (2 powi emax binary32)"
    using powi2_pos [of "emax binary32"] by linarith
  moreover have "(2::rat) powi emax binary32 = 2 ^ 128" by (simp add: binary32_def)
  moreover have "fp_mul binary32 (Fin c) (f32 (12 / 10)) = fround binary32 ?x"
    by (simp only: f32_constants fp_mul.simps)
  ultimately show ?thesis
    using lower unfolding fround_def rat Let_def by (cases "2 ^ 128 \<le> round_pos binary32 ?x") simp_all
qed

lemma FLT_MAX_less: "fp_lt a FLT_MAX \<Longrightarrow> fp_le (Fin c) a \<Longrightarrow> c < 2 ^ 128"
proof -
  assume a: "fp_lt a FLT_MAX" "fp_le (Fin c) a"
  have max: "FLT_MAX = Fin ((2 ^ 24 - 1) * 2 powi 104)" by (simp add: FLT_MAX_def fp_max_def binary32_def)
  have "((2::rat) ^ 24 - 1) * 2 powi 104 < 2 ^ 128" by simp
  then show "c < 2 ^ 128"
    using a unfolding max by (cases a) (auto simp: fp_lt_def fp_le_def less_fp_def)
qed

lemma enough_rounds: "(2::rat) ^ 128 \<le> (119 / 100) ^ 600"
proof -
  have "(2::rat) ^ 128 \<le> ((119 / 100) ^ 4) ^ 128" by (rule power_mono) (simp_all add: power_divide)
  also have "\<dots> = (119 / 100) ^ 512" by (simp add: power_mult [symmetric])
  also have "\<dots> \<le> (119 / 100) ^ 600" by (rule power_increasing) simp_all
  finally show ?thesis .
qed

section \<open>What pruning keeps\<close>

definition allowed :: "nat \<Rightarrow> nat list option \<Rightarrow> nat \<Rightarrow> bool" where
  "allowed location delete_set i \<longleftrightarrow> i \<noteq> location \<and> (case delete_set of None \<Rightarrow> True | Some ds \<Rightarrow> i \<notin> set ds)"

text \<open>A chosen candidate occludes a later one that is no closer to the location than to the chosen one.\<close>

definition occludes :: "'v space \<Rightarrow> 'v vindex \<Rightarrow> neighbor \<Rightarrow> neighbor \<Rightarrow> bool" where
  "occludes sp ix a b \<longleftrightarrow>
     (let djk = sp_dist sp (vx_data_store ix ! nb_id b) (vx_data_store ix ! nb_id a)
      in fp_eq djk (Fin 0) \<or> fp_lt (Fin 1) (fp_div binary32 (nb_distance b) djk))"

text \<open>\<open>A\<close>: the positions chosen so far.\<close>

definition occl_inv ::
  "'v space \<Rightarrow> 'v vindex \<Rightarrow> nat \<Rightarrow> nat \<Rightarrow> nat list option \<Rightarrow> neighbor list \<Rightarrow> nat set \<Rightarrow> fp list \<times> nat list \<Rightarrow> bool" where
  "occl_inv sp ix location degree ds pool A st \<longleftrightarrow>
     length (fst st) = length pool \<and> distinct (snd st) \<and> length (snd st) \<le> degree \<and>
     (\<forall>p \<in> A. p < length pool \<and> fst st ! p = FLT_MAX) \<and>
     set (snd st) = {i. allowed location ds i \<and> (\<exists>p \<in> A. i = nb_id (pool ! p))} \<and>
     (vx_metric ix = L2 \<or> vx_metric ix = COSINE \<longrightarrow>
        (\<forall>t < length pool. t \<notin> A \<longrightarrow> fp_lt (Fin 1) (fst st ! t) \<longrightarrow>
          (\<exists>p \<in> A. p < t \<and> occludes sp ix (pool ! p) (pool ! t))))"

lemma later_all:
  assumes "distinct ts" and "\<forall>t \<in> set ts. t < length pool" and "p < length pool" and "length factors = length pool"
    and "\<forall>x \<in> set pool. nb_id x < length (vx_data_store ix)"
  shows "\<exists>factors'. rfold (occlude_later sp ix alpha cur pool p) ts factors = Inr factors' \<and>
    length factors' = length pool \<and>
    (\<forall>t < length pool. factors' ! t =
      (if t \<in> set ts \<and> \<not> fp_lt alpha (factors ! t)
       then occlude_factor (vx_metric ix) cur (factors ! t) (nb_distance (pool ! t))
              (sp_dist sp (vx_data_store ix ! nb_id (pool ! t)) (vx_data_store ix ! nb_id (pool ! p)))
       else factors ! t))"
  using assms(1,2,4)
proof (induction ts arbitrary: factors)
  case (Cons u ts)
  have u: "u < length pool" using Cons.prems(2) by simp
  have ids: "nb_id (pool ! u) < length (vx_data_store ix)" "nb_id (pool ! p) < length (vx_data_store ix)"
    using assms(3,5) u by simp_all
  define f1 where "f1 = (if fp_lt alpha (factors ! u) then factors
    else factors[u := occlude_factor (vx_metric ix) cur (factors ! u) (nb_distance (pool ! u))
           (sp_dist sp (vx_data_store ix ! nb_id (pool ! u)) (vx_data_store ix ! nb_id (pool ! p)))])"
  have step: "occlude_later sp ix alpha cur pool p u factors = Inr f1"
    using ids by (simp add: occlude_later_def f1_def)
  have len: "length f1 = length pool" using Cons.prems(3) by (simp add: f1_def)
  obtain f2 where f2: "rfold (occlude_later sp ix alpha cur pool p) ts f1 = Inr f2" "length f2 = length pool"
    "\<forall>t < length pool. f2 ! t =
      (if t \<in> set ts \<and> \<not> fp_lt alpha (f1 ! t)
       then occlude_factor (vx_metric ix) cur (f1 ! t) (nb_distance (pool ! t))
              (sp_dist sp (vx_data_store ix ! nb_id (pool ! t)) (vx_data_store ix ! nb_id (pool ! p)))
       else f1 ! t)"
    using Cons.IH [of f1] Cons.prems(1,2) len by auto
  have f1: "f1 ! t = (if t = u \<and> \<not> fp_lt alpha (factors ! u)
      then occlude_factor (vx_metric ix) cur (factors ! u) (nb_distance (pool ! u))
           (sp_dist sp (vx_data_store ix ! nb_id (pool ! u)) (vx_data_store ix ! nb_id (pool ! p)))
      else factors ! t)" if "t < length pool" for t
    using that Cons.prems(3) by (simp add: f1_def)
  have "u \<notin> set ts" using Cons.prems(1) by simp
  then show ?case
    using step f2 f1 by (intro exI [of _ f2]) (auto simp: Cons.prems(1))
qed simp

lemma occlude_factor_mono:
  assumes "fp_lt cur factor" and "\<not> fp_lt alpha factor" and "fp_lt alpha FLT_MAX"
  shows "fp_lt cur (occlude_factor m c factor d djk)"
proof -
  have "fp_lt factor FLT_MAX"
    using assms by (auto simp: fp_lt_def)
  then have max: "fp_lt cur FLT_MAX" using assms(1) by (auto simp: fp_lt_def)
  have "fp_lt cur (std_max factor x)" for x
    using assms(1) by (auto simp: std_max_def fp_lt_def)
  then show ?thesis using max assms(1) by (simp add: occlude_factor_def)
qed

lemma occlude_factor_raises:
  assumes "m = L2 \<or> m = COSINE" and "fp_lt (Fin 1) (occlude_factor m c factor d djk)" and "\<not> fp_lt (Fin 1) factor"
  shows "fp_eq djk (Fin 0) \<or> fp_lt (Fin 1) (fp_div binary32 d djk)"
  using assms by (auto simp: occlude_factor_def std_max_def split: if_splits)

lemma visit_spec:
  assumes inv: "occl_inv sp ix location degree ds pool A st" and p: "p < length pool"
    and ids: "\<forall>x \<in> set pool. nb_id x < length (vx_data_store ix)" and dist: "distinct (map nb_id pool)"
    and alpha: "fp_lt alpha FLT_MAX" and cur: "fp_le cur alpha"
  shows "\<exists>st' A'. occlude_visit sp ix location alpha degree ds cur pool p st = Inr st' \<and>
    occl_inv sp ix location degree ds pool A' st' \<and> A \<subseteq> A' \<and> length (snd st) \<le> length (snd st') \<and>
    (\<forall>t < length pool. fp_lt cur (fst st ! t) \<longrightarrow> fp_lt cur (fst st' ! t)) \<and>
    (length (snd st) < degree \<and> \<not> fp_lt cur (fst st ! p) \<longrightarrow> p \<in> A') \<and>
    (length (snd st) < degree \<longrightarrow> p \<in> A' \<or> fp_lt cur (fst st' ! p))"
proof (cases "length (snd st) < degree \<and> \<not> fp_lt cur (fst st ! p)")
  case False
  then show ?thesis
    using inv by (intro exI [of _ st] exI [of _ A]) (auto simp: occlude_visit_def)
next
  case True
  let ?n = "length pool" and ?i = "nb_id (pool ! p)" and ?f0 = "(fst st)[p := FLT_MAX]"
  define res where "res = (if allowed location ds ?i then snd st @ [?i] else snd st)"
  have res_eq: "(if (case ds of None \<Rightarrow> True | Some ds \<Rightarrow> ?i \<notin> set ds) \<and> ?i \<noteq> location then snd st @ [?i] else snd st) = res"
    by (auto simp: res_def allowed_def)
  note i = inv [unfolded occl_inv_def]
  have len: "length ?f0 = ?n" using i by simp
  have "fp_lt cur FLT_MAX" using cur alpha by (auto simp: fp_le_def fp_lt_def)
  then have pA: "p \<notin> A" using i True by auto
  obtain f1 where f1: "rfold (occlude_later sp ix alpha cur pool p) [p + 1..<?n] ?f0 = Inr f1" "length f1 = ?n"
    "\<forall>t < ?n. f1 ! t = (if t \<in> set [p + 1..<?n] \<and> \<not> fp_lt alpha (?f0 ! t)
       then occlude_factor (vx_metric ix) cur (?f0 ! t) (nb_distance (pool ! t))
              (sp_dist sp (vx_data_store ix ! nb_id (pool ! t)) (vx_data_store ix ! nb_id (pool ! p)))
       else ?f0 ! t)"
    using later_all [OF _ _ p len ids, of "[p + 1..<?n]" sp alpha cur] by (auto simp del: upt_Suc)
  have visit: "occlude_visit sp ix location alpha degree ds cur pool p st = Inr (f1, res)"
    using True f1(1) unfolding occlude_visit_def Let_def res_eq by simp
  have old: "?f0 ! t = fst st ! t" if "t \<noteq> p" for t using that by simp
  have keep: "f1 ! t = FLT_MAX" if t: "t \<in> insert p A" for t
  proof (cases "t = p")
    case True
    then show ?thesis using f1(3) p len i by simp
  next
    case False
    then have "t \<in> A" "t < ?n" "fst st ! t = FLT_MAX" using t i by auto
    then show ?thesis using f1(3) old [OF False] alpha by simp
  qed
  have mono: "fp_lt cur (f1 ! t)" if t: "t < ?n" "fp_lt cur (fst st ! t)" for t
  proof -
    have "t \<noteq> p" using t True by blast
    then show ?thesis
      using f1(3) t old [of t] occlude_factor_mono [OF t(2) _ alpha] by auto
  qed
  have occ: "\<exists>q \<in> insert p A. q < t \<and> occludes sp ix (pool ! q) (pool ! t)"
    if t: "t < ?n" "t \<notin> insert p A" "fp_lt (Fin 1) (f1 ! t)" and m: "vx_metric ix = L2 \<or> vx_metric ix = COSINE" for t
  proof (cases "fp_lt (Fin 1) (fst st ! t)")
    case True
    then show ?thesis using i m t by blast
  next
    case False
    have "t \<noteq> p" using t(2) by blast
    then have "f1 ! t \<noteq> fst st ! t" using t(3) False by auto
    then have "p < t" "f1 ! t = occlude_factor (vx_metric ix) cur (fst st ! t) (nb_distance (pool ! t))
        (sp_dist sp (vx_data_store ix ! nb_id (pool ! t)) (vx_data_store ix ! nb_id (pool ! p)))"
      using f1(3) t(1) \<open>t \<noteq> p\<close> by (auto split: if_splits)
    then have "p < t" "occludes sp ix (pool ! p) (pool ! t)"
      using occlude_factor_raises [OF m _ False] t(3) unfolding occludes_def Let_def by auto
    then show ?thesis by blast
  qed
  have new: "?i \<notin> set (snd st)"
  proof
    assume "?i \<in> set (snd st)"
    then obtain q where "q \<in> A" "?i = nb_id (pool ! q)" using i by auto
    then have "q = p" using dist p i nth_eq_iff_index_eq [OF dist, of p q] by auto
    then show False using pA \<open>q \<in> A\<close> by simp
  qed
  have "set res = {j. allowed location ds j \<and> (\<exists>q \<in> insert p A. j = nb_id (pool ! q))}"
    using i by (auto simp: res_def)
  moreover have "distinct res" "length res \<le> degree" "length (snd st) \<le> length res"
    using i new True by (auto simp: res_def)
  ultimately have "occl_inv sp ix location degree ds pool (insert p A) (f1, res)"
    unfolding occl_inv_def using f1(2) keep p i occ by auto
  then show ?thesis
    using visit mono \<open>length (snd st) \<le> length res\<close>
    by (intro exI [of _ "(f1, res)"] exI [of _ "insert p A"]) auto
qed

lemma round_spec:
  assumes "occl_inv sp ix location degree ds pool A st" and "\<forall>p \<in> set ps. p < length pool"
    and ids: "\<forall>x \<in> set pool. nb_id x < length (vx_data_store ix)" and dist: "distinct (map nb_id pool)"
    and alpha: "fp_lt alpha FLT_MAX" and cur: "fp_le cur alpha"
  shows "\<exists>st' A'. rfold (occlude_visit sp ix location alpha degree ds cur pool) ps st = Inr st' \<and>
    occl_inv sp ix location degree ds pool A' st' \<and> A \<subseteq> A' \<and> length (snd st) \<le> length (snd st') \<and>
    (\<forall>t < length pool. fp_lt cur (fst st ! t) \<longrightarrow> fp_lt cur (fst st' ! t)) \<and>
    (ps \<noteq> [] \<and> length (snd st) < degree \<and> \<not> fp_lt cur (fst st ! hd ps) \<longrightarrow> hd ps \<in> A') \<and>
    (length (snd st') < degree \<longrightarrow> (\<forall>p \<in> set ps. p \<in> A' \<or> fp_lt cur (fst st' ! p)))"
  using assms(1,2)
proof (induction ps arbitrary: st A)
  case Nil
  then show ?case by auto
next
  case (Cons p ps)
  have p: "p < length pool" "\<forall>p \<in> set ps. p < length pool" using Cons.prems(2) by simp_all
  obtain s1 A1 where s1: "occlude_visit sp ix location alpha degree ds cur pool p st = Inr s1"
    "occl_inv sp ix location degree ds pool A1 s1" "A \<subseteq> A1" "length (snd st) \<le> length (snd s1)"
    "\<forall>t < length pool. fp_lt cur (fst st ! t) \<longrightarrow> fp_lt cur (fst s1 ! t)"
    "length (snd st) < degree \<and> \<not> fp_lt cur (fst st ! p) \<longrightarrow> p \<in> A1"
    "length (snd st) < degree \<longrightarrow> p \<in> A1 \<or> fp_lt cur (fst s1 ! p)"
    using visit_spec [OF Cons.prems(1) p(1) ids dist alpha cur] by blast
  obtain s2 A2 where s2: "rfold (occlude_visit sp ix location alpha degree ds cur pool) ps s1 = Inr s2"
    "occl_inv sp ix location degree ds pool A2 s2" "A1 \<subseteq> A2" "length (snd s1) \<le> length (snd s2)"
    "\<forall>t < length pool. fp_lt cur (fst s1 ! t) \<longrightarrow> fp_lt cur (fst s2 ! t)"
    "length (snd s2) < degree \<longrightarrow> (\<forall>p \<in> set ps. p \<in> A2 \<or> fp_lt cur (fst s2 ! p))"
    using Cons.IH [OF s1(2) p(2)] by blast
  have "length (snd s2) < degree \<longrightarrow> p \<in> A2 \<or> fp_lt cur (fst s2 ! p)"
    using s1(4,7) s2(3,4,5) p(1) by (meson le_less_trans subsetD)
  moreover have "length (snd st) < degree \<and> \<not> fp_lt cur (fst st ! p) \<longrightarrow> p \<in> A2"
    using s1(6) s2(3) by blast
  ultimately show ?case
    using s1(1,3,4,5) s2 by (intro exI [of _ s2] exI [of _ A2]) auto
qed

lemma rounds_spec:
  assumes "occl_inv sp ix location degree ds pool A st"
    and "cur = PInf \<or> (\<exists>c. cur = Fin c \<and> 1 \<le> c \<and> 2 ^ 128 \<le> c * (119 / 100) ^ fuel)"
    and ids: "\<forall>x \<in> set pool. nb_id x < length (vx_data_store ix)" and dist: "distinct (map nb_id pool)"
    and alpha: "fp_lt alpha FLT_MAX"
  shows "\<exists>st' A'. occlude_rounds fuel sp ix location alpha degree ds pool cur st = Inr st' \<and>
    occl_inv sp ix location degree ds pool A' st' \<and> A \<subseteq> A' \<and>
    (pool \<noteq> [] \<and> fp_le cur alpha \<and> length (snd st) < degree \<and> \<not> fp_lt cur (fst st ! 0) \<longrightarrow> 0 \<in> A') \<and>
    (fp_le cur alpha \<and> length (snd st') < degree \<longrightarrow>
      (\<forall>t < length pool. t \<in> A' \<or> fp_lt (Fin 1) (fst st' ! t)))"
  using assms(1,2)
proof (induction fuel arbitrary: st A cur)
  case 0
  have "\<not> fp_le cur alpha"
  proof
    assume le: "fp_le cur alpha"
    then obtain c where c: "cur = Fin c" "2 ^ 128 \<le> c"
      using 0(2) alpha by (cases alpha) (auto simp: fp_le_def fp_lt_def less_fp_def)
    then show False using FLT_MAX_less [OF alpha, of c] le by simp
  qed
  then show ?case using 0(1) by (intro exI [of _ st] exI [of _ A]) simp
next
  case (Suc fuel)
  show ?case
  proof (cases "fp_le cur alpha \<and> length (snd st) < degree")
    case False
    then show ?thesis using Suc.prems(1) by (intro exI [of _ st] exI [of _ A]) auto
  next
    case True
    then obtain c where c: "cur = Fin c" "1 \<le> c" "2 ^ 128 \<le> c * (119 / 100) ^ Suc fuel"
      using Suc.prems(2) alpha by (cases alpha) (auto simp: fp_le_def fp_lt_def less_fp_def)
    let ?next = "fp_mul binary32 cur (f32 (12 / 10))"
    have grow: "?next = PInf \<or> (\<exists>c. ?next = Fin c \<and> 1 \<le> c \<and> 2 ^ 128 \<le> c * (119 / 100) ^ fuel)"
    proof -
      have "1 \<le> c' \<and> 2 ^ 128 \<le> c' * (119 / 100) ^ fuel" if c': "119 / 100 * c \<le> c'" for c'
      proof -
        have "c * (119 / 100) ^ Suc fuel = (119 / 100 * c) * (119 / 100) ^ fuel" by simp
        also have "\<dots> \<le> c' * (119 / 100) ^ fuel" by (rule mult_right_mono [OF c']) simp
        finally show ?thesis using c(2,3) c' by linarith
      qed
      then show ?thesis using alpha_grows [OF c(2)] unfolding c(1) by blast
    qed
    have range: "\<forall>p \<in> set [0..<length pool]. p < length pool" by simp
    obtain s1 A1 where s1: "rfold (occlude_visit sp ix location alpha degree ds cur pool) [0..<length pool] st = Inr s1"
      "occl_inv sp ix location degree ds pool A1 s1" "A \<subseteq> A1"
      "[0..<length pool] \<noteq> [] \<and> length (snd st) < degree \<and> \<not> fp_lt cur (fst st ! hd [0..<length pool]) \<longrightarrow>
         hd [0..<length pool] \<in> A1"
      "length (snd s1) < degree \<longrightarrow> (\<forall>p \<in> set [0..<length pool]. p \<in> A1 \<or> fp_lt cur (fst s1 ! p))"
      using round_spec [OF Suc.prems(1) range ids dist alpha conjunct1 [OF True]] by blast
    obtain s2 A2 where s2: "occlude_rounds fuel sp ix location alpha degree ds pool ?next s1 = Inr s2"
      "occl_inv sp ix location degree ds pool A2 s2" "A1 \<subseteq> A2"
      "fp_le ?next alpha \<and> length (snd s2) < degree \<longrightarrow>
         (\<forall>t < length pool. t \<in> A2 \<or> fp_lt (Fin 1) (fst s2 ! t))"
      using Suc.IH [OF s1(2) grow] by blast
    have rounds: "occlude_rounds (Suc fuel) sp ix location alpha degree ds pool cur st = Inr s2"
      using True s1(1) s2(1) by simp
    have one: "fp_lt (Fin 1) f" if "fp_lt cur f" for f
      using that c(1,2) by (cases f) (auto simp: fp_lt_def less_fp_def)
    have final: "\<forall>t < length pool. t \<in> A2 \<or> fp_lt (Fin 1) (fst s2 ! t)" if less: "length (snd s2) < degree"
    proof (cases "fp_le ?next alpha \<and> length (snd s1) < degree")
      case True
      then show ?thesis using s2(4) less by blast
    next
      case False
      then have "occlude_rounds fuel sp ix location alpha degree ds pool ?next s1 = Inr s1"
        by (cases fuel) auto
      then have "s2 = s1" using s2(1) by simp
      then show ?thesis using s1(5) s2(3) less one by auto
    qed
    have "pool \<noteq> [] \<and> \<not> fp_lt cur (fst st ! 0) \<longrightarrow> 0 \<in> A2"
      using s1(4) True s2(3) by (auto simp: hd_conv_nth)
    then show ?thesis using rounds s1(3) s2(2,3) final True
      by (intro exI [of _ s2] exI [of _ A2]) blast
  qed
qed

text \<open>The contract of \<open>occlude_list\<close>.\<close>

definition pruned_from ::
  "'v space \<Rightarrow> 'v vindex \<Rightarrow> nat \<Rightarrow> nat list option \<Rightarrow> nat \<Rightarrow> neighbor list \<Rightarrow> nat list \<Rightarrow> bool" where
  "pruned_from sp ix location ds degree pool res \<longleftrightarrow>
     distinct res \<and> length res \<le> degree \<and> set res \<subseteq> {nb_id x |x. x \<in> set pool \<and> allowed location ds (nb_id x)}"

lemma occlude_list_spec:
  assumes ids: "\<forall>x \<in> set pool. nb_id x < length (vx_data_store ix)" and dist: "distinct (map nb_id pool)"
    and alpha: "fp_lt alpha FLT_MAX"
  obtains res where "occlude_list sp ix location pool alpha degree maxc ds = Inr (take maxc pool, res)"
    and "pruned_from sp ix location ds degree (take maxc pool) res"
    and "fp_le (Fin 1) alpha \<Longrightarrow> 0 < degree \<Longrightarrow> take maxc pool \<noteq> [] \<Longrightarrow>
      allowed location ds (nb_id (hd pool)) \<Longrightarrow> nb_id (hd pool) \<in> set res"
    and "fp_le (Fin 1) alpha \<Longrightarrow> vx_metric ix = L2 \<or> vx_metric ix = COSINE \<Longrightarrow> length res < degree \<Longrightarrow>
      \<exists>A. (\<forall>p \<in> A. p < length (take maxc pool) \<and> (allowed location ds (nb_id (pool ! p)) \<longrightarrow> nb_id (pool ! p) \<in> set res)) \<and>
        (\<forall>t < length (take maxc pool). t \<in> A \<or> (\<exists>p \<in> A. p < t \<and> occludes sp ix (pool ! p) (pool ! t)))"
proof (cases "pool = []")
  case True
  show ?thesis
    by (rule that [of "[]"]) (simp_all add: True occlude_list_def pruned_from_def)
next
  case False
  let ?pool = "take maxc pool"
  let ?st0 = "(replicate (length ?pool) (Fin 0), []) :: fp list \<times> nat list"
  have pool1: "(if length pool > maxc then take maxc pool else pool) = ?pool" by simp
  have ids1: "\<forall>x \<in> set ?pool. nb_id x < length (vx_data_store ix)" using ids by (auto dest: in_set_takeD)
  have dist1: "distinct (map nb_id ?pool)" using dist by (simp add: distinct_take flip: take_map)
  have inv0: "occl_inv sp ix location degree ds ?pool {} ?st0"
    by (auto simp: occl_inv_def fp_lt_def less_fp_def)
  have cur0: "Fin 1 = PInf \<or> (\<exists>c. Fin 1 = Fin c \<and> 1 \<le> c \<and> 2 ^ 128 \<le> c * (119 / 100) ^ 600)"
    using enough_rounds by simp
  obtain st A where st: "occlude_rounds 600 sp ix location alpha degree ds ?pool (Fin 1) ?st0 = Inr st"
    "occl_inv sp ix location degree ds ?pool A st"
    "?pool \<noteq> [] \<and> fp_le (Fin 1) alpha \<and> length (snd ?st0) < degree \<and> \<not> fp_lt (Fin 1) (fst ?st0 ! 0) \<longrightarrow> 0 \<in> A"
    "fp_le (Fin 1) alpha \<and> length (snd st) < degree \<longrightarrow>
      (\<forall>t < length ?pool. t \<in> A \<or> fp_lt (Fin 1) (fst st ! t))"
    using rounds_spec [OF inv0 cur0 ids1 dist1 alpha] by blast
  note i = st(2) [unfolded occl_inv_def]
  have nth: "?pool ! p = pool ! p" if "p \<in> A" for p using that i by simp
  have mem: "nb_id (pool ! p) \<in> set (snd st)" if "p \<in> A" "allowed location ds (nb_id (pool ! p))" for p
    using that i nth [OF that(1)] by auto
  show ?thesis
  proof (rule that [of "snd st"])
    show "occlude_list sp ix location pool alpha degree maxc ds = Inr (?pool, snd st)"
      using False st(1) unfolding occlude_list_def Let_def pool1 by simp
    show "pruned_from sp ix location ds degree ?pool (snd st)"
    proof -
      have "set (snd st) \<subseteq> {nb_id x |x. x \<in> set ?pool \<and> allowed location ds (nb_id x)}"
      proof
        fix j assume "j \<in> set (snd st)"
        then obtain p where p: "p \<in> A" "j = nb_id (?pool ! p)" "allowed location ds j" using i by auto
        have "?pool ! p \<in> set ?pool" using p(1) i by (intro nth_mem) simp
        then show "j \<in> {nb_id x |x. x \<in> set ?pool \<and> allowed location ds (nb_id x)}" using p(2,3) by blast
      qed
      then show ?thesis using i unfolding pruned_from_def by simp
    qed
    show "nb_id (hd pool) \<in> set (snd st)"
      if "fp_le (Fin 1) alpha" "0 < degree" "?pool \<noteq> []" "allowed location ds (nb_id (hd pool))"
    proof -
      have "0 \<in> A" using st(3) that(1-3) by (simp add: fp_lt_def less_fp_def)
      then show ?thesis using mem [of 0] that(4) False by (simp add: hd_conv_nth)
    qed
    show "\<exists>A. (\<forall>p \<in> A. p < length ?pool \<and> (allowed location ds (nb_id (pool ! p)) \<longrightarrow> nb_id (pool ! p) \<in> set (snd st))) \<and>
        (\<forall>t < length ?pool. t \<in> A \<or> (\<exists>p \<in> A. p < t \<and> occludes sp ix (pool ! p) (pool ! t)))"
      if a: "fp_le (Fin 1) alpha" and m: "vx_metric ix = L2 \<or> vx_metric ix = COSINE" and less: "length (snd st) < degree"
    proof (intro exI [of _ A] conjI ballI allI impI)
      fix t assume t: "t < length ?pool"
      show "t \<in> A \<or> (\<exists>p \<in> A. p < t \<and> occludes sp ix (pool ! p) (pool ! t))"
      proof (cases "t \<in> A")
        case False
        then have "fp_lt (Fin 1) (fst st ! t)" using st(4) a less t by blast
        then have "\<exists>p \<in> A. p < t \<and> occludes sp ix (?pool ! p) (?pool ! t)" using i m t False by blast
        then show ?thesis using nth t by (metis nth_take length_take min_less_iff_conj)
      qed blast
    qed (use i mem in auto)
  qed
qed

lemma occlude_list_short:
  assumes "\<forall>x \<in> set pool. nb_id x < length (vx_data_store ix)" and "distinct (map nb_id pool)"
    and "fp_lt alpha FLT_MAX"
  obtains res where "occlude_list sp ix location pool alpha degree maxc ds = Inr (take maxc pool, res)"
    and "pruned_from sp ix location ds degree (take maxc pool) res"
  by (rule occlude_list_spec [OF assms])

section \<open>Pruning a pool, and the edges of the index\<close>

lemma sort_pool_Inr:
  assumes "\<forall>x \<in> set pool. nb_num x"
  shows "sort_pool pool = Inr (sort_key nb_key pool)" and "set (sort_key nb_key pool) = set pool"
    and "distinct (map nb_id pool) \<Longrightarrow> distinct (map nb_id (sort_key nb_key pool))"
  using assms by (simp_all add: sort_pool_def distinct_map)

lemma saturate_fold:
  assumes "pruned_from sp ix location None rng pool res" and "set nodes \<subseteq> set pool"
  shows "pruned_from sp ix location None rng pool (fold (saturate_step location rng) nodes res)"
  using assms
proof (induction nodes arbitrary: res)
  case (Cons x nodes)
  have "pruned_from sp ix location None rng pool (saturate_step location rng x res)"
    using Cons.prems by (auto simp: pruned_from_def saturate_step_def allowed_def)
  then show ?case using Cons by simp
qed simp

lemma saturate_grows: "set res \<subseteq> set (fold (saturate_step location rng) nodes res)"
proof (induction nodes arbitrary: res)
  case (Cons x nodes)
  have "set res \<subseteq> set (saturate_step location rng x res)" by (auto simp: saturate_step_def)
  then show ?case using Cons.IH [of "saturate_step location rng x res"] by simp
qed simp

lemma prune_neighbors_spec:
  assumes "\<forall>x \<in> set pool. nb_id x < length (vx_data_store ix) \<and> nb_num x" and "distinct (map nb_id pool)"
    and "fp_lt alpha FLT_MAX"
  obtains res where "prune_neighbors sp ix location pool rng maxc alpha = Inr res"
    and "distinct res" and "length res \<le> rng" and "set res \<subseteq> nb_id ` set pool - {location}"
    and "fp_le (Fin 1) alpha \<Longrightarrow> 0 < rng \<Longrightarrow> 0 < maxc \<Longrightarrow> pool \<noteq> [] \<Longrightarrow> location \<notin> nb_id ` set pool \<Longrightarrow> res \<noteq> []"
proof (cases "pool = []")
  case True
  show ?thesis by (rule that [of "[]"]) (simp_all add: True prune_neighbors_def)
next
  case False
  have num: "\<forall>x \<in> set pool. nb_num x" using assms(1) by blast
  note sorted = sort_pool_Inr [OF num]
  let ?pool = "sort_key nb_key pool"
  have ids: "\<forall>x \<in> set ?pool. nb_id x < length (vx_data_store ix)" using assms(1) sorted(2) by simp
  obtain res where res: "occlude_list sp ix location ?pool alpha rng maxc None = Inr (take maxc ?pool, res)"
    "pruned_from sp ix location None rng (take maxc ?pool) res"
    "fp_le (Fin 1) alpha \<Longrightarrow> 0 < rng \<Longrightarrow> take maxc ?pool \<noteq> [] \<Longrightarrow>
      allowed location None (nb_id (hd ?pool)) \<Longrightarrow> nb_id (hd ?pool) \<in> set res"
    using occlude_list_spec [OF ids sorted(3) [OF assms(2)] assms(3)] by metis
  let ?res = "if vx_saturate_graph ix \<and> fp_lt (Fin 1) alpha
    then fold (saturate_step location rng) (take maxc ?pool) res else res"
  have from_pool: "pruned_from sp ix location None rng (take maxc ?pool) ?res"
    using res(2) saturate_fold [OF res(2)] by simp
  have grows: "set res \<subseteq> set ?res" using saturate_grows by auto
  have sub: "set (take maxc ?pool) \<subseteq> set pool" using set_take_subset sorted(2) by metis
  show ?thesis
  proof (rule that [of ?res])
    show "prune_neighbors sp ix location pool rng maxc alpha = Inr ?res"
      using False sorted(1) res(1) by (simp add: prune_neighbors_def)
    show "distinct ?res" "length ?res \<le> rng" using from_pool by (simp_all only: pruned_from_def)
    have "set ?res \<subseteq> {nb_id x |x. x \<in> set (take maxc ?pool) \<and> allowed location None (nb_id x)}"
      using from_pool unfolding pruned_from_def by blast
    also have "\<dots> \<subseteq> nb_id ` set pool - {location}" using sub by (auto simp: allowed_def)
    finally show "set ?res \<subseteq> nb_id ` set pool - {location}" .
    show "?res \<noteq> []" if "fp_le (Fin 1) alpha" "0 < rng" "0 < maxc" "location \<notin> nb_id ` set pool"
    proof -
      have ne: "?pool \<noteq> []" using False sorted(2) by (metis set_empty)
      then have "hd ?pool \<in> set pool" using sorted(2) by (metis hd_in_set)
      then have al: "allowed location None (nb_id (hd ?pool))" using that(4) by (auto simp: allowed_def)
      have "take maxc ?pool \<noteq> []" using ne that(3) by (metis less_numeral_extra(3) take_eq_Nil)
      from res(3) [OF that(1,2) this al] have "nb_id (hd ?pool) \<in> set res" .
      from subsetD [OF grows this] show ?thesis by (rule in_set_not_Nil)
    qed
  qed
qed

lemma slack_bound_Inr:
  assumes "n < 2 ^ 32"
  obtains b where "slack_bound n = Inr b"
proof -
  have "(of_nat n :: rat) \<le> of_nat (2 ^ 32)" using assms by (intro of_nat_mono) simp
  then have "(of_nat n :: rat) \<le> 2 ^ 32" by simp
  then obtain x where x: "fp_of_nat binary32 n = Fin x" "0 \<le> x" "x \<le> 2 ^ 32"
    using fround_between [of "of_nat n" 32] by (auto simp: fp_of_nat_def)
  obtain c where c: "fround binary32 (13 / 10) = Fin c" "0 \<le> c" "c \<le> 2 ^ 1"
    using fround_between [of "13 / 10" 1] by auto
  have "c * x \<le> 2 ^ 1 * 2 ^ 32" using x c by (intro mult_mono) auto
  then have "c * x \<le> 2 ^ 33" by simp
  moreover have "0 \<le> c * x" using x c by simp
  ultimately obtain y where y: "fround binary32 (c * x) = Fin y" "0 \<le> y" "y \<le> 2 ^ 33"
    using fround_between [of "c * x" 33] by auto
  have "y < 2 ^ 64" using y(3) by (rule le_less_trans) simp
  then show ?thesis using that x c y by (simp add: slack_bound_def)
qed
text \<open>
  \<open>graph_ok D S\<close>: all edges stay inside the index, and between the locations of \<open>S\<close> every adjacency list has distinct targets, no loop and
  at most \<open>D\<close> entries.
\<close>

definition graph_ok :: "nat \<Rightarrow> nat set \<Rightarrow> 'v vindex \<Rightarrow> bool" where
  "graph_ok D S ix \<longleftrightarrow> S \<subseteq> {..<vx_total ix} \<and> index_shape ix \<and>
     (\<forall>i \<in> S. distinct (adj (vx_graph_store ix) i) \<and> set (adj (vx_graph_store ix) i) \<subseteq> S - {i} \<and>
        length (adj (vx_graph_store ix) i) \<le> D)"

text \<open>The degrees a configuration allows: \<open>range\<close>, or the slack bound where back edges are added.\<close>

definition degree_bound :: "'v vindex \<Rightarrow> nat \<Rightarrow> bool" where
  "degree_bound ix D \<longleftrightarrow> vx_indexing_range ix \<le> D \<and> (\<exists>b \<le> D. slack_bound (vx_indexing_range ix) = Inr b)"

definition params_ok :: "'v vindex \<Rightarrow> bool" where
  "params_ok ix \<longleftrightarrow> 0 < vx_indexing_queue_size ix \<and> fp_lt (vx_indexing_alpha ix) FLT_MAX"

lemma graph_ok_set:
  assumes "graph_ok D S ix" and "i < vx_total ix" and "gs_graph g = (gs_graph (vx_graph_store ix))[i := ns]"
    and "set ns \<subseteq> {..<vx_total ix}" and "i \<in> S \<Longrightarrow> distinct ns \<and> set ns \<subseteq> S - {i} \<and> length ns \<le> D"
  shows "graph_ok D S (ix\<lparr>vx_graph_store := g\<rparr>)"
proof -
  have len: "i < gs_len (vx_graph_store ix)" using assms(1,2) by (simp add: graph_ok_def index_shape_def)
  have "adj g j = (if j = i then ns else adj (vx_graph_store ix) j)" for j
    using len by (simp add: assms(3))
  then show ?thesis using assms(1,4,5) by (auto simp: graph_ok_def index_shape_def assms(3))
qed

lemma dummy_all:
  assumes "numeric sp" and "des < length (vx_data_store ix)" and "\<forall>x \<in> set xs. x < length (vx_data_store ix)"
  obtains vis pool where "rfold (dummy_step sp ix des) xs ([], []) = Inr (vis, pool)" and "map nb_id pool = vis"
    and "distinct vis" and "set vis = set xs - {des}" and "\<forall>x \<in> set pool. nb_num x"
proof -
  have "\<exists>vis pool. rfold (dummy_step sp ix des) xs st = Inr (vis, pool) \<and> map nb_id pool = vis \<and> distinct vis \<and>
      set vis = set (fst st) \<union> (set xs - {des}) \<and> (\<forall>x \<in> set pool. nb_num x)"
    if "map nb_id (snd st) = fst st" "distinct (fst st)" "\<forall>x \<in> set (snd st). nb_num x" for st
    using assms(3) that
  proof (induction xs arbitrary: st)
    case Nil
    then show ?case by (cases st) auto
  next
    case (Cons x xs)
    show ?case
    proof (cases "x \<notin> set (fst st) \<and> x \<noteq> des")
      case True
      let ?st = "(fst st @ [x], snd st @ [nb_new x (sp_dist sp (vx_data_store ix ! des) (vx_data_store ix ! x))])"
      have step: "dummy_step sp ix des x st = Inr ?st"
        using True Cons.prems(1) assms(2) by (simp add: dummy_step_def)
      have "map nb_id (snd ?st) = fst ?st" "distinct (fst ?st)" "\<forall>x \<in> set (snd ?st). nb_num x"
        using Cons.prems(2-4) True assms(1) by (auto simp: nb_new_def nb_num_def numeric_def)
      with Cons.IH [of ?st] Cons.prems(1) show ?thesis
        using step True by (auto simp: insert_Diff_if)
    next
      case False
      then have "dummy_step sp ix des x st = Inr st" unfolding dummy_step_def by (metis (full_types))
      moreover have "set (fst st) \<union> (set xs - {des}) = set (fst st) \<union> (set (x # xs) - {des})"
        using False by auto
      ultimately show ?thesis using Cons.IH [of st] Cons.prems by simp
    qed
  qed
  from this [of "([], [])"] show ?thesis using that by auto
qed

lemma inter_insert_one_spec:
  assumes "graph_ok D S ix" and "numeric sp" and "params_ok ix" and "degree_bound ix D"
    and "des \<in> S" and "n \<in> S" and "n \<noteq> des"
  obtains g where "inter_insert_one sp n (vx_indexing_range ix) des ix = Inr (ix\<lparr>vx_graph_store := g\<rparr>)"
    and "graph_ok D S (ix\<lparr>vx_graph_store := g\<rparr>)"
    and "\<forall>i \<in> S. set (adj g i) \<subseteq> insert n (set (adj (vx_graph_store ix) i))"
proof -
  let ?g = "vx_graph_store ix"
  have upd: "\<forall>i \<in> S. set (adj g i) \<subseteq> insert n (set (adj ?g i))"
    if "gs_graph g = (gs_graph ?g)[des := ns]" "set ns \<subseteq> insert n (set (adj ?g des))" for g :: graph_store and ns
    using that by (cases "des < gs_len ?g") (auto simp: nth_list_update list_update_beyond)
  have S: "S \<subseteq> {..<vx_total ix}" "vx_total ix \<le> length (vx_data_store ix)" "vx_total ix \<le> gs_len ?g"
    and des: "distinct (adj ?g des)" "set (adj ?g des) \<subseteq> S - {des}" "length (adj ?g des) \<le> D"
    using assms(1,5) by (auto simp: graph_ok_def index_shape_def)
  have d: "des < vx_total ix" "des < gs_len ?g" "des < length (vx_data_store ix)" using S assms(5) by auto
  obtain b where b: "b \<le> D" "slack_bound (vx_indexing_range ix) = Inr b" "vx_indexing_range ix \<le> D"
    using assms(4) by (auto simp: degree_bound_def)
  consider "n \<in> set (adj ?g des)" | "n \<notin> set (adj ?g des)" "length (adj ?g des) < b"
    | "n \<notin> set (adj ?g des)" "\<not> length (adj ?g des) < b" by blast
  then show ?thesis
  proof cases
    case 1
    then show ?thesis using that [of ?g] d(2) assms(1) by (auto simp: inter_insert_one_def)
  next
    case 2
    obtain g where g: "gs_add_neighbour des n ?g = Inr g" "gs_graph g = (gs_graph ?g)[des := adj ?g des @ [n]]"
      using gs_ops_Inr(2) [OF d(2), of n] by blast
    have "graph_ok D S (ix\<lparr>vx_graph_store := g\<rparr>)"
      using des 2 assms(6,7) b(1) S(1) by (intro graph_ok_set [OF assms(1) d(1) g(2)]) auto
    then show ?thesis using that [of g] upd [OF g(2)] 2 d(2) b(2) g(1) by (auto simp: inter_insert_one_def)
  next
    case 3
    have ids: "\<forall>x \<in> set (adj ?g des @ [n]). x < length (vx_data_store ix)"
      using des(2) S assms(6) by auto
    obtain vis pool where dp: "rfold (dummy_step sp ix des) (adj ?g des @ [n]) ([], []) = Inr (vis, pool)"
      "map nb_id pool = vis" "distinct vis" "set vis = set (adj ?g des @ [n]) - {des}" "\<forall>x \<in> set pool. nb_num x"
      by (rule dummy_all [OF assms(2) d(3) ids])
    have pool: "nb_id ` set pool = set (adj ?g des @ [n]) - {des}" using dp(2,4) by (metis list.set_map)
    then have range: "\<forall>x \<in> set pool. nb_id x < length (vx_data_store ix) \<and> nb_num x"
      using ids dp(5) by (metis DiffD1 imageI)
    have alpha: "fp_lt (vx_indexing_alpha ix) FLT_MAX" using assms(3) by (simp add: params_ok_def)
    obtain res where res: "prune_neighbors sp ix des pool (vx_indexing_range ix) (vx_indexing_maxc ix)
        (vx_indexing_alpha ix) = Inr res" "distinct res" "length res \<le> vx_indexing_range ix"
      "set res \<subseteq> nb_id ` set pool - {des}"
      using prune_neighbors_spec [OF range dp(3) [folded dp(2)] alpha] by metis
    obtain g where g: "gs_set_neighbours des res ?g = Inr g" "gs_graph g = (gs_graph ?g)[des := res]"
      using gs_ops_Inr(1) [OF d(2), of res] by blast
    have "graph_ok D S (ix\<lparr>vx_graph_store := g\<rparr>)"
      using res(2,3,4) des(2) assms(6) b(3) S(1) unfolding pool
      by (intro graph_ok_set [OF assms(1) d(1) g(2)]) auto
    moreover have "set res \<subseteq> insert n (set (adj ?g des))" using res(4) unfolding pool by auto
    ultimately show ?thesis
      using that [of g] upd [OF g(2)] 3 d(2) b(2) dp(1) res(1) g(1) by (simp add: inter_insert_one_def)
  qed
qed

lemma inter_insert_spec:
  assumes "graph_ok D S ix" and "numeric sp" and "params_ok ix" and "degree_bound ix D"
    and "n \<in> S" and "set ps \<subseteq> S - {n}"
  obtains g where "inter_insert sp n ps ix = Inr (ix\<lparr>vx_graph_store := g\<rparr>)"
    and "graph_ok D S (ix\<lparr>vx_graph_store := g\<rparr>)"
    and "\<forall>i \<in> S. set (adj g i) \<subseteq> insert n (set (adj (vx_graph_store ix) i))"
proof -
  let ?sub = "\<lambda>g. \<forall>i \<in> S. set (adj g i) \<subseteq> insert n (set (adj (vx_graph_store ix) i))"
  have "\<exists>ix'. rfold (inter_insert_one sp n (vx_indexing_range ix)) ps ix = Inr ix' \<and>
      ((\<exists>g. ix' = ix\<lparr>vx_graph_store := g\<rparr> \<and> ?sub g) \<and> graph_ok D S ix')"
  proof (rule rfold_total)
    show "(\<exists>g. ix = ix\<lparr>vx_graph_store := g\<rparr> \<and> ?sub g) \<and> graph_ok D S ix"
      using assms(1) by (intro conjI exI [of _ "vx_graph_store ix"]) auto
    fix des s assume des: "des \<in> set ps"
      and s: "(\<exists>g. s = ix\<lparr>vx_graph_store := g\<rparr> \<and> ?sub g) \<and> graph_ok D S s"
    then obtain g where g: "s = ix\<lparr>vx_graph_store := g\<rparr>" "?sub g" by blast
    have "params_ok s" "degree_bound s D" using assms(3,4) by (simp_all add: g(1) params_ok_def degree_bound_def)
    moreover have "des \<in> S" "n \<noteq> des" using des assms(6) by auto
    ultimately obtain g' where "inter_insert_one sp n (vx_indexing_range s) des s = Inr (s\<lparr>vx_graph_store := g'\<rparr>)"
      "graph_ok D S (s\<lparr>vx_graph_store := g'\<rparr>)" "\<forall>i \<in> S. set (adj g' i) \<subseteq> insert n (set (adj (vx_graph_store s) i))"
      using inter_insert_one_spec [of D S s sp des n] s assms(2,5) by metis
    moreover from this(3) have "?sub g'" using g(2) unfolding g(1) by fastforce
    ultimately show "\<exists>s'. inter_insert_one sp n (vx_indexing_range ix) des s = Inr s' \<and>
        ((\<exists>g. s' = ix\<lparr>vx_graph_store := g\<rparr> \<and> ?sub g) \<and> graph_ok D S s')"
      unfolding g(1) by auto
  qed
  then obtain ix' g where "rfold (inter_insert_one sp n (vx_indexing_range ix)) ps ix = Inr ix'"
    "ix' = ix\<lparr>vx_graph_store := g\<rparr>" "?sub g" "graph_ok D S ix'" by blast
  then show ?thesis using that [of g] by (simp add: inter_insert_def)
qed

lemma visited_nonempty_list:
  assumes "search_inv sp ix query Lsize keep st" and "0 < Lsize" and "visited_set (ss_visited st) \<noteq> {}"
  shows "npq_list (ss_best_L_nodes st) \<noteq> []"
proof -
  have "sorted_list_of_set (cand_key sp ix query ` visited_set (ss_visited st)) \<noteq> []"
    using search_invD(7) [OF assms(1)] assms(3) by simp
  then have "map nb_key (npq_list (ss_best_L_nodes st)) \<noteq> []"
    unfolding search_invD(5) [OF assms(1)] using assms(2) by simp
  then show ?thesis by blast
qed

lemma search_for_point_and_prune_spec:
  assumes "graph_ok D S ix" and "numeric sp" and "params_ok ix" and "0 < Lindex"
    and "location < vx_total ix" and "location \<notin> S" and "set (get_init_ids ix) \<subseteq> S"
  obtains res where "search_for_point_and_prune sp ix location Lindex = Inr res" and "distinct res"
    and "length res \<le> vx_indexing_range ix" and "set res \<subseteq> S"
    and "fp_le (Fin 1) (vx_indexing_alpha ix) \<Longrightarrow> 0 < vx_indexing_range ix \<Longrightarrow> 0 < vx_indexing_maxc ix \<Longrightarrow> res \<noteq> []"
proof -
  let ?q = "vx_data_store ix ! location"
  have shape: "index_shape ix" and S: "S \<subseteq> {..<vx_total ix}" using assms(1) by (simp_all add: graph_ok_def)
  have closed: "edge_closed ix S" using assms(1) by (auto simp: graph_ok_def edge_closed_def)
  have init: "\<forall>i \<in> set (get_init_ids ix). i < vx_total ix" using assms(7) S by blast
  have alpha: "fp_lt (vx_indexing_alpha ix) FLT_MAX" using assms(3) by (simp add: params_ok_def)
  obtain st where st: "iterate_to_fixed_point sp ix ?q Lindex (get_init_ids ix) (\<lambda>i. True) False = Inr st"
    "search_inv sp ix ?q Lindex (\<lambda>i. True) st" "unexpanded (ss_best_L_nodes st) = {}"
    "set (filter (\<lambda>i. True) (get_init_ids ix)) \<subseteq> visited_set (ss_visited st)" "pool_inv sp ix ?q st"
    "visited_set (ss_visited st) \<subseteq> S"
  proof (rule iterate_spec [OF assms(2) shape assms(4) init, of ?q "\<lambda>i. True" False])
    fix st
    assume a: "iterate_to_fixed_point sp ix ?q Lindex (get_init_ids ix) (\<lambda>i. True) False = Inr st"
      "search_inv sp ix ?q Lindex (\<lambda>i. True) st" "unexpanded (ss_best_L_nodes st) = {}"
      "set (filter (\<lambda>i. True) (get_init_ids ix)) \<subseteq> visited_set (ss_visited st)"
      "\<not> False \<Longrightarrow> pool_inv sp ix ?q st"
      "\<And>S. edge_closed ix S \<Longrightarrow> set (filter (\<lambda>i. True) (get_init_ids ix)) \<subseteq> S \<Longrightarrow> visited_set (ss_visited st) \<subseteq> S"
    have "set (filter (\<lambda>i. True) (get_init_ids ix)) \<subseteq> S" using assms(7) by simp
    from that [OF a(1-4) a(5) a(6) [OF closed this]] show thesis by simp
  qed
  let ?pool = "ss_expanded_nodes st"
  have "filter (\<lambda>x. nb_id x \<noteq> location) ?pool = ?pool"
    using st(5,6) assms(6) unfolding pool_inv_def filter_id_conv by blast
  then have eq: "search_for_point_and_prune sp ix location Lindex =
      prune_neighbors sp ix location ?pool (vx_indexing_range ix) (vx_indexing_maxc ix) (vx_indexing_alpha ix)"
    using st(1) assms(5) shape by (simp add: search_for_point_and_prune_def index_shape_def)
  have pool: "nb_id x \<in> S" "nb_num x" if x: "x \<in> set ?pool" for x
  proof -
    show "nb_id x \<in> S" using st(5,6) x unfolding pool_inv_def by blast
    have "nb_key x = cand_key sp ix ?q (nb_id x)" using st(5) x unfolding pool_inv_def by blast
    then show "nb_num x" using assms(2) by (simp add: nb_key_def cand_key_def nb_num_def numeric_def)
  qed
  have range: "\<forall>x \<in> set ?pool. nb_id x < length (vx_data_store ix) \<and> nb_num x"
  proof (intro ballI conjI)
    fix x assume x: "x \<in> set ?pool"
    then have "nb_id x < vx_total ix" using pool(1) S by blast
    then show "nb_id x < length (vx_data_store ix)" using shape by (simp add: index_shape_def)
    show "nb_num x" by (rule pool(2) [OF x])
  qed
  have dist: "distinct (map nb_id ?pool)" using st(5) by (simp add: pool_inv_def)
  have ne: "?pool \<noteq> []"
  proof -
    have "visited_set (ss_visited st) \<noteq> {}" using st(4) by (auto simp: get_init_ids_def)
    then have "npq_list (ss_best_L_nodes st) \<noteq> []" by (rule visited_nonempty_list [OF st(2) assms(4)])
    then obtain y where y: "y \<in> set (npq_list (ss_best_L_nodes st))" by (meson list.set_sel(1))
    then have "nb_expanded y" using st(3) by (auto simp: unexpanded_def)
    then have "nb_id y \<in> nb_id ` set ?pool" using st(5) y unfolding pool_inv_def by blast
    then show ?thesis by auto
  qed
  have loc: "location \<notin> nb_id ` set ?pool" using pool(1) assms(6) by blast
  obtain res where res: "prune_neighbors sp ix location ?pool (vx_indexing_range ix) (vx_indexing_maxc ix)
      (vx_indexing_alpha ix) = Inr res" "distinct res" "length res \<le> vx_indexing_range ix"
    "set res \<subseteq> nb_id ` set ?pool - {location}"
    "fp_le (Fin 1) (vx_indexing_alpha ix) \<Longrightarrow> 0 < vx_indexing_range ix \<Longrightarrow> 0 < vx_indexing_maxc ix \<Longrightarrow>
      ?pool \<noteq> [] \<Longrightarrow> location \<notin> nb_id ` set ?pool \<Longrightarrow> res \<noteq> []"
    using prune_neighbors_spec [OF range dist alpha] by metis
  show ?thesis
    by (rule that [OF eq [unfolded res(1)] res(2,3)]) (use res(4) pool(1) res(5) ne loc in blast)+
qed

section \<open>Repair\<close>

definition ord_ok :: "(nat list \<Rightarrow> nat list) \<Rightarrow> bool" where
  "ord_ok ord \<longleftrightarrow> (\<forall>xs. distinct xs \<longrightarrow> distinct (ord xs) \<and> set (ord xs) = set xs)"

text \<open>The candidates of a repair: the surviving neighbours, and those of the deleted neighbours.\<close>

definition repair_set :: "graph_store \<Rightarrow> nat list \<Rightarrow> nat \<Rightarrow> nat list \<Rightarrow> nat set" where
  "repair_set g old loc adj_list =
     (set adj_list - set old) \<union> (\<Union>ngh \<in> set adj_list \<inter> set old. {j \<in> set (adj g ngh). j \<noteq> loc \<and> j \<notin> set old})"

lemma fold_insert_set: "distinct xs \<Longrightarrow> distinct (fold List.insert ys xs) \<and> set (fold List.insert ys xs) = set xs \<union> set ys"
  by (induction ys arbitrary: xs) auto

lemma gather_all:
  assumes "\<forall>ngh \<in> set adj_list. ngh < gs_len g" and "distinct expanded"
  shows "\<exists>expanded'. rfold (gather_step g old loc) adj_list (modify, expanded) =
      Inr (modify \<or> set adj_list \<inter> set old \<noteq> {}, expanded') \<and> distinct expanded' \<and>
    set expanded' = set expanded \<union> repair_set g old loc adj_list"
  using assms
proof (induction adj_list arbitrary: modify expanded)
  case (Cons ngh adj_list)
  let ?js = "filter (\<lambda>j. j \<noteq> loc \<and> j \<notin> set old) (adj g ngh)"
  let ?e = "if ngh \<in> set old then fold List.insert ?js expanded else List.insert ngh expanded"
  have step: "gather_step g old loc ngh (modify, expanded) = Inr (modify \<or> ngh \<in> set old, ?e)"
    using Cons.prems(1) by (simp add: gather_step_def)
  have e: "distinct ?e" "set ?e = set expanded \<union> (if ngh \<in> set old then set ?js else {ngh})"
    using fold_insert_set [OF Cons.prems(2), of ?js] Cons.prems(2) by auto
  obtain e' where e': "rfold (gather_step g old loc) adj_list (modify \<or> ngh \<in> set old, ?e) =
      Inr ((modify \<or> ngh \<in> set old) \<or> set adj_list \<inter> set old \<noteq> {}, e')" "distinct e'"
    "set e' = set ?e \<union> repair_set g old loc adj_list"
    using Cons.IH [OF _ e(1), of "modify \<or> ngh \<in> set old"] Cons.prems(1) by auto
  have rs: "repair_set g old loc (ngh # adj_list) =
      (if ngh \<in> set old then set ?js else {ngh}) \<union> repair_set g old loc adj_list"
    by (auto simp: repair_set_def)
  have "((modify \<or> ngh \<in> set old) \<or> set adj_list \<inter> set old \<noteq> {}) = (modify \<or> set (ngh # adj_list) \<inter> set old \<noteq> {})"
    by auto
  then show ?case
    using step e' e(2) unfolding rs by (intro exI [of _ e']) (simp add: Un_assoc)
qed (simp add: repair_set_def)

lemma add_all:
  assumes "loc < gs_len g"
  shows "\<exists>g'. rfold (gs_add_neighbour loc) ns g = Inr g' \<and> gs_graph g' = (gs_graph g)[loc := adj g loc @ ns]"
  using assms
proof (induction ns arbitrary: g)
  case (Cons x ns)
  obtain g1 where g1: "gs_add_neighbour loc x g = Inr g1" "gs_graph g1 = (gs_graph g)[loc := adj g loc @ [x]]"
    using gs_ops_Inr(2) [OF Cons.prems] by blast
  then obtain g2 where "rfold (gs_add_neighbour loc) ns g1 = Inr g2"
    "gs_graph g2 = (gs_graph g1)[loc := adj g1 loc @ ns]"
    using Cons.IH [of g1] Cons.prems by auto
  then show ?case using g1 Cons.prems by (intro exI [of _ g2]) simp
qed simp

lemma process_delete_spec:
  assumes "graph_ok D S ix" and "numeric sp" and "fp_lt alpha FLT_MAX" and "rng \<le> D" and "ord_ok ord"
    and "set old \<subseteq> S" and "loc \<in> S"
  obtains g ns where "process_delete ord sp old rng maxc alpha loc ix = Inr (ix\<lparr>vx_graph_store := g\<rparr>)"
    and "gs_graph g = (gs_graph (vx_graph_store ix))[loc := ns]"
    and "set ns \<subseteq> S - {loc} - set old" and "distinct ns" and "length ns \<le> D"
    and "set ns \<subseteq> repair_set (vx_graph_store ix) old loc (adj (vx_graph_store ix) loc)"
proof -
  let ?g = "vx_graph_store ix" and ?adj = "adj (vx_graph_store ix) loc"
  have S: "S \<subseteq> {..<vx_total ix}" and shape: "vx_total ix \<le> length (vx_data_store ix)" "vx_total ix \<le> gs_len ?g"
    and nb: "\<And>i. i \<in> S \<Longrightarrow> distinct (adj ?g i) \<and> set (adj ?g i) \<subseteq> S - {i} \<and> length (adj ?g i) \<le> D"
    using assms(1) by (auto simp: graph_ok_def index_shape_def)
  have loc: "loc < gs_len ?g" "loc < length (vx_data_store ix)" using S shape assms(7) by auto
  have "\<forall>ngh \<in> set ?adj. ngh < gs_len ?g" using nb [OF assms(7)] S shape by force
  from gather_all [OF this, of "[]" old loc False] obtain e where
    e: "rfold (gather_step ?g old loc) ?adj (False, []) = Inr (set ?adj \<inter> set old \<noteq> {}, e)" "distinct e"
      "set e = repair_set ?g old loc ?adj" by auto
  have eS: "set e \<subseteq> S - {loc} - set old"
    unfolding e(3) repair_set_def using nb [OF assms(7)] nb assms(6) by blast
  show ?thesis
  proof (cases "set ?adj \<inter> set old = {}")
    case True
    have "set ?adj \<subseteq> repair_set ?g old loc ?adj" using True by (auto simp: repair_set_def)
    then show ?thesis
      using that [of ?g ?adj] loc(1) e(1) True nb [OF assms(7)] by (auto simp: process_delete_def)
  next
    case False
    have ord: "distinct (ord e)" "set (ord e) = set e" using assms(5) e(2) by (simp_all add: ord_ok_def)
    show ?thesis
    proof (cases "length e \<le> rng")
      case True
      obtain g1 where g1: "gs_clear_neighbours loc ?g = Inr g1" "gs_graph g1 = (gs_graph ?g)[loc := []]"
        using gs_ops_Inr(3) [OF loc(1)] by blast
      obtain g2 where g2: "rfold (gs_add_neighbour loc) (ord e) g1 = Inr g2" "gs_graph g2 = (gs_graph ?g)[loc := ord e]"
        using add_all [of loc g1 "ord e"] g1(2) loc(1) by auto
      have "length (ord e) \<le> D" using True assms(4) ord e(2) by (metis distinct_card le_trans)
      then show ?thesis
        using that [OF _ g2(2)] loc(1) e(1,3) False True g1(1) g2(1) ord eS by (simp add: process_delete_def)
    next
      case False': False
      let ?f = "\<lambda>ngh. nb_new ngh (sp_dist sp (vx_data_store ix ! loc) (vx_data_store ix ! ngh))"
      have inr: "ngh < length (vx_data_store ix)" if "ngh \<in> set (ord e)" for ngh
        using that ord(2) eS S shape by force
      have pool: "rmap (\<lambda>ngh. rbind (ds_distance sp (vx_data_store ix) loc ngh) (\<lambda>d. Inr (nb_new ngh d))) (ord e) =
          Inr (map ?f (ord e))"
        using inr loc(2) by (intro rmap_Inr) simp
      let ?pool = "map ?f (ord e)"
      have num: "\<forall>x \<in> set ?pool. nb_num x" using assms(2) by (auto simp: nb_new_def nb_num_def numeric_def)
      have idm: "map nb_id ?pool = ord e" by (simp add: comp_def nb_new_def)
      note sorted = sort_pool_Inr [OF num]
      have ids: "\<forall>x \<in> set (sort_key nb_key ?pool). nb_id x < length (vx_data_store ix)"
        using inr sorted(2) by (auto simp: nb_new_def)
      have dist: "distinct (map nb_id (sort_key nb_key ?pool))"
        by (rule sorted(3)) (simp only: idm ord(1))
      obtain out where out: "occlude_list sp ix loc (sort_key nb_key ?pool) alpha rng maxc (Some old) =
          Inr (take maxc (sort_key nb_key ?pool), out)"
        "pruned_from sp ix loc (Some old) rng (take maxc (sort_key nb_key ?pool)) out"
        by (rule occlude_list_short [OF ids dist assms(3)])
      let ?P = "sort_key nb_key ?pool"
      have "set out \<subseteq> {nb_id x |x. x \<in> set (take maxc ?P) \<and> allowed loc (Some old) (nb_id x)}"
        using out(2) by (simp only: pruned_from_def)
      also have "\<dots> \<subseteq> nb_id ` set ?P" using set_take_subset [of maxc ?P] by blast
      also have "\<dots> = set (ord e)" unfolding sorted(2) unfolding list.set_map [symmetric] idm by (rule refl)
      finally have sub: "set out \<subseteq> set e" unfolding ord(2) .
      obtain g where g: "gs_set_neighbours loc out ?g = Inr g" "gs_graph g = (gs_graph ?g)[loc := out]"
        using gs_ops_Inr(1) [OF loc(1), of out] by blast
      have "distinct out" "length out \<le> D" using out(2) assms(4) by (auto simp: pruned_from_def)
      then show ?thesis
        using that [OF _ g(2)] loc(1) e(1,3) False False' pool sorted(1) out(1) g(1) sub eS
        by (simp add: process_delete_def)
    qed
  qed
qed

section \<open>Properties\<close>

text \<open>C16: Pruning obeys the rule of the graph. For a pool of distinct candidates, \<open>1 \<le> alpha\<close> finite and a
  positive degree, \<open>occlude_list\<close> returns (its rounds end) distinct candidates of the first \<open>maxc\<close>, at most
  \<open>degree\<close>, never the location itself nor a deleted one; the nearest candidate is among them; and with L2
  or cosine, unless the degree is used up, every candidate left out is occluded by an earlier, chosen one that
  is closer to it than the location is.\<close>

theorem occlude_list_prunes:
  assumes "\<forall>x \<in> set pool. nb_id x < length (vx_data_store ix)" and "distinct (map nb_id pool)"
    and "fp_le (Fin 1) alpha" and "fp_lt alpha FLT_MAX" and "0 < degree"
  shows "\<exists>res. occlude_list sp ix location pool alpha degree maxc ds = Inr (take maxc pool, res) \<and>
    pruned_from sp ix location ds degree (take maxc pool) res \<and>
    (take maxc pool \<noteq> [] \<and> allowed location ds (nb_id (hd pool)) \<longrightarrow> nb_id (hd pool) \<in> set res) \<and>
    ((vx_metric ix = L2 \<or> vx_metric ix = COSINE) \<and> length res < degree \<longrightarrow>
      (\<forall>t < length (take maxc pool). (allowed location ds (nb_id (pool ! t)) \<longrightarrow> nb_id (pool ! t) \<in> set res) \<or>
        (\<exists>p < t. (allowed location ds (nb_id (pool ! p)) \<longrightarrow> nb_id (pool ! p) \<in> set res) \<and>
                occludes sp ix (pool ! p) (pool ! t))))"
proof (rule occlude_list_spec [OF assms(1,2,4), of sp location degree maxc ds])
  fix res
  assume r: "occlude_list sp ix location pool alpha degree maxc ds = Inr (take maxc pool, res)"
    "pruned_from sp ix location ds degree (take maxc pool) res"
    "fp_le (Fin 1) alpha \<Longrightarrow> 0 < degree \<Longrightarrow> take maxc pool \<noteq> [] \<Longrightarrow>
      allowed location ds (nb_id (hd pool)) \<Longrightarrow> nb_id (hd pool) \<in> set res"
    "fp_le (Fin 1) alpha \<Longrightarrow> vx_metric ix = L2 \<or> vx_metric ix = COSINE \<Longrightarrow> length res < degree \<Longrightarrow>
      \<exists>A. (\<forall>p \<in> A. p < length (take maxc pool) \<and> (allowed location ds (nb_id (pool ! p)) \<longrightarrow> nb_id (pool ! p) \<in> set res)) \<and>
        (\<forall>t < length (take maxc pool). t \<in> A \<or> (\<exists>p \<in> A. p < t \<and> occludes sp ix (pool ! p) (pool ! t)))"
  show ?thesis
  proof (intro exI [of _ res] conjI impI allI)
    fix t assume m: "(vx_metric ix = L2 \<or> vx_metric ix = COSINE) \<and> length res < degree"
      and t: "t < length (take maxc pool)"
    from r(4) [OF assms(3) conjunct1 [OF m] conjunct2 [OF m]] obtain A where
      A: "\<forall>p \<in> A. allowed location ds (nb_id (pool ! p)) \<longrightarrow> nb_id (pool ! p) \<in> set res"
        "\<forall>t < length (take maxc pool). t \<in> A \<or> (\<exists>p \<in> A. p < t \<and> occludes sp ix (pool ! p) (pool ! t))" by blast
    then show "(allowed location ds (nb_id (pool ! t)) \<longrightarrow> nb_id (pool ! t) \<in> set res) \<or>
        (\<exists>p < t. (allowed location ds (nb_id (pool ! p)) \<longrightarrow> nb_id (pool ! p) \<in> set res) \<and>
                occludes sp ix (pool ! p) (pool ! t))" using t by blast
  qed (use r(1,2) r(3) [OF assms(3,5)] in auto)
qed

theorem occlude_list_prunes_witness:
  "\<exists>res. occlude_list line_space line_index 2 [nb_new 0 (Fin 1), nb_new 1 (Fin 5)] (Fin 1) 2 750 None =
     Inr ([nb_new 0 (Fin 1), nb_new 1 (Fin 5)], res) \<and> 0 \<in> set res \<and> set res \<subseteq> {0, 1}"
proof -
  let ?pool = "[nb_new 0 (Fin 1), nb_new 1 (Fin 5)]"
  have "\<forall>x \<in> set ?pool. nb_id x < length (vx_data_store line_index)" "distinct (map nb_id ?pool)"
    "fp_le (Fin 1) (Fin 1)" "fp_lt (Fin 1) FLT_MAX" "0 < (2::nat)"
    by (simp_all add: nb_new_def line_index_def fp_le_def fp_lt_def FLT_MAX_def fp_max_def binary32_def)
  from occlude_list_prunes [OF this, of line_space 2 750 None] obtain res where
    res: "occlude_list line_space line_index 2 ?pool (Fin 1) 2 750 None = Inr (take 750 ?pool, res)"
      "pruned_from line_space line_index 2 None 2 (take 750 ?pool) res"
      "take 750 ?pool \<noteq> [] \<and> allowed 2 None (nb_id (hd ?pool)) \<longrightarrow> nb_id (hd ?pool) \<in> set res" by blast
  have "set res \<subseteq> {nb_id x |x. x \<in> set ?pool}" using res(2) unfolding pruned_from_def by auto
  also have "\<dots> \<subseteq> {0, 1}" by (auto simp: nb_new_def)
  finally show ?thesis using res(1,3) by (auto simp: allowed_def nb_new_def)
qed

end
