(* ===== verification/IndexOps.thy ===== *)
theory IndexOps
  imports GraphPrune
begin

text \<open>
  The update operations of a DiskANN index (\<open>external/DiskANN/src/index.cpp\<close>): \<open>insert_point\<close> and
  \<open>consolidate_deletes\<close>, each with its guards, its error reports and its phases (taking the delete set,
  repairing the locations in any order, releasing the slots), and the lemmas on each phase. Theory
  \<open>IndexRuns\<close> interleaves them. \<open>compact_data\<close> and \<open>resize\<close>, which the cache never calls, are not
  modelled.
\<close>

section \<open>Insertion\<close>

text \<open>What follows the choice of a fresh location: vector, search, forward and backward edges.\<close>

definition connect_point :: "'v space \<Rightarrow> 'v \<Rightarrow> nat \<Rightarrow> 'v vindex \<Rightarrow> 'v vindex result" where
  "connect_point sp point location ix =
     rbind (ds_set_vector sp location point (vx_data_store ix)) (\<lambda>data.
     let ix1 = ix\<lparr>vx_data_store := data\<rparr> in
     rbind (search_for_point_and_prune sp ix1 location (vx_indexing_queue_size ix1)) (\<lambda>pruned_list.
     rbind (gs_clear_neighbours location (vx_graph_store ix1)) (\<lambda>g1.
     let neighbor_links = (if vx_conc_consolidate ix1
                           then filter (nnm_contains (vx_location_to_tag ix1)) pruned_list else pruned_list) in
     rbind (gs_set_neighbours location neighbor_links g1) (\<lambda>g2.
       inter_insert sp location pruned_list (ix1\<lparr>vx_graph_store := g2\<rparr>)))))"

definition insert_point :: "'v space \<Rightarrow> 'v \<Rightarrow> u32 \<Rightarrow> 'v vindex \<Rightarrow> (int \<times> 'v vindex) result" where
  "insert_point sp point tag ix =
     (if tag = 0 then Inl (Throws ''Do not insert point with tag 0.'')
      else rbind (reserve_location ix) (\<lambda>(loc, ix1).
        case loc of
          None \<Rightarrow> Inr (- 1, ix1)
        | Some location \<Rightarrow>
            if vx_enable_tags ix1 \<and> map_of (vx_tag_to_location ix1) tag \<noteq> None
            then rbind (release_location location ix1) (\<lambda>ix2. Inr (- 1, ix2))
            else let ix2 = (if vx_enable_tags ix1 then record_tag tag location ix1 else ix1)
                 in rbind (connect_point sp point location ix2) (\<lambda>ix3. Inr (0, ix3))))"

section \<open>Consolidation\<close>

datatype status_code = SUCCESS | FAIL | LOCK_FAIL | INCONSISTENT_COUNT_ERROR

text \<open>The elapsed time is left out.\<close>

record consolidation_report =
  cr_status :: status_code
  cr_active_points :: nat
  cr_max_points :: nat
  cr_empty_slots :: nat
  cr_slots_released :: nat
  cr_delete_set_size :: nat
  cr_num_calls_to_process_delete :: nat

definition empty_report :: "status_code \<Rightarrow> consolidation_report" where
  "empty_report s = \<lparr>cr_status = s, cr_active_points = 0, cr_max_points = 0, cr_empty_slots = 0,
     cr_slots_released = 0, cr_delete_set_size = 0, cr_num_calls_to_process_delete = 0\<rparr>"

definition consolidate_check :: "'v vindex \<Rightarrow> consolidation_report option result" where
  "consolidate_check ix =
     (if \<not> vx_enable_tags ix then Inl (Throws ''Point tag array not instantiated'')
      else if nns_size (vx_empty_slots ix) + vx_nd ix \<noteq> vx_max_points ix
      then Inl (Throws ''#empty slots + nd != max points'')
      else if nnm_size (vx_location_to_tag ix) + length (vx_delete_set ix) \<noteq> vx_nd ix
      then Inr (Some (empty_report INCONSISTENT_COUNT_ERROR))
      else if nnm_size (vx_location_to_tag ix) \<noteq> length (vx_tag_to_location ix)
      then Inl (Throws ''_location_to_tag and _tag_to_location not of same size'')
      else Inr None)"

text \<open>One iteration of the two loops over the locations, and the number of calls of \<open>process_delete\<close>.\<close>

definition consolidate_visit ::
  "(nat list \<Rightarrow> nat list) \<Rightarrow> 'v space \<Rightarrow> write_params \<Rightarrow> nat list \<Rightarrow> nat \<Rightarrow> nat \<times> 'v vindex \<Rightarrow> (nat \<times> 'v vindex) result" where
  "consolidate_visit ord sp wp old loc st =
     (let process = rbind (process_delete ord sp old (wp_max_degree wp) (wp_max_occlusion_size wp) (wp_alpha wp) loc (snd st))
                      (\<lambda>ix. Inr (fst st + 1, ix))
      in if loc < vx_max_points (snd st)
         then (if loc \<in> set old then Inr st
               else rbind (nns_is_in_set (vx_empty_slots (snd st)) loc) (\<lambda>empty.
                      if empty then Inr st else process))
         else process)"

text \<open>\<open>locked\<close>: \<open>try_lock\<close> of the consolidation lock succeeds.\<close>

definition consolidate_deletes ::
  "(nat list \<Rightarrow> nat list) \<Rightarrow> 'v space \<Rightarrow> write_params \<Rightarrow> bool \<Rightarrow> 'v vindex \<Rightarrow> (consolidation_report \<times> 'v vindex) result" where
  "consolidate_deletes ord sp wp locked ix =
     rbind (consolidate_check ix) (\<lambda>err.
       case err of
         Some report \<Rightarrow> Inr (report, ix)
       | None \<Rightarrow>
         if \<not> locked then Inr (empty_report LOCK_FAIL, ix)
         else let old = vx_delete_set ix; ix1 = ix\<lparr>vx_delete_set := []\<rparr> in
           if vx_start ix1 \<in> set old then Inl (Throws ''ERROR: start node has been deleted'')
           else rbind (rfold (consolidate_visit ord sp wp old) [0..<vx_total ix1] (0, ix1)) (\<lambda>(calls, ix2).
                rbind (release_locations (ord old) ix2) (\<lambda>(ret_nd, ix3).
                  Inr (\<lparr>cr_status = SUCCESS, cr_active_points = ret_nd, cr_max_points = vx_max_points ix3,
                         cr_empty_slots = nns_size (vx_empty_slots ix3), cr_slots_released = length old,
                         cr_delete_set_size = length (vx_delete_set ix3),
                         cr_num_calls_to_process_delete = calls\<rparr>, ix3))))"

section \<open>The invariant of an index\<close>

text \<open>The locations that are not empty: live, deleted and pending points and the frozen ones.\<close>

definition occupied :: "'v vindex \<Rightarrow> nat set" where
  "occupied ix = {..<vx_total ix} - empty_set ix"

definition index_inv :: "nat \<Rightarrow> nat set \<Rightarrow> 'v vindex \<Rightarrow> bool" where
  "index_inv D P ix \<longleftrightarrow> slot_inv P ix \<and> graph_ok D (occupied ix) ix \<and> params_ok ix \<and> degree_bound ix D \<and>
     vx_enable_tags ix \<and> vx_conc_consolidate ix \<and> vx_start ix = vx_max_points ix \<and> 0 < vx_num_frozen_pts ix"

lemma index_invD:
  assumes "index_inv D P ix"
  shows "slot_inv P ix" and "graph_ok D (occupied ix) ix" and "params_ok ix" and "degree_bound ix D"
    and "vx_enable_tags ix" and "vx_conc_consolidate ix" and "vx_start ix = vx_max_points ix"
    and "0 < vx_num_frozen_pts ix" and "index_shape ix"
proof -
  show "slot_inv P ix" "graph_ok D (occupied ix) ix" "params_ok ix" "degree_bound ix D" "vx_enable_tags ix"
    "vx_conc_consolidate ix" "vx_start ix = vx_max_points ix" "0 < vx_num_frozen_pts ix"
    using assms [unfolded index_inv_def] by simp_all
  from this(2) [unfolded graph_ok_def] show "index_shape ix" by (elim conjE)
qed

lemma occupied_iff:
  assumes "slot_inv P ix"
  shows "loc \<in> occupied ix \<longleftrightarrow>
    loc \<in> live ix \<or> loc \<in> set (vx_delete_set ix) \<or> loc \<in> P \<or> loc \<in> {vx_max_points ix..<vx_total ix}"
proof -
  note part = slot_part [OF assms]
  show ?thesis
  proof (cases "loc < vx_max_points ix")
    case True
    then have "loc \<in> occupied ix \<longleftrightarrow> loc \<in> {0..<vx_max_points ix} - empty_set ix" by (simp add: occupied_def)
    then show ?thesis using part4_rest [OF part, of loc] True by simp
  next
    case False
    then have "loc \<notin> {0..<vx_max_points ix}" by simp
    then have "loc \<notin> empty_set ix" "loc \<notin> live ix" "loc \<notin> set (vx_delete_set ix)" "loc \<notin> P"
      using part4_D(1-4) [OF part, of loc] by (metis, metis, metis, metis)
    then show ?thesis using False unfolding occupied_def by simp
  qed
qed

lemma index_inv_config:
  assumes "index_inv D P ix" and "slot_inv Q ix'" and "graph_ok D (occupied ix') ix'"
    and "vx_max_points ix' = vx_max_points ix" and "vx_num_frozen_pts ix' = vx_num_frozen_pts ix"
    and "vx_start ix' = vx_start ix" and "vx_enable_tags ix' = vx_enable_tags ix"
    and "vx_conc_consolidate ix' = vx_conc_consolidate ix" and "vx_indexing_queue_size ix' = vx_indexing_queue_size ix"
    and "vx_indexing_range ix' = vx_indexing_range ix" and "vx_indexing_alpha ix' = vx_indexing_alpha ix"
  shows "index_inv D Q ix'"
proof -
  note i = index_invD [OF assms(1)]
  have "params_ok ix'" using i(3) by (simp only: params_ok_def assms(9,11))
  moreover have "degree_bound ix' D" using i(4) by (simp only: degree_bound_def assms(10))
  ultimately show ?thesis using assms(2,3) i(5-8) by (simp only: index_inv_def assms(4-8))
qed

lemma init_occupied:
  assumes "index_inv D P ix"
  shows "set (get_init_ids ix) \<subseteq> occupied ix"
proof
  fix i assume "i \<in> set (get_init_ids ix)"
  then have "i \<in> {vx_max_points ix..<vx_total ix}"
    using index_invD(7,8) [OF assms] by (auto simp: get_init_ids_def)
  then show "i \<in> occupied ix" using occupied_iff [OF index_invD(1) [OF assms]] by blast
qed

lemma live_occupied: "slot_inv P ix \<Longrightarrow> live ix \<subseteq> occupied ix"
  using occupied_iff by blast

section \<open>Insertion keeps the invariant\<close>

lemma graph_ok_extend:
  assumes "graph_ok D S ix" and "i \<notin> S" and "i < vx_total ix"
    and "gs_graph g = (gs_graph (vx_graph_store ix))[i := ns]"
    and "distinct ns" and "set ns \<subseteq> S" and "length ns \<le> D"
  shows "graph_ok D (insert i S) (ix\<lparr>vx_graph_store := g\<rparr>)"
proof -
  have S: "S \<subseteq> {..<vx_total ix}" and shape: "index_shape ix" using assms(1) by (simp_all add: graph_ok_def)
  have len: "i < gs_len (vx_graph_store ix)" using shape assms(3) by (simp add: index_shape_def)
  have adj: "adj g j = (if j = i then ns else adj (vx_graph_store ix) j)" for j
    using len by (simp add: assms(4))
  have "index_shape (ix\<lparr>vx_graph_store := g\<rparr>)"
    using shape adj S assms(6) by (auto simp: index_shape_def assms(4))
  moreover have "distinct (adj g j) \<and> set (adj g j) \<subseteq> insert i S - {j} \<and> length (adj g j) \<le> D"
    if j: "j \<in> insert i S" for j
    using j assms(1,2,5-7) unfolding adj graph_ok_def by auto
  ultimately show ?thesis using S assms(3) by (simp add: graph_ok_def)
qed

lemma graph_ok_data:
  assumes "graph_ok D S ix" and "length data = length (vx_data_store ix)"
  shows "graph_ok D S (ix\<lparr>vx_data_store := data\<rparr>)"
  using assms by (simp add: graph_ok_def index_shape_def)

lemma connect_point_spec:
  assumes "graph_ok D S ix" and "numeric sp" and "params_ok ix" and "degree_bound ix D" and "vx_conc_consolidate ix"
    and "loc < vx_total ix" and "loc \<notin> S" and "set (get_init_ids ix) \<subseteq> S" and "nnm_inv (vx_location_to_tag ix)"
  obtains g where "connect_point sp point loc ix =
      Inr (ix\<lparr>vx_data_store := (vx_data_store ix)[loc := sp_prep sp point], vx_graph_store := g\<rparr>)"
    and "graph_ok D (insert loc S) (ix\<lparr>vx_data_store := (vx_data_store ix)[loc := sp_prep sp point], vx_graph_store := g\<rparr>)"
    and "\<forall>i \<in> S. set (adj g i) \<subseteq> insert loc (set (adj (vx_graph_store ix) i))"
    and "set (adj g loc) \<subseteq> live ix \<inter> S"
proof -
  let ?data = "(vx_data_store ix)[loc := sp_prep sp point]"
  let ?ix1 = "ix\<lparr>vx_data_store := ?data\<rparr>"
  have shape: "index_shape ix" using assms(1) by (simp add: graph_ok_def)
  then have len: "loc < length (vx_data_store ix)" "loc < gs_len (vx_graph_store ix)"
    using assms(6) by (simp_all add: index_shape_def)
  have ok1: "graph_ok D S ?ix1" by (rule graph_ok_data [OF assms(1)]) simp
  have same: "params_ok ?ix1" "0 < vx_indexing_queue_size ?ix1" "loc < vx_total ?ix1" "set (get_init_ids ?ix1) \<subseteq> S"
    using assms(3,6,8) by (simp_all add: params_ok_def get_init_ids_def)
  obtain pruned where pr: "search_for_point_and_prune sp ?ix1 loc (vx_indexing_queue_size ?ix1) = Inr pruned"
    "distinct pruned" "length pruned \<le> vx_indexing_range ?ix1" "set pruned \<subseteq> S"
    by (rule search_for_point_and_prune_spec [OF ok1 assms(2) same(1,2,3) assms(7) same(4)])
  let ?links = "filter (nnm_contains (vx_location_to_tag ix)) pruned"
  obtain g1 where g1: "gs_clear_neighbours loc (vx_graph_store ix) = Inr g1"
    "gs_graph g1 = (gs_graph (vx_graph_store ix))[loc := []]"
    using gs_ops_Inr(3) [OF len(2)] by blast
  obtain g2 where g2: "gs_set_neighbours loc ?links g1 = Inr g2" "gs_graph g2 = (gs_graph (vx_graph_store ix))[loc := ?links]"
    using gs_ops_Inr(1) [of loc g1 ?links] g1(2) len(2) by auto
  let ?ix2 = "?ix1\<lparr>vx_graph_store := g2\<rparr>"
  have "length ?links \<le> D"
  proof -
    have "length ?links \<le> length pruned" by (rule length_filter_le)
    also have "\<dots> \<le> vx_indexing_range ix" using pr(3) by simp
    also have "\<dots> \<le> D" using assms(4) by (simp add: degree_bound_def)
    finally show ?thesis .
  qed
  then have ok2: "graph_ok D (insert loc S) ?ix2"
    using pr(2,4) g2(2) assms(6,7) by (intro graph_ok_extend [OF ok1]) auto
  have same2: "params_ok ?ix2" "degree_bound ?ix2 D" "loc \<in> insert loc S" "set pruned \<subseteq> insert loc S - {loc}"
    using assms(3,4,7) pr(4) by (auto simp: params_ok_def degree_bound_def)
  obtain g where g: "inter_insert sp loc pruned ?ix2 = Inr (?ix2\<lparr>vx_graph_store := g\<rparr>)"
    "graph_ok D (insert loc S) (?ix2\<lparr>vx_graph_store := g\<rparr>)"
    "\<forall>i \<in> insert loc S. set (adj g i) \<subseteq> insert loc (set (adj (vx_graph_store ?ix2) i))"
    by (rule inter_insert_spec [OF ok2 assms(2) same2])
  have ix: "?ix2\<lparr>vx_graph_store := g\<rparr> = ix\<lparr>vx_data_store := ?data, vx_graph_store := g\<rparr>" by simp
  have "\<forall>i \<in> S. set (adj g i) \<subseteq> insert loc (set (adj (vx_graph_store ix) i))"
  proof
    fix i assume i: "i \<in> S"
    then have "i \<noteq> loc" using assms(7) by blast
    then have "adj g2 i = adj (vx_graph_store ix) i" by (simp add: g2(2))
    moreover have "set (adj g i) \<subseteq> insert loc (set (adj g2 i))" using g(3) i by simp
    ultimately show "set (adj g i) \<subseteq> insert loc (set (adj (vx_graph_store ix) i))" by simp
  qed
  moreover have "set (adj g loc) \<subseteq> live ix \<inter> S"
  proof -
    have "set (adj g loc) \<subseteq> insert loc (set ?links)" using g(3) g2(2) len(2) by simp
    moreover have "loc \<notin> set (adj g loc)" using g(2) by (auto simp: graph_ok_def)
    moreover have "set ?links \<subseteq> live ix \<inter> S"
      using pr(4) nnm_contains_iff [OF assms(9)] by (auto simp: dom_def)
    ultimately show ?thesis by blast
  qed
  moreover have "connect_point sp point loc ix = Inr (?ix2\<lparr>vx_graph_store := g\<rparr>)"
    using len(1) pr(1) g1(1) g2(1) g(1) assms(5) by (simp add: connect_point_def Let_def)
  ultimately show ?thesis using that [of g] g(2) unfolding ix by simp
qed

text \<open>The three outcomes of an insertion.\<close>

lemma insert_point_full:
  "tag \<noteq> 0 \<Longrightarrow> vx_max_points ix \<le> vx_nd ix \<Longrightarrow> insert_point sp point tag ix = Inr (- 1, ix)"
  by (simp add: insert_point_def reserve_location_def)

lemma insert_point_duplicate:
  assumes "index_inv D P ix" and "tag \<noteq> 0" and "map_of (vx_tag_to_location ix) tag \<noteq> None"
  shows "insert_point sp point tag ix = Inr (- 1, ix)"
proof (cases "vx_nd ix < vx_max_points ix")
  case False
  then show ?thesis using assms(2) by (simp add: insert_point_full)
next
  case True
  note inv = index_invD [OF assms(1)]
  obtain loc empty where r: "loc \<notin> P"
    "reserve_location ix = Inr (Some loc, ix\<lparr>vx_empty_slots := empty, vx_nd := vx_nd ix + 1\<rparr>)"
    "slot_inv (insert loc P) (ix\<lparr>vx_empty_slots := empty, vx_nd := vx_nd ix + 1\<rparr>)"
    "nns_insert loc empty = vx_empty_slots ix"
    by (rule reserve_location_spec [OF inv(1) True])
  let ?ix1 = "ix\<lparr>vx_empty_slots := empty, vx_nd := vx_nd ix + 1\<rparr>"
  obtain e where "release_location loc ?ix1 = Inr (?ix1\<lparr>vx_empty_slots := e, vx_nd := vx_nd ?ix1 - 1\<rparr>)"
    "e = nns_insert loc (vx_empty_slots ?ix1)"
    by (rule release_location_spec [OF r(3,1)])
  moreover have "nns_insert loc (vx_empty_slots ?ix1) = vx_empty_slots ix" using r(4) by simp
  ultimately have "release_location loc ?ix1 = Inr ix" by simp
  then show ?thesis using assms(2,3) r(2) inv(5) by (simp add: insert_point_def)
qed

lemma insert_point_new:
  assumes inv: "index_inv D P ix" and "numeric sp" and "tag \<noteq> 0" and "map_of (vx_tag_to_location ix) tag = None"
    and "vx_nd ix < vx_max_points ix"
  obtains loc ix' where "insert_point sp point tag ix = Inr (0, ix')" and "index_inv D P ix'"
    and "loc \<in> empty_set ix" and "tag_at ix' = (tag_at ix)(loc \<mapsto> tag)"
    and "map_of (vx_tag_to_location ix') = (map_of (vx_tag_to_location ix))(tag \<mapsto> loc)"
    and "vx_data_store ix' = (vx_data_store ix)[loc := sp_prep sp point]"
    and "vx_delete_set ix' = vx_delete_set ix" and "occupied ix' = insert loc (occupied ix)"
    and "\<forall>i \<in> occupied ix. set (adj (vx_graph_store ix') i) \<subseteq> insert loc (set (adj (vx_graph_store ix) i))"
    and "set (adj (vx_graph_store ix') loc) \<subseteq> live ix" and "vx_max_points ix' = vx_max_points ix"
    and "vx_num_frozen_pts ix' = vx_num_frozen_pts ix" and "vx_metric ix' = vx_metric ix"
proof -
  note i = index_invD [OF inv]
  obtain loc empty where r: "loc \<in> empty_set ix" "loc \<notin> P" "loc < vx_max_points ix"
    "reserve_location ix = Inr (Some loc, ix\<lparr>vx_empty_slots := empty, vx_nd := vx_nd ix + 1\<rparr>)"
    "slot_inv (insert loc P) (ix\<lparr>vx_empty_slots := empty, vx_nd := vx_nd ix + 1\<rparr>)"
    "nns_set empty = empty_set ix - {loc}"
    by (rule reserve_location_spec [OF i(1) assms(5)])
  let ?ix1 = "ix\<lparr>vx_empty_slots := empty, vx_nd := vx_nd ix + 1\<rparr>"
  let ?ix2 = "record_tag tag loc ?ix1"
  have tags: "map_of (vx_tag_to_location ?ix1) tag = None" using assms(4) by simp
  note rec = record_tag_spec [OF r(5,2) tags assms(3)]
  have loc: "loc \<notin> occupied ix" using r(1) by (simp add: occupied_def)
  have ok: "graph_ok D (occupied ix) ?ix2"
    using i(2) by (simp add: graph_ok_def index_shape_def)
  have cfg: "params_ok ?ix2" "degree_bound ?ix2 D" "vx_conc_consolidate ?ix2" "loc < vx_total ?ix2"
    "set (get_init_ids ?ix2) \<subseteq> occupied ix" "nnm_inv (vx_location_to_tag ?ix2)"
    using i(3,4,6) r(3) init_occupied [OF inv] slot_invD(5) [OF rec(1)]
    by (simp_all add: params_ok_def degree_bound_def get_init_ids_def)
  obtain g where g: "connect_point sp point loc ?ix2 =
      Inr (?ix2\<lparr>vx_data_store := (vx_data_store ?ix2)[loc := sp_prep sp point], vx_graph_store := g\<rparr>)"
    "graph_ok D (insert loc (occupied ix))
       (?ix2\<lparr>vx_data_store := (vx_data_store ?ix2)[loc := sp_prep sp point], vx_graph_store := g\<rparr>)"
    "\<forall>i \<in> occupied ix. set (adj g i) \<subseteq> insert loc (set (adj (vx_graph_store ?ix2) i))"
    "set (adj g loc) \<subseteq> live ?ix2 \<inter> occupied ix"
    by (rule connect_point_spec [OF ok assms(2) cfg(1-4) loc cfg(5,6)])
  let ?ix3 = "?ix2\<lparr>vx_data_store := (vx_data_store ?ix2)[loc := sp_prep sp point], vx_graph_store := g\<rparr>"
  have occ: "occupied ?ix3 = insert loc (occupied ix)"
  proof -
    have e: "empty_set ?ix3 = empty_set ix - {loc}" and t: "vx_total ?ix3 = vx_total ix" using r(6) by simp_all
    have "loc < vx_total ix" using r(3) by simp
    then show ?thesis unfolding occupied_def e t by blast
  qed
  have "slot_inv P ?ix3" using rec(1) by simp
  moreover have "graph_ok D (occupied ?ix3) ?ix3" unfolding occ by (rule g(2))
  ultimately have "index_inv D P ?ix3"
    by (rule index_inv_config [OF inv]) simp_all
  moreover have "insert_point sp point tag ix = Inr (0, ?ix3)"
    using assms(3,4) r(4) i(5) g(1) by (simp add: insert_point_def)
  moreover have "set (adj g loc) \<subseteq> live ix" using g(4) loc rec(2) by auto
  moreover have "tag_at ?ix3 = (tag_at ix)(loc \<mapsto> tag)" using rec(2) by simp
  moreover have "map_of (vx_tag_to_location ?ix3) = (map_of (vx_tag_to_location ix))(tag \<mapsto> loc)" using rec(3) by simp
  ultimately show ?thesis
    using r(1) occ g(3) by - (rule that [of ?ix3 loc], simp_all)
qed

section \<open>Consolidation keeps the invariant\<close>

definition consolidate_params :: "nat \<Rightarrow> (nat list \<Rightarrow> nat list) \<Rightarrow> write_params \<Rightarrow> bool" where
  "consolidate_params D ord wp \<longleftrightarrow> ord_ok ord \<and> wp_max_degree wp \<le> D \<and> fp_lt (wp_alpha wp) FLT_MAX"

text \<open>While a consolidation of \<open>old\<close> runs: the visited locations \<open>vis\<close> have no edge into \<open>old\<close> left.\<close>

definition consolidating :: "nat \<Rightarrow> nat list \<Rightarrow> nat set \<Rightarrow> 'v vindex \<Rightarrow> bool" where
  "consolidating D old vis ix \<longleftrightarrow> index_inv D (set old) ix \<and> distinct old \<and>
     (\<forall>i \<in> occupied ix - set old. i \<in> vis \<longrightarrow> set (adj (vx_graph_store ix) i) \<inter> set old = {})"

lemma consolidate_check_None:
  assumes "slot_inv {} ix" and "vx_enable_tags ix"
  shows "consolidate_check ix = Inr None"
proof -
  note inv = slot_invD [OF assms(1)]
  have "nnm_size (vx_location_to_tag ix) = card (live ix)" by (rule nnm_size_dom [OF inv(5)])
  moreover have "length (vx_tag_to_location ix) = card (live ix)" by (rule live_card(2) [OF inv(2,6)])
  ultimately show ?thesis
    using slot_counts [OF assms(1)] inv(9) assms(2) by (simp add: consolidate_check_def)
qed

lemma old_occupied:
  assumes "slot_inv P ix"
  shows "P \<subseteq> occupied ix" and "P \<subseteq> {..<vx_max_points ix}"
proof -
  show "P \<subseteq> occupied ix" using occupied_iff [OF assms] by blast
  show "P \<subseteq> {..<vx_max_points ix}" using slot_part [OF assms] by (auto simp: part4_def)
qed

lemma occupied_graph [simp]: "occupied (ix\<lparr>vx_graph_store := g\<rparr>) = occupied ix"
  by (simp add: occupied_def)

lemma consolidate_visit_spec:
  assumes con: "consolidating D old vis ix" and "numeric sp" and par: "consolidate_params D ord wp"
    and "loc < vx_total ix"
  obtains g where "consolidate_visit ord sp wp old loc (calls, ix) =
      Inr (calls + (if loc \<in> occupied ix - set old then 1 else 0), ix\<lparr>vx_graph_store := g\<rparr>)"
    and "consolidating D old (insert loc vis) (ix\<lparr>vx_graph_store := g\<rparr>)"
proof -
  have inv: "index_inv D (set old) ix" and old: "distinct old"
    and vis: "\<And>i. i \<in> occupied ix - set old \<Longrightarrow> i \<in> vis \<Longrightarrow> set (adj (vx_graph_store ix) i) \<inter> set old = {}"
    using con by (simp_all add: consolidating_def)
  note i = index_invD [OF inv]
  note occ = old_occupied [OF i(1)]
  have wp: "ord_ok ord" "wp_max_degree wp \<le> D" "fp_lt (wp_alpha wp) FLT_MAX"
    using par by (simp_all add: consolidate_params_def)
  show ?thesis
  proof (cases "loc \<in> occupied ix - set old")
    case True
    obtain g ns where g: "process_delete ord sp old (wp_max_degree wp) (wp_max_occlusion_size wp) (wp_alpha wp) loc ix =
        Inr (ix\<lparr>vx_graph_store := g\<rparr>)" "gs_graph g = (gs_graph (vx_graph_store ix))[loc := ns]"
      "set ns \<subseteq> occupied ix - {loc} - set old" "distinct ns" "length ns \<le> D"
      by (rule process_delete_spec [OF i(2) assms(2) wp(3,2,1) occ(1) DiffD1 [OF True]])
    have ok: "graph_ok D (occupied ix) (ix\<lparr>vx_graph_store := g\<rparr>)"
    proof (rule graph_ok_set [OF i(2) assms(4) g(2)])
      show "set ns \<subseteq> {..<vx_total ix}" using g(3) by (auto simp: occupied_def)
      show "distinct ns \<and> set ns \<subseteq> occupied ix - {loc} \<and> length ns \<le> D" using g(3-5) by blast
    qed
    have inv': "index_inv D (set old) (ix\<lparr>vx_graph_store := g\<rparr>)"
      by (rule index_inv_config [OF inv]) (use i(1) ok in simp_all)
    have len: "loc < gs_len (vx_graph_store ix)" using assms(4) i(9) by (simp add: index_shape_def)
    have adj: "adj g j = (if j = loc then ns else adj (vx_graph_store ix) j)" for j using len by (simp add: g(2))
    have "set (adj g j) \<inter> set old = {}" if "j \<in> occupied ix - set old" "j \<in> insert loc vis" for j
      using that vis g(3) unfolding adj by auto
    then have "consolidating D old (insert loc vis) (ix\<lparr>vx_graph_store := g\<rparr>)"
      using inv' old by (simp add: consolidating_def)
    moreover have "consolidate_visit ord sp wp old loc (calls, ix) = Inr (calls + 1, ix\<lparr>vx_graph_store := g\<rparr>)"
    proof (cases "loc < vx_max_points ix")
      case below: True
      have "nns_is_in_set (vx_empty_slots ix) loc = Inr False"
        using nns_is_in_set_spec [OF slot_invD(3) [OF i(1)], of loc] slot_invD(4) [OF i(1)] below True
        by (simp add: occupied_def)
      then show ?thesis using below True g(1) by (simp add: consolidate_visit_def)
    next
      case False
      then show ?thesis using g(1) by (simp add: consolidate_visit_def)
    qed
    ultimately show ?thesis using that True by simp
  next
    case False
    have below: "loc < vx_max_points ix" using False occ occupied_iff [OF i(1), of loc] assms(4) by force
    have "consolidate_visit ord sp wp old loc (calls, ix) = Inr (calls, ix)"
    proof (cases "loc \<in> set old")
      case True
      then show ?thesis using below by (simp add: consolidate_visit_def)
    next
      case new: False
      then have "loc \<in> empty_set ix" using False assms(4) by (simp add: occupied_def)
      then have "nns_is_in_set (vx_empty_slots ix) loc = Inr True"
        using nns_is_in_set_spec [OF slot_invD(3) [OF i(1)], of loc] slot_invD(4) [OF i(1)] below by simp
      then show ?thesis using below new by (simp add: consolidate_visit_def)
    qed
    moreover have "consolidating D old (insert loc vis) ix"
      using con False by (auto simp: consolidating_def)
    ultimately show ?thesis using that [of "vx_graph_store ix"] False by simp
  qed
qed

lemma consolidate_visits_spec:
  assumes "consolidating D old vis ix" and "numeric sp" and "consolidate_params D ord wp"
    and "\<forall>loc \<in> set locs. loc < vx_total ix"
  shows "\<exists>g. rfold (consolidate_visit ord sp wp old) locs (calls, ix) =
      Inr (calls + length (filter (\<lambda>loc. loc \<in> occupied ix - set old) locs), ix\<lparr>vx_graph_store := g\<rparr>) \<and>
    consolidating D old (set locs \<union> vis) (ix\<lparr>vx_graph_store := g\<rparr>)"
  using assms(1,4)
proof (induction locs arbitrary: ix vis calls)
  case Nil
  then show ?case by (intro exI [of _ "vx_graph_store ix"]) simp
next
  case (Cons loc locs)
  have "loc < vx_total ix" using Cons.prems(2) by simp
  from consolidate_visit_spec [OF Cons.prems(1) assms(2,3) this, of calls] obtain g where
    g: "consolidate_visit ord sp wp old loc (calls, ix) =
      Inr (calls + (if loc \<in> occupied ix - set old then 1 else 0), ix\<lparr>vx_graph_store := g\<rparr>)"
    "consolidating D old (insert loc vis) (ix\<lparr>vx_graph_store := g\<rparr>)" by blast
  from Cons.IH [OF g(2), of "calls + (if loc \<in> occupied ix - set old then 1 else 0)"] Cons.prems(2)
  obtain g' where "rfold (consolidate_visit ord sp wp old) locs
      (calls + (if loc \<in> occupied ix - set old then 1 else 0), ix\<lparr>vx_graph_store := g\<rparr>) =
      Inr (calls + (if loc \<in> occupied ix - set old then 1 else 0) +
         length (filter (\<lambda>loc. loc \<in> occupied ix - set old) locs), ix\<lparr>vx_graph_store := g'\<rparr>)"
    "consolidating D old (set locs \<union> insert loc vis) (ix\<lparr>vx_graph_store := g'\<rparr>)" by auto
  then show ?case using g(1) by (intro exI [of _ g']) simp
qed

lemma graph_ok_shrink:
  assumes "graph_ok D S ix" and "S' \<subseteq> S" and "\<forall>i \<in> S'. set (adj (vx_graph_store ix) i) \<subseteq> S'"
  shows "graph_ok D S' ix"
  using assms unfolding graph_ok_def by blast

lemma graph_ok_slots:
  "graph_ok D S (ix\<lparr>vx_empty_slots := e, vx_nd := n\<rparr>) = graph_ok D S ix"
  "graph_ok D S (ix\<lparr>vx_delete_set := d\<rparr>) = graph_ok D S ix"
  by (simp_all add: graph_ok_def index_shape_def)

text \<open>Starting a consolidation moves the delete set to the pending locations; the end releases them.\<close>

lemma consolidate_start:
  assumes "index_inv D {} ix"
  shows "consolidating D (vx_delete_set ix) {} (ix\<lparr>vx_delete_set := []\<rparr>)"
    and "vx_start ix \<notin> set (vx_delete_set ix)"
    and "occupied (ix\<lparr>vx_delete_set := []\<rparr>) = occupied ix"
proof -
  note i = index_invD [OF assms]
  show occ: "occupied (ix\<lparr>vx_delete_set := []\<rparr>) = occupied ix" by (simp add: occupied_def)
  have "slot_inv (set (vx_delete_set ix)) (ix\<lparr>vx_delete_set := []\<rparr>)"
    using swap_delete_set_spec [OF i(1)] by simp
  moreover have "graph_ok D (occupied (ix\<lparr>vx_delete_set := []\<rparr>)) (ix\<lparr>vx_delete_set := []\<rparr>)"
    unfolding occ using i(2) by (simp only: graph_ok_slots)
  ultimately have "index_inv D (set (vx_delete_set ix)) (ix\<lparr>vx_delete_set := []\<rparr>)"
    by (rule index_inv_config [OF assms]) simp_all
  then show "consolidating D (vx_delete_set ix) {} (ix\<lparr>vx_delete_set := []\<rparr>)"
    using slot_invD(8) [OF i(1)] by (simp add: consolidating_def)
  show "vx_start ix \<notin> set (vx_delete_set ix)"
    using part4_D(3) [OF slot_part [OF i(1)], of "vx_start ix"] i(7) by auto
qed

lemma consolidate_end:
  assumes con: "consolidating D old vis ix" and "{..<vx_total ix} \<subseteq> vis" and "ord_ok ord"
  obtains empty where "release_locations (ord old) ix =
      Inr (vx_nd ix - length old, ix\<lparr>vx_empty_slots := empty, vx_nd := vx_nd ix - length old\<rparr>)"
    and "index_inv D {} (ix\<lparr>vx_empty_slots := empty, vx_nd := vx_nd ix - length old\<rparr>)"
    and "occupied (ix\<lparr>vx_empty_slots := empty, vx_nd := vx_nd ix - length old\<rparr>) = occupied ix - set old"
    and "nns_size empty + (vx_nd ix - length old) = vx_max_points ix"
proof -
  have inv: "index_inv D (set old) ix" and old: "distinct old"
    and vis: "\<And>i. i \<in> occupied ix - set old \<Longrightarrow> set (adj (vx_graph_store ix) i) \<inter> set old = {}"
    using con assms(2) by (auto simp: consolidating_def occupied_def)
  note i = index_invD [OF inv]
  have ord: "distinct (ord old)" "set (ord old) = set old" using assms(3) old by (simp_all add: ord_ok_def)
  then have len: "length (ord old) = length old" using old by (metis distinct_card)
  have "slot_inv (set (ord old) \<union> {}) ix" using i(1) ord(2) by simp
  from release_locations_spec [OF this ord(1)] obtain empty where
    e: "release_locations (ord old) ix =
      Inr (vx_nd ix - length old, ix\<lparr>vx_empty_slots := empty, vx_nd := vx_nd ix - length old\<rparr>)"
    "slot_inv {} (ix\<lparr>vx_empty_slots := empty, vx_nd := vx_nd ix - length old\<rparr>)"
    "nns_set empty = set old \<union> empty_set ix"
    unfolding len ord(2) by blast
  let ?ix = "ix\<lparr>vx_empty_slots := empty, vx_nd := vx_nd ix - length old\<rparr>"
  have occ: "occupied ?ix = occupied ix - set old" by (auto simp: occupied_def e(3))
  have "graph_ok D (occupied ix - set old) ix"
  proof (rule graph_ok_shrink [OF i(2)])
    show "\<forall>j \<in> occupied ix - set old. set (adj (vx_graph_store ix) j) \<subseteq> occupied ix - set old"
      using vis i(2) unfolding graph_ok_def by blast
  qed simp
  then have "graph_ok D (occupied ?ix) ?ix" unfolding occ by (simp only: graph_ok_slots)
  with e(2) have "index_inv D {} ?ix" by (rule index_inv_config [OF inv]) simp_all
  moreover have "nns_size empty + (vx_nd ix - length old) = vx_max_points ix"
    using slot_counts [OF e(2)] by simp
  ultimately show ?thesis using e(1) occ by - (rule that [of empty])
qed

lemma card_filter_upt: "S \<subseteq> {..<n} \<Longrightarrow> length (filter (\<lambda>i. i \<in> S) [0..<n]) = card S"
proof -
  assume "S \<subseteq> {..<n}"
  then have "set (filter (\<lambda>i. i \<in> S) [0..<n]) = S" by auto
  then show ?thesis by (metis distinct_card distinct_filter distinct_upt)
qed

lemma consolidate_deletes_success:
  assumes inv: "index_inv D {} ix" and "numeric sp" and par: "consolidate_params D ord wp"
  obtains g empty where "consolidate_deletes ord sp wp True ix =
      Inr (\<lparr>cr_status = SUCCESS, cr_active_points = card (live ix), cr_max_points = vx_max_points ix,
            cr_empty_slots = vx_max_points ix - card (live ix), cr_slots_released = length (vx_delete_set ix),
            cr_delete_set_size = 0,
            cr_num_calls_to_process_delete = card (occupied ix - set (vx_delete_set ix))\<rparr>,
          ix\<lparr>vx_delete_set := [], vx_graph_store := g, vx_empty_slots := empty, vx_nd := card (live ix)\<rparr>)"
    and "index_inv D {} (ix\<lparr>vx_delete_set := [], vx_graph_store := g, vx_empty_slots := empty, vx_nd := card (live ix)\<rparr>)"
    and "occupied (ix\<lparr>vx_delete_set := [], vx_graph_store := g, vx_empty_slots := empty, vx_nd := card (live ix)\<rparr>) =
      occupied ix - set (vx_delete_set ix)"
proof -
  note i = index_invD [OF inv]
  note start = consolidate_start [OF inv]
  let ?old = "vx_delete_set ix" and ?ix1 = "ix\<lparr>vx_delete_set := []\<rparr>"
  have "\<forall>loc \<in> set [0..<vx_total ix]. loc < vx_total ?ix1" by simp
  note visits = consolidate_visits_spec [OF start(1) assms(2) par this, of 0]
  have calls: "length (filter (\<lambda>loc. loc \<in> occupied ix - set ?old) [0..<vx_total ix]) = card (occupied ix - set ?old)"
    by (rule card_filter_upt) (auto simp: occupied_def)
  obtain g where
    g: "rfold (consolidate_visit ord sp wp ?old) [0..<vx_total ix] (0, ?ix1) =
      Inr (card (occupied ix - set ?old), ?ix1\<lparr>vx_graph_store := g\<rparr>)"
    "consolidating D ?old {..<vx_total ix} (?ix1\<lparr>vx_graph_store := g\<rparr>)"
    using visits unfolding start(3) calls add_0 set_upt atLeast0LessThan Un_empty_right by blast
  let ?ix2 = "?ix1\<lparr>vx_graph_store := g\<rparr>"
  have nd: "vx_nd ?ix2 - length ?old = card (live ix)" using slot_invD(9) [OF i(1)] by simp
  have "ord_ok ord" using par by (simp add: consolidate_params_def)
  then obtain empty where e: "release_locations (ord ?old) ?ix2 =
      Inr (card (live ix), ?ix2\<lparr>vx_empty_slots := empty, vx_nd := card (live ix)\<rparr>)"
    "index_inv D {} (?ix2\<lparr>vx_empty_slots := empty, vx_nd := card (live ix)\<rparr>)"
    "occupied (?ix2\<lparr>vx_empty_slots := empty, vx_nd := card (live ix)\<rparr>) = occupied ?ix2 - set ?old"
    "nns_size empty + card (live ix) = vx_max_points ix"
    using consolidate_end [OF g(2), of ord] unfolding nd by auto
  let ?ix3 = "?ix2\<lparr>vx_empty_slots := empty, vx_nd := card (live ix)\<rparr>"
  have size: "nns_size empty = vx_max_points ix - card (live ix)" using e(4) by simp
  have "consolidate_deletes ord sp wp True ix =
      Inr (\<lparr>cr_status = SUCCESS, cr_active_points = card (live ix), cr_max_points = vx_max_points ix,
            cr_empty_slots = vx_max_points ix - card (live ix), cr_slots_released = length ?old, cr_delete_set_size = 0,
            cr_num_calls_to_process_delete = card (occupied ix - set ?old)\<rparr>, ?ix3)"
    using consolidate_check_None [OF i(1,5)] start(2) g(1) e(1) size
    by (simp add: consolidate_deletes_def Let_def)
  moreover have "occupied ?ix3 = occupied ix - set ?old" using e(3) start(3) by simp
  ultimately show ?thesis using e(2) by - (rule that [of empty g])
qed

text \<open>Lazy deletion keeps the invariant: the location stays occupied and keeps its edges.\<close>

lemma delete_tag_occupied: "occupied (delete_tag tag loc ix) = occupied ix"
  by (simp add: occupied_def delete_tag_def)

lemma graph_ok_fields:
  assumes "graph_ok D S ix" and "vx_graph_store ix' = vx_graph_store ix" and "vx_data_store ix' = vx_data_store ix"
    and "vx_max_points ix' = vx_max_points ix" and "vx_num_frozen_pts ix' = vx_num_frozen_pts ix"
    and "vx_start ix' = vx_start ix"
  shows "graph_ok D S ix'"
  using assms(1) unfolding graph_ok_def index_shape_def assms(2-6) .

lemma delete_tag_inv:
  assumes "index_inv D P ix" and "map_of (vx_tag_to_location ix) tag = Some loc"
  shows "index_inv D P (delete_tag tag loc ix)"
proof -
  note i = index_invD [OF assms(1)]
  have "graph_ok D (occupied (delete_tag tag loc ix)) (delete_tag tag loc ix)"
    unfolding delete_tag_occupied using i(2) by (rule graph_ok_fields) (simp_all add: delete_tag_def)
  with delete_tag_spec(1) [OF i(1) assms(2)] show ?thesis
    by (rule index_inv_config [OF assms(1)]) (simp_all add: delete_tag_def)
qed

lemma lazy_delete_fields:
  "vx_graph_store (snd (lazy_delete tag ix)) = vx_graph_store ix"
  "vx_data_store (snd (lazy_delete tag ix)) = vx_data_store ix"
  "vx_max_points (snd (lazy_delete tag ix)) = vx_max_points ix"
  "vx_num_frozen_pts (snd (lazy_delete tag ix)) = vx_num_frozen_pts ix"
  "vx_empty_slots (snd (lazy_delete tag ix)) = vx_empty_slots ix"
  "vx_nd (snd (lazy_delete tag ix)) = vx_nd ix"
  "occupied (snd (lazy_delete tag ix)) = occupied ix"
  by (simp_all add: lazy_delete_def Let_def delete_tag_def occupied_def split: option.splits)

lemma compacted_inv:
  assumes "index_inv D P ix"
  shows "index_inv D P (ix\<lparr>vx_data_compacted := b\<rparr>)"
proof -
  note i = index_invD [OF assms]
  have "graph_ok D (occupied (ix\<lparr>vx_data_compacted := b\<rparr>)) (ix\<lparr>vx_data_compacted := b\<rparr>)"
    using i(2) by (simp add: graph_ok_def index_shape_def occupied_def)
  moreover have "slot_inv P (ix\<lparr>vx_data_compacted := b\<rparr>)" using i(1) by simp
  ultimately show ?thesis by (intro index_inv_config [OF assms]) simp_all
qed

lemma lazy_delete_inv:
  assumes "index_inv D P ix"
  shows "index_inv D P (snd (lazy_delete tag ix))"
proof (cases "map_of (vx_tag_to_location ix) tag")
  case None
  then show ?thesis using compacted_inv [OF assms] by (simp add: lazy_delete_def)
next
  case (Some loc)
  have "map_of (vx_tag_to_location (ix\<lparr>vx_data_compacted := False\<rparr>)) tag = Some loc" using Some by simp
  from delete_tag_inv [OF compacted_inv [OF assms] this] show ?thesis using Some by (simp add: lazy_delete_def)
qed

section \<open>A new index\<close>

text \<open>What \<open>create_instance\<close> makes for a dynamic index with tags, after \<open>config_build\<close>.\<close>

definition dynamic_config :: "index_config \<Rightarrow> write_params \<Rightarrow> search_params \<Rightarrow> bool" where
  "dynamic_config cf wp sr \<longleftrightarrow> cf_dynamic_index cf \<and> cf_enable_tags cf \<and> \<not> cf_pq_dist_build cf \<and>
     cf_concurrent_consolidate cf \<and> cf_num_frozen_pts cf = 1 \<and> 0 < cf_max_points cf \<and> 0 < cf_dimension cf \<and>
     cf_write_params cf = Some wp \<and> cf_search_params cf = Some sr \<and> 0 < sr_initial_search_list_size sr \<and>
     0 < wp_search_list_size wp \<and> 0 < wp_max_degree wp \<and> fp_lt (wp_alpha wp) FLT_MAX"

definition fresh_index :: "index_config \<Rightarrow> write_params \<Rightarrow> 'v list \<Rightarrow> 'v vindex" where
  "fresh_index cf wp data =
     \<lparr>vx_metric = cf_metric cf, vx_max_points = cf_max_points cf, vx_num_frozen_pts = 1,
      vx_dynamic_index = True, vx_enable_tags = True, vx_conc_consolidate = True,
      vx_start = cf_max_points cf, vx_nd = 0,
      vx_graph_store = \<lparr>gs_graph = replicate (cf_max_points cf + 2) [], gs_max_degree = 0\<rparr>,
      vx_data_store = data, vx_tag_to_location = [], vx_location_to_tag = nnm_new, vx_delete_set = [],
      vx_empty_slots = insert_range 0 (cf_max_points cf) nns_new, vx_data_compacted = True,
      vx_deletes_enabled = True, vx_indexing_queue_size = wp_search_list_size wp,
      vx_indexing_range = wp_max_degree wp, vx_indexing_maxc = wp_max_occlusion_size wp,
      vx_indexing_alpha = wp_alpha wp, vx_saturate_graph = wp_saturate_graph wp\<rparr>"

lemma create_instance_fresh:
  assumes "dynamic_config cf wp sr"
  shows "create_instance sp cf = Inr (fresh_index cf wp (replicate (cf_max_points cf + 1) (sp_zero sp)))"
  using assms
  by (simp add: create_instance_def check_config_def index_ctor_def dynamic_config_def fresh_index_def
      enable_delete_def Let_def)

lemma fresh_slots:
  assumes "0 < cf_max_points cf"
  shows "slot_inv {} (fresh_index cf wp data)" and "occupied (fresh_index cf wp data) = {cf_max_points cf}"
proof -
  let ?e = "insert_range 0 (cf_max_points cf) nns_new"
  have e: "nns_inv ?e" "nns_set ?e = {0..<cf_max_points cf}" "cf_max_points cf \<le> length (nns_bits ?e)"
    using insert_range_spec [of nns_new 0 "cf_max_points cf"] assms by auto
  show "slot_inv {} (fresh_index cf wp data)"
    using e by (simp add: fresh_index_def slot_inv_def slot_partition_def tags_inverse_def part4_def)
  show "occupied (fresh_index cf wp data) = {cf_max_points cf}"
    using e(2) by (auto simp: occupied_def fresh_index_def)
qed

lemma fresh_index_inv:
  assumes cf: "dynamic_config cf wp sr" and "length data = cf_max_points cf + 1"
    and "wp_max_degree wp \<le> D" and "slack_bound (wp_max_degree wp) = Inr b" and "b \<le> D"
  shows "index_inv D {} (fresh_index cf wp data)"
proof -
  let ?ix = "fresh_index cf wp data"
  have c: "0 < cf_max_points cf" "0 < wp_search_list_size wp" "fp_lt (wp_alpha wp) FLT_MAX"
    using cf by (simp_all add: dynamic_config_def)
  note slots = fresh_slots [OF c(1), of wp data]
  have adj: "adj (vx_graph_store ?ix) i = []" if "i < cf_max_points cf + 2" for i
    using that unfolding fresh_index_def by (simp del: replicate_Suc)
  have "index_shape ?ix"
    using adj assms(2) by (simp add: index_shape_def) (simp add: fresh_index_def)
  moreover have "adj (vx_graph_store ?ix) (cf_max_points cf) = []" by (rule adj) simp
  ultimately have "graph_ok D (occupied ?ix) ?ix"
    unfolding graph_ok_def slots(2) by (simp add: fresh_index_def)
  moreover have "params_ok ?ix" using c by (simp add: params_ok_def fresh_index_def)
  moreover have "degree_bound ?ix D" using assms(3-5) by (auto simp: degree_bound_def fresh_index_def)
  ultimately show ?thesis using slots(1) by (simp add: index_inv_def) (simp add: fresh_index_def)
qed

lemma set_start_points_fresh:
  assumes "length data = cf_max_points cf + 1"
  shows "set_start_points sp [v] (fresh_index cf wp data) =
    Inr (fresh_index cf wp (data[cf_max_points cf := sp_prep sp v]))"
  using assms by (simp add: set_start_points_def fresh_index_def)

end
