(* ===== verification/IndexRuns.thy ===== *)
theory IndexRuns
  imports IndexOps
begin

text \<open>
  Runs of one DiskANN index as the cache uses it: insertions and lazy deletions by tag, and consolidations that
  work while insertions and deletions go on (\<open>concurrent_consolidate\<close>). A consolidation is not one step: it takes
  the delete set, repairs one location after the other in any order, and releases the slots at the end; between
  two of these steps whole insertions and deletions may happen. Every run keeps the invariant of the index and
  behaves as a dictionary from tags to vectors; consolidation is invisible to it.
\<close>

section \<open>Steps\<close>

datatype phase = Quiet | Visiting "nat list" "nat list"

datatype 'v ix_event = Inserted 'v u32 int | Deleted u32 int | Begun | Visited nat | Released

text \<open>\<open>Visiting old seen\<close>: the consolidation took \<open>old\<close> and has processed the locations \<open>seen\<close>.\<close>

inductive ix_step ::
  "(nat list \<Rightarrow> nat list) \<Rightarrow> 'v space \<Rightarrow> write_params \<Rightarrow> 'v vindex \<times> phase \<Rightarrow> 'v ix_event \<Rightarrow> 'v vindex \<times> phase \<Rightarrow> bool"
  for ord :: "nat list \<Rightarrow> nat list" and sp :: "'v space" and wp :: write_params where
  step_insert: "insert_point sp v tag ix = Inr (r, ix') \<Longrightarrow>
    ix_step ord sp wp (ix, ph) (Inserted v tag r) (ix', ph)"
| step_delete: "lazy_delete tag ix = (r, ix') \<Longrightarrow>
    ix_step ord sp wp (ix, ph) (Deleted tag r) (ix', ph)"
| step_begin: "consolidate_check ix = Inr None \<Longrightarrow> vx_start ix \<notin> set (vx_delete_set ix) \<Longrightarrow>
    ix_step ord sp wp (ix, Quiet) Begun (ix\<lparr>vx_delete_set := []\<rparr>, Visiting (vx_delete_set ix) [])"
| step_visit: "loc < vx_total ix \<Longrightarrow> loc \<notin> set seen \<Longrightarrow>
    consolidate_visit ord sp wp old loc (0, ix) = Inr (calls, ix') \<Longrightarrow>
    ix_step ord sp wp (ix, Visiting old seen) (Visited loc) (ix', Visiting old (loc # seen))"
| step_release: "{..<vx_total ix} \<subseteq> set seen \<Longrightarrow> release_locations (ord old) ix = Inr (n, ix') \<Longrightarrow>
    ix_step ord sp wp (ix, Visiting old seen) Released (ix', Quiet)"

inductive_cases ix_stepE: "ix_step ord sp wp s e s'"

section \<open>The dictionary\<close>

definition contents :: "'v vindex \<Rightarrow> u32 \<rightharpoonup> 'v" where
  "contents ix tag = map_option (\<lambda>loc. vx_data_store ix ! loc) (map_of (vx_tag_to_location ix) tag)"

text \<open>An insertion answers 0 and adds a fresh tag other than 0, or answers -1 and changes nothing; a deletion
  answers 0 exactly when the tag was there.\<close>

definition dict_step :: "'v space \<Rightarrow> (u32 \<rightharpoonup> 'v) \<Rightarrow> 'v ix_event \<Rightarrow> (u32 \<rightharpoonup> 'v) \<Rightarrow> bool" where
  "dict_step sp m e m' =
     (case e of
        Inserted v tag r \<Rightarrow> (r = 0 \<and> tag \<noteq> 0 \<and> m tag = None \<and> m' = m(tag \<mapsto> sp_prep sp v)) \<or> (r = - 1 \<and> m' = m)
      | Deleted tag r \<Rightarrow> r = (if m tag = None then - 1 else 0) \<and> m' = m(tag := None)
      | _ \<Rightarrow> m' = m)"

fun run_ok :: "nat \<Rightarrow> 'v vindex \<times> phase \<Rightarrow> bool" where
  "run_ok D (ix, Quiet) \<longleftrightarrow> index_inv D {} ix"
| "run_ok D (ix, Visiting old seen) \<longleftrightarrow> consolidating D old (set seen) ix"

section \<open>Each step keeps the invariant\<close>

lemma insert_point_cases:
  assumes "insert_point sp v tag ix = Inr (r, ix')" and "index_inv D P ix" and "numeric sp"
  obtains "r = - 1" and "ix' = ix"
  | loc where "r = 0" and "tag \<noteq> 0" and "map_of (vx_tag_to_location ix) tag = None" and "index_inv D P ix'"
    and "loc \<in> empty_set ix" and "map_of (vx_tag_to_location ix') = (map_of (vx_tag_to_location ix))(tag \<mapsto> loc)"
    and "vx_data_store ix' = (vx_data_store ix)[loc := sp_prep sp v]"
    and "occupied ix' = insert loc (occupied ix)"
    and "\<forall>i \<in> occupied ix. set (adj (vx_graph_store ix') i) \<subseteq> insert loc (set (adj (vx_graph_store ix) i))"
    and "set (adj (vx_graph_store ix') loc) \<subseteq> live ix" and "vx_max_points ix' = vx_max_points ix"
    and "vx_metric ix' = vx_metric ix"
proof -
  have tag: "tag \<noteq> 0" using assms(1) by (auto simp: insert_point_def)
  show ?thesis
  proof (cases "vx_max_points ix \<le> vx_nd ix")
    case True
    then show ?thesis using that(1) assms(1) insert_point_full [OF tag True] by simp
  next
    case room: False
    show ?thesis
    proof (cases "map_of (vx_tag_to_location ix) tag")
      case None
      have "vx_nd ix < vx_max_points ix" using room by simp
      from insert_point_new [OF assms(2,3) tag None this, of v] that(2) [OF _ tag None] assms(1)
      show ?thesis by (metis Inr_inject prod.inject)
    next
      case (Some loc)
      then have "map_of (vx_tag_to_location ix) tag \<noteq> None" by simp
      from insert_point_duplicate [OF assms(2) tag this, of sp v] show ?thesis using that(1) assms(1) by simp
    qed
  qed
qed

lemma insert_point_outcomes_total:
  assumes "index_inv D P ix" and "numeric sp" and "tag \<noteq> 0"
  shows "\<exists>r ix'. insert_point sp v tag ix = Inr (r, ix')"
proof (cases "vx_max_points ix \<le> vx_nd ix")
  case True
  then show ?thesis using insert_point_full [OF assms(3) True, of sp v] by auto
next
  case False
  then have room: "vx_nd ix < vx_max_points ix" by simp
  show ?thesis
    using insert_point_duplicate [OF assms(1,3), of sp v] insert_point_new [OF assms(1-3) _ room, of v] by metis
qed

lemma contents_put:
  assumes "slot_inv P ix" and "loc \<in> empty_set ix" and "loc < length (vx_data_store ix)"
    and "map_of (vx_tag_to_location ix') = (map_of (vx_tag_to_location ix))(tag \<mapsto> loc)"
    and "vx_data_store ix' = (vx_data_store ix)[loc := x]"
  shows "contents ix' = (contents ix)(tag \<mapsto> x)"
proof
  fix t
  have "l \<noteq> loc" if "map_of (vx_tag_to_location ix) t = Some l" for l
  proof -
    have "tag_at ix l = Some t" using that slot_invD(2) [OF assms(1)] by (simp add: tags_inverse_def)
    then have "l \<in> live ix" by blast
    then show ?thesis using part4_D(1) [OF slot_part [OF assms(1)] assms(2)] by blast
  qed
  then show "contents ix' t = ((contents ix)(tag \<mapsto> x)) t"
    using assms(3) by (cases "map_of (vx_tag_to_location ix) t") (auto simp: contents_def assms(4,5))
qed

lemma insert_contents:
  assumes "insert_point sp v tag ix = Inr (r, ix')" and "index_inv D P ix" and "numeric sp"
  shows "index_inv D P ix'" and "dict_step sp (contents ix) (Inserted v tag r) (contents ix')"
proof -
  note i = index_invD [OF assms(2)]
  show "index_inv D P ix'"
    by (rule insert_point_cases [OF assms]) (use assms(2) in auto)
  show "dict_step sp (contents ix) (Inserted v tag r) (contents ix')"
  proof (rule insert_point_cases [OF assms])
    fix loc assume a: "r = 0" "tag \<noteq> 0" "map_of (vx_tag_to_location ix) tag = None" "loc \<in> empty_set ix"
      "map_of (vx_tag_to_location ix') = (map_of (vx_tag_to_location ix))(tag \<mapsto> loc)"
      "vx_data_store ix' = (vx_data_store ix)[loc := sp_prep sp v]"
    have "loc < vx_max_points ix" using part4_D(1) [OF slot_part [OF i(1)] a(4)] by simp
    then have "loc < length (vx_data_store ix)" using i(9) by (simp add: index_shape_def)
    from contents_put [OF i(1) a(4) this a(5,6)] show ?thesis
      using a(1-3) by (simp add: dict_step_def contents_def)
  qed (simp add: dict_step_def)
qed

lemma insert_consolidating:
  assumes "insert_point sp v tag ix = Inr (r, ix')" and con: "consolidating D old vis ix" and "numeric sp"
  shows "consolidating D old vis ix'"
proof -
  have inv: "index_inv D (set old) ix" using con by (simp add: consolidating_def)
  note i = index_invD [OF inv]
  show ?thesis
  proof (rule insert_point_cases [OF assms(1) inv assms(3)])
    fix loc assume a: "index_inv D (set old) ix'" "loc \<in> empty_set ix" "occupied ix' = insert loc (occupied ix)"
      "\<forall>j \<in> occupied ix. set (adj (vx_graph_store ix') j) \<subseteq> insert loc (set (adj (vx_graph_store ix) j))"
      "set (adj (vx_graph_store ix') loc) \<subseteq> live ix"
    have new: "loc \<notin> set old" "live ix \<inter> set old = {}"
      using part4_D(1) [OF slot_part [OF i(1)] a(2)] part4_D(4) [OF slot_part [OF i(1)]] by blast+
    have "set (adj (vx_graph_store ix') j) \<inter> set old = {}" if j: "j \<in> occupied ix' - set old" "j \<in> vis" for j
    proof (cases "j = loc")
      case True
      then show ?thesis using a(5) new(2) by blast
    next
      case False
      then have "j \<in> occupied ix - set old" using j(1) a(3) by blast
      with j(2) con have "set (adj (vx_graph_store ix) j) \<inter> set old = {}" by (simp add: consolidating_def)
      then show ?thesis using a(4) \<open>j \<in> occupied ix - set old\<close> new(1) by blast
    qed
    then show ?thesis using a(1) con by (simp add: consolidating_def)
  qed (use con in simp)
qed

lemma contents_fields:
  "vx_tag_to_location ix' = vx_tag_to_location ix \<Longrightarrow> vx_data_store ix' = vx_data_store ix \<Longrightarrow> contents ix' = contents ix"
  by (simp add: contents_def fun_eq_iff)

lemma contents_updates [simp]:
  "contents (ix\<lparr>vx_graph_store := g\<rparr>) = contents ix"
  "contents (ix\<lparr>vx_delete_set := d\<rparr>) = contents ix"
  "contents (ix\<lparr>vx_empty_slots := e\<rparr>) = contents ix"
  "contents (ix\<lparr>vx_nd := n\<rparr>) = contents ix"
  by (rule contents_fields; simp)+

lemma delete_contents:
  assumes "lazy_delete tag ix = (r, ix')" and "slot_inv P ix"
  shows "dict_step sp (contents ix) (Deleted tag r) (contents ix')"
proof -
  have "vx_data_store ix' = vx_data_store ix" using lazy_delete_fields(2) [of tag ix] assms(1) by simp
  then show ?thesis
    using lazy_delete_spec(2,3) [OF assms(2,1)] by (auto simp: dict_step_def contents_def fun_eq_iff)
qed

lemma delete_consolidating:
  assumes "lazy_delete tag ix = (r, ix')" and "consolidating D old vis ix"
  shows "consolidating D old vis ix'"
proof -
  have ix': "ix' = snd (lazy_delete tag ix)" using assms(1) by simp
  have "index_inv D (set old) ix" using assms(2) by (simp add: consolidating_def)
  from lazy_delete_inv [OF this] show ?thesis
    using assms(2) unfolding ix' consolidating_def lazy_delete_fields by blast
qed

definition run_inv :: "nat \<Rightarrow> (nat list \<Rightarrow> nat list) \<Rightarrow> 'v space \<Rightarrow> write_params \<Rightarrow> 'v vindex \<times> phase \<Rightarrow> bool" where
  "run_inv D ord sp wp s \<longleftrightarrow> numeric sp \<and> consolidate_params D ord wp \<and> run_ok D s"

lemma ix_step_ok:
  assumes "ix_step ord sp wp s e s'" and "run_inv D ord sp wp s"
  shows "run_inv D ord sp wp s'" and "dict_step sp (contents (fst s)) e (contents (fst s'))"
proof -
  have num: "numeric sp" and par: "consolidate_params D ord wp" and ok: "run_ok D s"
    using assms(2) by (simp_all add: run_inv_def)
  have "run_ok D s' \<and> dict_step sp (contents (fst s)) e (contents (fst s'))"
    using assms(1)
  proof (cases rule: ix_step.cases)
    case (step_insert v tag ix r ix' ph)
    show ?thesis
    proof (cases ph)
      case Quiet
      then have "index_inv D {} ix" using ok step_insert by simp
      from insert_contents [OF step_insert(4) this num] show ?thesis using step_insert Quiet by simp
    next
      case (Visiting old vis)
      then have con: "consolidating D old (set vis) ix" using ok step_insert by simp
      then have "index_inv D (set old) ix" by (simp add: consolidating_def)
      from insert_contents(2) [OF step_insert(4) this num] insert_consolidating [OF step_insert(4) con num]
      show ?thesis using step_insert Visiting by simp
    qed
  next
    case (step_delete tag ix r ix' ph)
    have ix': "ix' = snd (lazy_delete tag ix)" using step_delete(4) by simp
    show ?thesis
    proof (cases ph)
      case Quiet
      then have inv: "index_inv D {} ix" using ok step_delete by simp
      from lazy_delete_inv [OF this, of tag] delete_contents [OF step_delete(4) index_invD(1) [OF inv], of sp]
      show ?thesis using step_delete Quiet unfolding ix' by simp
    next
      case (Visiting old vis)
      then have con: "consolidating D old (set vis) ix" using ok step_delete by simp
      then have "slot_inv (set old) ix" unfolding consolidating_def using index_invD(1) by blast
      from delete_consolidating [OF step_delete(4) con] delete_contents [OF step_delete(4) this, of sp]
      show ?thesis using step_delete Visiting by simp
    qed
  next
    case (step_begin ix)
    then have "index_inv D {} ix" using ok by simp
    from consolidate_start(1) [OF this] show ?thesis using step_begin by (simp add: dict_step_def)
  next
    case (step_visit loc ix seen old calls ix')
    then have con: "consolidating D old (set seen) ix" using ok by simp
    obtain g where g: "consolidate_visit ord sp wp old loc (0, ix) =
        Inr (0 + (if loc \<in> occupied ix - set old then 1 else 0), ix\<lparr>vx_graph_store := g\<rparr>)"
      "consolidating D old (insert loc (set seen)) (ix\<lparr>vx_graph_store := g\<rparr>)"
      by (rule consolidate_visit_spec [OF con num par step_visit(4)])
    then have "ix' = ix\<lparr>vx_graph_store := g\<rparr>" using step_visit(6) by simp
    then show ?thesis using step_visit g(2) by (simp add: dict_step_def)
  next
    case (step_release ix seen old n ix')
    then have con: "consolidating D old (set seen) ix" using ok by simp
    have "ord_ok ord" using par by (simp add: consolidate_params_def)
    then obtain empty where e: "release_locations (ord old) ix =
        Inr (vx_nd ix - length old, ix\<lparr>vx_empty_slots := empty, vx_nd := vx_nd ix - length old\<rparr>)"
      "index_inv D {} (ix\<lparr>vx_empty_slots := empty, vx_nd := vx_nd ix - length old\<rparr>)"
      using consolidate_end [OF con step_release(4)] by metis
    then have "ix' = ix\<lparr>vx_empty_slots := empty, vx_nd := vx_nd ix - length old\<rparr>" using step_release(5) by simp
    then show ?thesis using step_release e(2) by (simp add: dict_step_def)
  qed
  then show "run_inv D ord sp wp s'" "dict_step sp (contents (fst s)) e (contents (fst s'))"
    using num par by (simp_all add: run_inv_def)
qed

interpretation index_run: simulation "ix_step ord sp wp" "run_inv D ord sp wp" "\<lambda>s. contents (fst s)" "dict_step sp"
  for ord sp wp D
  by unfold_locales (use ix_step_ok in blast)+

section \<open>A search in terms of the dictionary\<close>

definition answer_of :: "'v space \<Rightarrow> metric \<Rightarrow> (u32 \<rightharpoonup> 'v) \<Rightarrow> 'v \<Rightarrow> (u32 \<times> fp) list \<Rightarrow> bool" where
  "answer_of sp m dict query res \<longleftrightarrow> distinct (map fst res) \<and>
     (\<forall>(tag, d) \<in> set res. \<exists>v. dict tag = Some v \<and> d = reported_distance m (sp_dist sp query v)) \<and>
     (m \<noteq> INNER_PRODUCT \<longrightarrow> sorted (map snd res))"

lemma tagged_result_answer:
  assumes "tagged_result sp ix query res"
  shows "answer_of sp (vx_metric ix) (contents ix) query res"
proof -
  note t = assms [unfolded tagged_result_def]
  note d = conjunct1 [OF t] and e = conjunct1 [OF conjunct2 [OF t]] and o = conjunct2 [OF conjunct2 [OF t]]
  have "\<forall>(tag, d) \<in> set res. \<exists>v. contents ix tag = Some v \<and> d = reported_distance (vx_metric ix) (sp_dist sp query v)"
    using e by (auto simp: contents_def)
  moreover have "vx_metric ix \<noteq> INNER_PRODUCT \<longrightarrow> sorted (map snd res)"
  proof
    assume "vx_metric ix \<noteq> INNER_PRODUCT"
    then have "reported_distance (vx_metric ix) = (\<lambda>d. d)" by (simp add: reported_distance_def fun_eq_iff)
    then show "sorted (map snd res)" using o by auto
  qed
  ultimately show ?thesis using d unfolding answer_of_def by (intro conjI)
qed

lemma search_contents:
  assumes "index_inv D P ix" and "numeric sp" and "0 < K" and "K \<le> L" and "K \<le> cap"
  obtains res where "search_with_tags sp ix query K L cap = Inr res" and "length res \<le> K"
    and "answer_of sp (vx_metric ix) (contents ix) query res"
proof -
  note i = index_invD [OF assms(1)]
  obtain st where st: "search_inv sp ix query L (\<lambda>i. True) st"
    "search_with_tags sp ix query K L cap = Inr (take K (map (tagged ix)
      (filter (\<lambda>k. snd k \<in> live ix) (map nb_key (npq_list (ss_best_L_nodes st))))))"
    by (rule search_with_tags_eq [OF assms(2) i(9) assms(3-5)])
  let ?res = "take K (map (tagged ix) (filter (\<lambda>k. snd k \<in> live ix) (map nb_key (npq_list (ss_best_L_nodes st)))))"
  have "tagged_result sp ix query ?res"
    unfolding search_invD(5) [OF st(1)] by (rule tagged_result_take [OF slot_invD(2) [OF i(1)] search_invD(7) [OF st(1)]])
  from tagged_result_answer [OF this] show ?thesis by (intro that [OF st(2)]) simp_all
qed

section \<open>An example\<close>

definition demo_params :: write_params where
  "demo_params = \<lparr>wp_search_list_size = 4, wp_max_degree = 2, wp_max_occlusion_size = 750, wp_alpha = Fin 1,
     wp_saturate_graph = False, wp_num_threads = 4\<rparr>"

definition demo_search :: search_params where
  "demo_search = \<lparr>sr_initial_search_list_size = 4, sr_num_search_threads = 1\<rparr>"

definition demo_config :: index_config where
  "demo_config = \<lparr>cf_metric = L2, cf_dimension = 1, cf_max_points = 2, cf_num_frozen_pts = 1, cf_dynamic_index = True,
     cf_enable_tags = True, cf_pq_dist_build = False, cf_concurrent_consolidate = True,
     cf_write_params = Some demo_params, cf_search_params = Some demo_search\<rparr>"

definition demo_fresh :: "rat vindex" where
  "demo_fresh = fresh_index demo_config demo_params [0, 0, 0]"

lemma demo_dynamic: "dynamic_config demo_config demo_params demo_search"
  by (simp add: dynamic_config_def demo_config_def demo_params_def demo_search_def fp_lt_def FLT_MAX_def fp_max_def
      binary32_def)

lemma demo_fresh_inv:
  obtains D where "index_inv D {} demo_fresh" and "run_inv D (\<lambda>xs. xs) line_space demo_params (demo_fresh, Quiet)"
proof -
  obtain b where b: "slack_bound (wp_max_degree demo_params) = Inr b"
    by (rule slack_bound_Inr [of "wp_max_degree demo_params"]) (simp add: demo_params_def)
  let ?D = "max b (wp_max_degree demo_params)"
  have inv: "index_inv ?D {} demo_fresh"
    unfolding demo_fresh_def by (rule fresh_index_inv [OF demo_dynamic _ _ b]) (simp_all add: demo_config_def)
  moreover have "consolidate_params ?D (\<lambda>xs. xs) demo_params"
    using demo_dynamic by (simp add: consolidate_params_def ord_ok_def dynamic_config_def)
  ultimately show ?thesis using that [OF inv] line_numeric by (simp add: run_inv_def)
qed

lemma demo_fresh_fields:
  "vx_nd demo_fresh = 0" "vx_max_points demo_fresh = 2" "vx_tag_to_location demo_fresh = []"
  "contents demo_fresh = Map.empty" "vx_delete_set demo_fresh = []" "vx_metric demo_fresh = L2"
  by (simp_all add: demo_fresh_def fresh_index_def demo_config_def contents_def fun_eq_iff)

lemma demo_insert:
  assumes "index_inv D {} demo_fresh"
  obtains ix where "insert_point line_space 5 7 demo_fresh = Inr (0, ix)" and "index_inv D {} ix"
    and "contents ix = [7 \<mapsto> 5]"
proof -
  have new: "(7::u32) \<noteq> 0" "map_of (vx_tag_to_location demo_fresh) 7 = None" "vx_nd demo_fresh < vx_max_points demo_fresh"
    by (simp_all add: demo_fresh_fields)
  obtain ix where ix: "insert_point line_space 5 7 demo_fresh = Inr (0, ix)" "index_inv D {} ix"
    by (rule insert_point_new [OF assms line_numeric new])
  have "dict_step line_space Map.empty (Inserted 5 7 0) (contents ix)"
    using insert_contents(2) [OF ix(1) assms line_numeric] by (simp add: demo_fresh_fields)
  then have "contents ix = [7 \<mapsto> 5]" by (simp add: dict_step_def line_space_def)
  with ix show ?thesis by (rule that)
qed

section \<open>A second consolidation\<close>

text \<open>A call of \<open>consolidate_deletes\<close> while another one runs holds the delete set \<open>old\<close>: the counts it checks
  first are out of step by the points of \<open>old\<close>, and the consolidation lock is taken.\<close>

lemma consolidate_deletes_again:
  assumes "consolidating D old vis ix"
  shows "consolidate_deletes ord sp wp False ix =
    Inr (empty_report (if old = [] then LOCK_FAIL else INCONSISTENT_COUNT_ERROR), ix)"
proof -
  have inv: "index_inv D (set old) ix" and old: "distinct old"
    using assms by (simp_all add: consolidating_def)
  note i = index_invD [OF inv]
  note slots = slot_invD [OF i(1)]
  have "card (set old) = length old" using old by (rule distinct_card)
  moreover have "nnm_size (vx_location_to_tag ix) = card (live ix)" by (rule nnm_size_dom [OF slots(5)])
  moreover have "length (vx_tag_to_location ix) = card (live ix)" by (rule live_card(2) [OF slots(2,6)])
  ultimately have "consolidate_check ix = (if old = [] then Inr None else Inr (Some (empty_report INCONSISTENT_COUNT_ERROR)))"
    using slot_counts [OF i(1)] slots(9) i(5) by (simp add: consolidate_check_def)
  then show ?thesis by (simp add: consolidate_deletes_def)
qed

section \<open>Properties\<close>

text \<open>C3: An index is a dictionary from tags to vectors, also while a consolidation runs. Along every interleaving
  of insertions, lazy deletions and the steps of consolidations, an insertion that answers 0 adds a tag that was
  absent, one that answers -1 changes nothing, a deletion answers 0 exactly for a tag that is present and removes it,
  and consolidation changes no entry. The invariant of the index is kept: slots are live, deleted, pending or
  empty, the tag maps are inverse, and no location in use has an edge into an empty slot.\<close>

theorem index_refines_dictionary:
  assumes "run (ix_step ord sp wp) s es s'" and "run_inv D ord sp wp s"
  shows "run_inv D ord sp wp s' \<and> run (dict_step sp) (contents (fst s)) es (contents (fst s'))"
  using index_run.run_inv [OF assms] index_run.run_spec [OF assms] by blast

theorem index_refines_dictionary_witness:
  "\<exists>D s. run (ix_step (\<lambda>xs. xs) line_space demo_params) (demo_fresh, Quiet) [Inserted 5 7 0, Begun, Deleted 7 0] s \<and>
     run_inv D (\<lambda>xs. xs) line_space demo_params s \<and> contents (fst s) = Map.empty"
proof -
  obtain D where D: "index_inv D {} demo_fresh" "run_inv D (\<lambda>xs. xs) line_space demo_params (demo_fresh, Quiet)"
    by (rule demo_fresh_inv)
  obtain ix where ix: "insert_point line_space 5 7 demo_fresh = Inr (0, ix)" "index_inv D {} ix" "contents ix = [7 \<mapsto> 5]"
    by (rule demo_insert [OF D(1)])
  let ?ix1 = "ix\<lparr>vx_delete_set := []\<rparr>"
  have "map_of (vx_tag_to_location ix) 7 \<noteq> None" using fun_cong [OF ix(3), of 7] by (auto simp: contents_def)
  then obtain ix2 where ix2: "lazy_delete 7 ?ix1 = (0, ix2)" by (auto simp: lazy_delete_def)
  let ?step = "ix_step (\<lambda>xs. xs) line_space demo_params" and ?s = "(ix2, Visiting (vx_delete_set ix) [])"
  note i = index_invD [OF ix(2)]
  have "?step (demo_fresh, Quiet) (Inserted 5 7 0) (ix, Quiet)" by (rule step_insert [OF ix(1)])
  moreover have "?step (ix, Quiet) Begun (?ix1, Visiting (vx_delete_set ix) [])"
    by (rule step_begin [OF consolidate_check_None [OF i(1,5)] consolidate_start(2) [OF ix(2)]])
  moreover have "?step (?ix1, Visiting (vx_delete_set ix) []) (Deleted 7 0) ?s" by (rule step_delete [OF ix2])
  ultimately have r: "run ?step (demo_fresh, Quiet) [Inserted 5 7 0, Begun, Deleted 7 0] ?s"
    by (auto intro: run.intros)
  note res = index_refines_dictionary [OF r D(2)]
  then have "contents ix2 = Map.empty"
    by (auto simp: run_Cons_iff dict_step_def demo_fresh_fields line_space_def)
  then show ?thesis using r res by (intro exI [of _ D] exI [of _ ?s]) simp
qed

text \<open>C11: No operation of an index fails while its invariant holds, at any point of a running consolidation: an
  insertion with a tag other than 0 and a deletion return, a location can be repaired without fault, and when all
  have been visited the slots are released without fault. Outside a consolidation a whole one runs to
  SUCCESS and leaves an index in which the same holds; while one runs, a second call faults on nothing and
  changes nothing: it answers INCONSISTENT_COUNT_ERROR when the running one took deleted points out
  of the counts, and LOCK_FAIL otherwise.\<close>

theorem index_never_stuck:
  assumes "run_inv D ord sp wp s"
  shows "(tag \<noteq> 0 \<longrightarrow> (\<exists>r s'. ix_step ord sp wp s (Inserted v tag r) s')) \<and>
    (\<exists>r s'. ix_step ord sp wp s (Deleted tag r) s') \<and>
    (case snd s of
       Quiet \<Rightarrow> (\<exists>s'. ix_step ord sp wp s Begun s') \<and>
         (\<exists>report ix'. consolidate_deletes ord sp wp True (fst s) = Inr (report, ix') \<and>
           cr_status report = SUCCESS \<and> run_inv D ord sp wp (ix', Quiet))
     | Visiting old seen \<Rightarrow>
         (\<forall>loc < vx_total (fst s). loc \<notin> set seen \<longrightarrow> (\<exists>s'. ix_step ord sp wp s (Visited loc) s')) \<and>
         ({..<vx_total (fst s)} \<subseteq> set seen \<longrightarrow> (\<exists>s'. ix_step ord sp wp s Released s')) \<and>
         consolidate_deletes ord sp wp False (fst s) =
           Inr (empty_report (if old = [] then LOCK_FAIL else INCONSISTENT_COUNT_ERROR), fst s))"
proof -
  obtain ix ph where s: "s = (ix, ph)" by (cases s)
  have num: "numeric sp" and par: "consolidate_params D ord wp" and ok: "run_ok D (ix, ph)"
    using assms by (simp_all add: run_inv_def s)
  obtain P where inv: "index_inv D P ix" using ok by (cases ph) (auto simp: consolidating_def)
  have "\<exists>r ix'. insert_point sp v tag ix = Inr (r, ix')" if "tag \<noteq> 0"
    by (rule insert_point_outcomes_total [OF inv num that])
  then have "tag \<noteq> 0 \<longrightarrow> (\<exists>r s'. ix_step ord sp wp s (Inserted v tag r) s')"
    unfolding s by (blast intro: step_insert)
  moreover obtain r ix' where "lazy_delete tag ix = (r, ix')" by (cases "lazy_delete tag ix")
  then have "\<exists>r s'. ix_step ord sp wp s (Deleted tag r) s'" unfolding s by (blast intro: step_delete)
  moreover have "(\<exists>s'. ix_step ord sp wp s Begun s') \<and>
      (\<exists>report ix'. consolidate_deletes ord sp wp True ix = Inr (report, ix') \<and> cr_status report = SUCCESS \<and>
        run_inv D ord sp wp (ix', Quiet))" if "ph = Quiet"
  proof (rule conjI)
    have inv: "index_inv D {} ix" using ok that by simp
    then show "\<exists>s'. ix_step ord sp wp s Begun s'"
      using step_begin [OF consolidate_check_None [OF index_invD(1,5) [OF inv]] consolidate_start(2) [OF inv]]
      unfolding s that by blast
    show "\<exists>report ix'. consolidate_deletes ord sp wp True ix = Inr (report, ix') \<and> cr_status report = SUCCESS \<and>
        run_inv D ord sp wp (ix', Quiet)"
      by (rule consolidate_deletes_success [OF inv num par]) (auto simp: run_inv_def num par)
  qed
  moreover have "(\<forall>loc < vx_total ix. loc \<notin> set seen \<longrightarrow> (\<exists>s'. ix_step ord sp wp s (Visited loc) s')) \<and>
      ({..<vx_total ix} \<subseteq> set seen \<longrightarrow> (\<exists>s'. ix_step ord sp wp s Released s')) \<and>
      consolidate_deletes ord sp wp False ix =
        Inr (empty_report (if old = [] then LOCK_FAIL else INCONSISTENT_COUNT_ERROR), ix)" if ph: "ph = Visiting old seen" for old seen
  proof -
    have con: "consolidating D old (set seen) ix" using ok ph by simp
    have "ord_ok ord" using par by (simp add: consolidate_params_def)
    note fin = consolidate_end [OF con _ this]
    have "\<exists>s'. ix_step ord sp wp s (Visited loc) s'" if "loc < vx_total ix" "loc \<notin> set seen" for loc
      using consolidate_visit_spec [OF con num par that(1), of 0] step_visit [OF that] unfolding s ph by metis
    moreover have "\<exists>s'. ix_step ord sp wp s Released s'" if "{..<vx_total ix} \<subseteq> set seen"
      using fin [OF that] step_release [OF that] unfolding s ph by metis
    ultimately show ?thesis using consolidate_deletes_again [OF con] by blast
  qed
  ultimately show ?thesis unfolding s by (cases ph) auto
qed

theorem index_never_stuck_witness:
  "\<exists>s old. run (ix_step (\<lambda>xs. xs) line_space demo_params) (demo_fresh, Quiet) [Inserted 5 7 0, Deleted 7 0, Begun] s \<and>
     snd s = Visiting old [] \<and> old \<noteq> [] \<and> (\<exists>s'. ix_step (\<lambda>xs. xs) line_space demo_params s (Visited 0) s') \<and>
     consolidate_deletes (\<lambda>xs. xs) line_space demo_params False (fst s) = Inr (empty_report INCONSISTENT_COUNT_ERROR, fst s)"
proof -
  let ?step = "ix_step (\<lambda>xs. xs) line_space demo_params"
  obtain D where D: "index_inv D {} demo_fresh" "run_inv D (\<lambda>xs. xs) line_space demo_params (demo_fresh, Quiet)"
    by (rule demo_fresh_inv)
  obtain ix where ix: "insert_point line_space 5 7 demo_fresh = Inr (0, ix)" "index_inv D {} ix" "contents ix = [7 \<mapsto> 5]"
    by (rule demo_insert [OF D(1)])
  obtain loc where loc: "map_of (vx_tag_to_location ix) 7 = Some loc"
    using fun_cong [OF ix(3), of 7] by (auto simp: contents_def)
  let ?ix1 = "snd (lazy_delete 7 ix)"
  have del: "lazy_delete 7 ix = (0, ?ix1)" using loc by (simp add: lazy_delete_def)
  have inv: "index_inv D {} ?ix1" by (rule lazy_delete_inv [OF ix(2)])
  let ?s = "(?ix1\<lparr>vx_delete_set := []\<rparr>, Visiting (vx_delete_set ?ix1) [])"
  have old: "vx_delete_set ?ix1 \<noteq> []" using loc by (auto simp: lazy_delete_def delete_tag_def List.insert_def dest: in_set_not_Nil)
  note i = index_invD [OF inv]
  have "?step (ix, Quiet) (Deleted 7 0) (?ix1, Quiet)" by (rule step_delete [OF del])
  moreover have "?step (?ix1, Quiet) Begun ?s"
    by (rule step_begin [OF consolidate_check_None [OF i(1,5)] consolidate_start(2) [OF inv]])
  moreover have "?step (demo_fresh, Quiet) (Inserted 5 7 0) (ix, Quiet)" by (rule step_insert [OF ix(1)])
  ultimately have r: "run ?step (demo_fresh, Quiet) [Inserted 5 7 0, Deleted 7 0, Begun] ?s"
    by (auto intro: run.intros)
  have run: "run_inv D (\<lambda>xs. xs) line_space demo_params ?s" by (rule index_run.run_inv [OF r D(2)])
  have "0 < vx_total (fst ?s)" using i(8) by simp
  then have "\<exists>s'. ?step ?s (Visited 0) s'" and
    "consolidate_deletes (\<lambda>xs. xs) line_space demo_params False (fst ?s) = Inr (empty_report INCONSISTENT_COUNT_ERROR, fst ?s)"
    using index_never_stuck [OF run, of 1 0] old by simp_all
  then show ?thesis using r old by (intro exI [of _ ?s] exI [of _ "vx_delete_set ?ix1"]) simp
qed

text \<open>C5: A search during any run, with a consolidation going on or not, returns at most \<open>K\<close> entries of the
  dictionary, each once and with the distance of its vector: a deleted point is never returned, although its slot
  and its edges are still there.\<close>

theorem run_search_sound:
  assumes "run (ix_step ord sp wp) s es s'" and "run_inv D ord sp wp s" and "0 < K" and "K \<le> L" and "K \<le> cap"
  shows "\<exists>res. search_with_tags sp (fst s') query K L cap = Inr res \<and> length res \<le> K \<and> distinct (map fst res) \<and>
    (\<forall>(tag, d) \<in> set res. \<exists>v. contents (fst s') tag = Some v \<and>
       d = reported_distance (vx_metric (fst s')) (sp_dist sp query v))"
proof -
  have inv: "run_inv D ord sp wp s'" by (rule index_run.run_inv [OF assms(1,2)])
  then have num: "numeric sp" by (simp add: run_inv_def)
  obtain ix ph where s: "s' = (ix, ph)" by (cases s')
  obtain P where "index_inv D P ix" using inv by (cases ph) (auto simp: run_inv_def s consolidating_def)
  then obtain res where "search_with_tags sp ix query K L cap = Inr res" "length res \<le> K"
    "answer_of sp (vx_metric ix) (contents ix) query res"
    by (rule search_contents [OF _ num assms(3-5)])
  then show ?thesis unfolding s by (auto simp: answer_of_def)
qed

theorem run_search_sound_witness:
  "\<exists>s res. run (ix_step (\<lambda>xs. xs) line_space demo_params) (demo_fresh, Quiet) [Inserted 5 7 0] s \<and>
     search_with_tags line_space (fst s) 4 1 4 1 = Inr res \<and> (\<forall>(tag, d) \<in> set res. tag = 7)"
proof -
  obtain D where D: "index_inv D {} demo_fresh" "run_inv D (\<lambda>xs. xs) line_space demo_params (demo_fresh, Quiet)"
    by (rule demo_fresh_inv)
  obtain ix where ix: "insert_point line_space 5 7 demo_fresh = Inr (0, ix)" "contents ix = [7 \<mapsto> 5]"
    by (rule demo_insert [OF D(1)])
  have r: "run (ix_step (\<lambda>xs. xs) line_space demo_params) (demo_fresh, Quiet) [Inserted 5 7 0] (ix, Quiet)"
    by (intro run_Cons [OF _ run_Nil] step_insert ix(1))
  from run_search_sound [OF r D(2), of 1 4 1 4] obtain res where
    "search_with_tags line_space ix 4 1 4 1 = Inr res" "\<forall>(tag, d) \<in> set res. contents ix tag \<noteq> None" by force
  then show ?thesis using r ix(2) by (intro exI [of _ "(ix, Quiet)"] exI [of _ res]) (auto split: if_splits)
qed

text \<open>C10: What an insertion does, on every branch. Tag 0 throws. Otherwise it answers 0 exactly when the tag is not in the
  dictionary and a slot is free (live and lazily deleted points together are fewer than \<open>max_points\<close>); then the
  vector is stored under the tag and one slot more is in use. Else it answers -1 and gives the reserved slot back, so
  that the index is as before: a point whose tag is present keeps its old vector.\<close>

theorem insert_point_outcomes:
  assumes "index_inv D {} ix" and "numeric sp"
  shows "if tag = 0 then \<exists>msg. insert_point sp v tag ix = Inl (Throws msg)
    else if contents ix tag = None \<and> get_number_of_active_vectors ix + get_number_of_lazy_deleted_points ix < vx_max_points ix
    then \<exists>ix' loc. insert_point sp v tag ix = Inr (0, ix') \<and> index_inv D {} ix' \<and>
      contents ix' = (contents ix)(tag \<mapsto> sp_prep sp v) \<and> loc \<notin> occupied ix \<and> occupied ix' = insert loc (occupied ix)
    else insert_point sp v tag ix = Inr (- 1, ix)"
proof (cases "tag = 0")
  case True
  then show ?thesis by (simp add: insert_point_def)
next
  case tag: False
  note i = index_invD [OF assms(1)]
  have nd: "vx_nd ix = get_number_of_active_vectors ix + get_number_of_lazy_deleted_points ix"
    using active_count [OF i(1)] slot_invD(9) [OF i(1)] by (simp add: get_number_of_lazy_deleted_points_def)
  have absent: "contents ix tag = None \<longleftrightarrow> map_of (vx_tag_to_location ix) tag = None" by (simp add: contents_def)
  show ?thesis
  proof (cases "contents ix tag = None \<and> vx_nd ix < vx_max_points ix")
    case True
    obtain ix' where ix': "insert_point sp v tag ix = Inr (0, ix')"
      using insert_point_new [OF assms tag, of v] True absent by metis
    obtain loc where "loc \<in> empty_set ix" "occupied ix' = insert loc (occupied ix)"
      by (rule insert_point_cases [OF ix' assms]) auto
    moreover have "contents ix' = (contents ix)(tag \<mapsto> sp_prep sp v)"
      using insert_contents(2) [OF ix' assms] by (simp add: dict_step_def)
    ultimately show ?thesis
      using True tag ix' insert_contents(1) [OF ix' assms] unfolding nd by (auto simp: occupied_def)
  next
    case False
    then have "insert_point sp v tag ix = Inr (- 1, ix)"
      using insert_point_full [OF tag] insert_point_duplicate [OF assms(1) tag] absent by (metis not_le)
    then show ?thesis using False tag unfolding nd by auto
  qed
qed

theorem insert_point_outcomes_witness:
  "\<exists>ix. insert_point line_space 5 7 demo_fresh = Inr (0, ix) \<and> contents ix 7 = Some 5"
proof -
  obtain D where D: "index_inv D {} demo_fresh" by (rule demo_fresh_inv)
  from insert_point_outcomes [OF D line_numeric, of 7 5] show ?thesis
    by (auto simp: demo_fresh_fields get_number_of_active_vectors_def get_number_of_lazy_deleted_points_def line_space_def)
qed

text \<open>C8: A consolidation that gets its lock succeeds. It reports the live points as active, releases exactly the
  lazily deleted slots, repairs every location that stays in use, and leaves the dictionary as it was; afterwards
  no location in use has an edge to a released slot. Without the lock it reports so and changes nothing.\<close>

theorem consolidate_deletes_frees:
  assumes "index_inv D {} ix" and "numeric sp" and "consolidate_params D ord wp"
  shows "(\<exists>report ix'. consolidate_deletes ord sp wp True ix = Inr (report, ix') \<and> cr_status report = SUCCESS \<and>
      cr_active_points report = get_number_of_active_vectors ix \<and>
      cr_slots_released report = get_number_of_lazy_deleted_points ix \<and>
      cr_num_calls_to_process_delete report = card (occupied ix') \<and>
      index_inv D {} ix' \<and> contents ix' = contents ix \<and> vx_delete_set ix' = [] \<and>
      occupied ix' = occupied ix - set (vx_delete_set ix) \<and>
      (\<forall>i \<in> occupied ix'. set (adj (vx_graph_store ix') i) \<inter> set (vx_delete_set ix) = {})) \<and>
    consolidate_deletes ord sp wp False ix = Inr (empty_report LOCK_FAIL, ix)"
proof (rule conjI)
  note i = index_invD [OF assms(1)]
  obtain g empty where c: "consolidate_deletes ord sp wp True ix =
      Inr (\<lparr>cr_status = SUCCESS, cr_active_points = card (live ix), cr_max_points = vx_max_points ix,
            cr_empty_slots = vx_max_points ix - card (live ix), cr_slots_released = length (vx_delete_set ix),
            cr_delete_set_size = 0,
            cr_num_calls_to_process_delete = card (occupied ix - set (vx_delete_set ix))\<rparr>,
          ix\<lparr>vx_delete_set := [], vx_graph_store := g, vx_empty_slots := empty, vx_nd := card (live ix)\<rparr>)"
    "index_inv D {} (ix\<lparr>vx_delete_set := [], vx_graph_store := g, vx_empty_slots := empty, vx_nd := card (live ix)\<rparr>)"
    "occupied (ix\<lparr>vx_delete_set := [], vx_graph_store := g, vx_empty_slots := empty, vx_nd := card (live ix)\<rparr>) =
      occupied ix - set (vx_delete_set ix)"
    by (rule consolidate_deletes_success [OF assms])
  let ?ix = "ix\<lparr>vx_delete_set := [], vx_graph_store := g, vx_empty_slots := empty, vx_nd := card (live ix)\<rparr>"
  have "graph_ok D (occupied ?ix) ?ix" by (rule index_invD(2) [OF c(2)])
  then have "\<forall>j \<in> occupied ?ix. set (adj (vx_graph_store ?ix) j) \<inter> set (vx_delete_set ix) = {}"
    unfolding c(3) graph_ok_def by blast
  then show "\<exists>report ix'. consolidate_deletes ord sp wp True ix = Inr (report, ix') \<and> cr_status report = SUCCESS \<and>
      cr_active_points report = get_number_of_active_vectors ix \<and>
      cr_slots_released report = get_number_of_lazy_deleted_points ix \<and>
      cr_num_calls_to_process_delete report = card (occupied ix') \<and>
      index_inv D {} ix' \<and> contents ix' = contents ix \<and> vx_delete_set ix' = [] \<and>
      occupied ix' = occupied ix - set (vx_delete_set ix) \<and>
      (\<forall>i \<in> occupied ix'. set (adj (vx_graph_store ix') i) \<inter> set (vx_delete_set ix) = {})"
    using c(2,3) active_count [OF i(1)]
    by - (rule exI, rule exI, rule conjI, rule c(1), simp add: get_number_of_lazy_deleted_points_def)
  show "consolidate_deletes ord sp wp False ix = Inr (empty_report LOCK_FAIL, ix)"
    using consolidate_check_None [OF i(1,5)] by (simp add: consolidate_deletes_def)
qed

theorem consolidate_deletes_frees_witness:
  "\<exists>report ix. consolidate_deletes (\<lambda>xs. xs) line_space demo_params True demo_fresh = Inr (report, ix) \<and>
     cr_status report = SUCCESS \<and> contents ix = Map.empty"
proof -
  obtain D where D: "index_inv D {} demo_fresh" "run_inv D (\<lambda>xs. xs) line_space demo_params (demo_fresh, Quiet)"
    by (rule demo_fresh_inv)
  then have "consolidate_params D (\<lambda>xs. xs) demo_params" by (simp add: run_inv_def)
  from consolidate_deletes_frees [OF D(1) line_numeric this] show ?thesis
    unfolding demo_fresh_fields by blast
qed

end
