(* ===== verification/LruCache.thy ===== *)
theory LruCache
  imports QvPrelude "HOL-Library.Multiset"
begin

text \<open>
  The class \<open>LRUCache\<close> of \<open>include/qvcache/lru_cache.h\<close>: a doubly linked list in recency order
  and a hash map from a tag to the list node that holds it.

  A \<open>std::list\<close> iterator names a node and stays valid while other nodes move, so a node is a
  number that no later node reuses: \<open>order_list\<close> lists the nodes front to back with their tags,
  and \<open>tag_map\<close> maps a tag to its node. Each method holds \<open>mutex_\<close> for its whole body, so it is one
  atomic step of the model. \<open>back()\<close> of an empty list is undefined behaviour in C++, hence a fault.
\<close>

section \<open>State and operations\<close>

record 'a lru_cache =
  order_list :: "(nat \<times> 'a) list"
  tag_map :: "'a \<rightharpoonup> nat"
  next_node :: nat
  lru_capacity :: nat

definition lru_new :: "nat \<Rightarrow> 'a lru_cache" where
  "lru_new max_capacity =
     \<lparr>order_list = [], tag_map = Map.empty, next_node = 0, lru_capacity = max_capacity\<rparr>"

text \<open>\<open>order_list.splice(order_list.begin(), order_list, it)\<close>: the node moves to the front.\<close>

definition lru_splice_front :: "nat \<Rightarrow> (nat \<times> 'a) list \<Rightarrow> (nat \<times> 'a) list" where
  "lru_splice_front it xs = filter (\<lambda>p. fst p = it) xs @ filter (\<lambda>p. fst p \<noteq> it) xs"

definition lru_pop_back :: "'a lru_cache \<Rightarrow> ('a \<times> 'a lru_cache) result" where
  "lru_pop_back c =
     (if order_list c = [] then Inl (Undefined ''back of an empty list'')
      else let lru_tag = snd (last (order_list c))
           in Inr (lru_tag, c\<lparr>order_list := butlast (order_list c),
                              tag_map := (tag_map c)(lru_tag := None)\<rparr>))"

definition lru_push_front :: "'a \<Rightarrow> 'a lru_cache \<Rightarrow> 'a lru_cache" where
  "lru_push_front tag c =
     c\<lparr>order_list := (next_node c, tag) # order_list c,
       tag_map := (tag_map c)(tag \<mapsto> next_node c),
       next_node := Suc (next_node c)\<rparr>"

definition lru_access :: "'a \<Rightarrow> 'a lru_cache \<Rightarrow> (bool \<times> 'a lru_cache) result" where
  "lru_access tag c =
     (case tag_map c tag of
        Some it \<Rightarrow> Inr (False, c\<lparr>order_list := lru_splice_front it (order_list c)\<rparr>)
      | None \<Rightarrow>
          if length (order_list c) \<ge> lru_capacity c
          then rbind (lru_pop_back c) (\<lambda>(_, c'). Inr (True, lru_push_front tag c'))
          else Inr (True, lru_push_front tag c))"

fun lru_evict_loop :: "nat \<Rightarrow> 'a list \<Rightarrow> 'a lru_cache \<Rightarrow> ('a list \<times> 'a lru_cache) result" where
  "lru_evict_loop 0 evicted c = Inr (evicted, c)"
| "lru_evict_loop (Suc k) evicted c =
     rbind (lru_pop_back c) (\<lambda>(lru_tag, c'). lru_evict_loop k (evicted @ [lru_tag]) c')"

text \<open>
  \<open>evicted_tags.reserve(n)\<close> comes before \<open>n\<close> is clamped to the size: it throws \<open>length_error\<close> above
  \<open>max_size()\<close> of a vector of tags of \<open>tag_bytes\<close> bytes, and \<open>bad_alloc\<close> when the allocator does not
  grant the block, which the argument \<open>grants\<close> decides. Either leaves the cache as it was.
  The allocations whose size the cache bounds itself are taken to succeed.
\<close>

definition vector_reserve :: "nat \<Rightarrow> (nat \<Rightarrow> bool) \<Rightarrow> nat \<Rightarrow> unit result" where
  "vector_reserve tag_bytes grants n =
     (if n > (2 ^ 63 - 1) div tag_bytes then Inl (Throws ''vector::reserve'')
      else if 0 < n \<and> \<not> grants n then Inl (Throws ''std::bad_alloc'')
      else Inr ())"

definition lru_evict ::
    "nat \<Rightarrow> (nat \<Rightarrow> bool) \<Rightarrow> nat \<Rightarrow> 'a lru_cache \<Rightarrow> ('a list \<times> 'a lru_cache) result" where
  "lru_evict tag_bytes grants n c =
     rbind (vector_reserve tag_bytes grants n) (\<lambda>_.
     lru_evict_loop (min n (length (order_list c))) [] c)"

definition lru_contains :: "'a lru_cache \<Rightarrow> 'a \<Rightarrow> bool" where
  "lru_contains c tag \<longleftrightarrow> tag_map c tag \<noteq> None"

definition lru_size :: "'a lru_cache \<Rightarrow> nat" where
  "lru_size c = length (order_list c)"

definition lru_empty :: "'a lru_cache \<Rightarrow> bool" where
  "lru_empty c \<longleftrightarrow> order_list c = []"

definition lru_max_capacity :: "'a lru_cache \<Rightarrow> nat" where
  "lru_max_capacity c = lru_capacity c"

definition lru_clear :: "'a lru_cache \<Rightarrow> 'a lru_cache" where
  "lru_clear c = c\<lparr>order_list := [], tag_map := Map.empty\<rparr>"

definition lru_get_all_tags :: "'a lru_cache \<Rightarrow> 'a list" where
  "lru_get_all_tags c = map snd (order_list c)"

definition lru_get_mru_tags :: "nat \<Rightarrow> 'a lru_cache \<Rightarrow> 'a list" where
  "lru_get_mru_tags n c = copy_n n (map snd (order_list c))"

definition lru_get_lru_tags :: "nat \<Rightarrow> 'a lru_cache \<Rightarrow> 'a list" where
  "lru_get_lru_tags n c = copy_n n (map snd (rev (order_list c)))"

lemma length_lru_get_all_tags [simp]: "length (lru_get_all_tags c) = length (order_list c)"
  by (simp add: lru_get_all_tags_def)

section \<open>Representation invariant\<close>

text \<open>
  Nodes and tags of the list are distinct, the hash map is exactly the inverse of the list
  (every entry an iterator to a live node that holds that tag, and conversely), node numbers are
  fresh, and the list respects the capacity.
\<close>

definition lru_inv :: "'a lru_cache \<Rightarrow> bool" where
  "lru_inv c \<longleftrightarrow>
     distinct (map fst (order_list c)) \<and> distinct (map snd (order_list c)) \<and>
     tag_map c = map_of (map prod.swap (order_list c)) \<and>
     (\<forall>n \<in> set (map fst (order_list c)). n < next_node c) \<and>
     length (order_list c) \<le> lru_capacity c"

lemma lru_inv_tag_map:
  assumes "lru_inv c"
  shows "tag_map c t = Some it \<longleftrightarrow> (it, t) \<in> set (order_list c)"
proof -
  have "distinct (map fst (map prod.swap (order_list c)))"
    using assms by (simp add: lru_inv_def o_def)
  then have "map_of (map prod.swap (order_list c)) t = Some it
      \<longleftrightarrow> (t, it) \<in> set (map prod.swap (order_list c))"
    by simp
  then show ?thesis using assms by (auto simp: lru_inv_def)
qed

lemma lru_inv_tag_map_None:
  assumes "lru_inv c"
  shows "tag_map c t = None \<longleftrightarrow> t \<notin> set (lru_get_all_tags c)"
  using lru_inv_tag_map [OF assms, of t]
  by (force simp: lru_get_all_tags_def simp flip: not_Some_eq)

lemma lru_inv_new [simp]: "lru_inv (lru_new cap)"
  by (simp add: lru_inv_def lru_new_def)

lemma lru_inv_clear [simp]: "lru_inv (lru_clear c)"
  by (simp add: lru_inv_def lru_clear_def)

section \<open>The abstract cache: a recency list\<close>

text \<open>
  What the class promises: a duplicate-free list, most recently used first. An access moves the tag
  to the front; a new tag pushes the last one out when the list is full.
\<close>

definition recency_access :: "nat \<Rightarrow> 'a \<Rightarrow> 'a list \<Rightarrow> 'a list" where
  "recency_access cap t xs =
     t # (if t \<in> set xs then filter (\<lambda>u. u \<noteq> t) xs
          else if length xs \<ge> cap then butlast xs else xs)"

definition recency_evict :: "nat \<Rightarrow> 'a list \<Rightarrow> 'a list \<times> 'a list" where
  "recency_evict n xs = (take n (rev xs), take (length xs - n) xs)"

text \<open>Which error an eviction of \<open>n\<close> tags throws, if any: it depends on \<open>n\<close> alone, not on the cache.\<close>

definition evict_error :: "nat \<Rightarrow> (nat \<Rightarrow> bool) \<Rightarrow> nat \<Rightarrow> string option" where
  "evict_error tag_bytes grants n =
     (if n > (2 ^ 63 - 1) div tag_bytes then Some ''vector::reserve''
      else if n = 0 \<or> grants n then None else Some ''std::bad_alloc'')"

subsection \<open>The list steps under the abstraction\<close>

lemma splice_front_abs:
  assumes "distinct (map fst xs)" and "distinct (map snd xs)" and "(it, t) \<in> set xs"
  shows "map snd (lru_splice_front it xs) = t # filter (\<lambda>u. u \<noteq> t) (map snd xs)"
proof -
  have same: "fst p = it \<longleftrightarrow> snd p = t" if "p \<in> set xs" for p
    using that assms by (metis eq_key_imp_eq_value fst_conv map_of_is_SomeI map_of_SomeD
        inj_onD distinct_map snd_conv prod.collapse)
  have "filter (\<lambda>p. fst p = it) xs = [(it, t)]"
    using assms(1,3)
  proof (induction xs)
    case (Cons p xs)
    then show ?case
      by (cases "fst p = it") (auto simp: filter_empty_conv rev_image_eqI)
  qed simp
  moreover have "filter (\<lambda>p. fst p \<noteq> it) xs = filter (\<lambda>p. snd p \<noteq> t) xs"
    by (rule filter_cong) (use same in auto)
  ultimately show ?thesis by (simp add: lru_splice_front_def filter_map o_def)
qed

lemma mset_splice_front [simp]: "mset (lru_splice_front it xs) = mset xs"
  by (simp add: lru_splice_front_def)

lemma set_splice_front [simp]: "set (lru_splice_front it xs) = set xs"
  using mset_eq_setD [OF mset_splice_front] .

lemma length_splice_front [simp]: "length (lru_splice_front it xs) = length xs"
  using mset_eq_length [OF mset_splice_front] .

lemma distinct_splice_front [simp]:
  "distinct (map f (lru_splice_front it xs)) = distinct (map f xs)"
  by (rule mset_eq_imp_distinct_iff) (simp add: mset_map)

lemma splice_front_inv:
  assumes "lru_inv c"
  shows "lru_inv (c\<lparr>order_list := lru_splice_front it (order_list c)\<rparr>)"
proof -
  have "map_of (map prod.swap (order_list c)) =
        map_of (map prod.swap (lru_splice_front it (order_list c)))"
    by (rule map_of_inject_set [THEN iffD2])
      (use assms in \<open>simp_all add: lru_inv_def o_def image_image\<close>)
  with assms show ?thesis by (simp add: lru_inv_def)
qed

lemma pop_back_abs:
  assumes "lru_inv c" and "order_list c \<noteq> []"
  obtains c' where "lru_pop_back c = Inr (last (lru_get_all_tags c), c')"
    and "lru_get_all_tags c' = butlast (lru_get_all_tags c)" and "lru_inv c'"
    and "lru_capacity c' = lru_capacity c" and "length (order_list c') < length (order_list c)"
proof -
  obtain xs n t where ol: "order_list c = xs @ [(n, t)]"
    using assms(2) by (metis rev_exhaust surj_pair)
  have fresh: "t \<notin> snd ` set xs" using assms(1) by (simp add: lru_inv_def ol)
  let ?c = "c\<lparr>order_list := xs, tag_map := (tag_map c)(t := None)\<rparr>"
  have "map_of (map prod.swap xs) t = None"
    using fresh by (simp add: map_of_eq_None_iff image_image)
  moreover have "tag_map c = [t \<mapsto> n] ++ map_of (map prod.swap xs)"
    using assms(1) by (simp add: lru_inv_def ol)
  ultimately have "(tag_map c)(t := None) = map_of (map prod.swap xs)"
    by (simp add: fun_eq_iff map_add_def split: option.splits)
  then have "lru_inv ?c" using assms(1) by (auto simp: lru_inv_def ol)
  with that [of ?c] show ?thesis
    by (simp add: lru_pop_back_def ol lru_get_all_tags_def)
qed

lemma push_front_abs:
  assumes "lru_inv c" and "t \<notin> set (lru_get_all_tags c)"
    and "length (order_list c) < lru_capacity c"
  shows "lru_inv (lru_push_front t c)"
    and "lru_get_all_tags (lru_push_front t c) = t # lru_get_all_tags c"
  using assms
  by (auto simp: lru_inv_def lru_push_front_def lru_get_all_tags_def less_Suc_eq)

lemma lru_capacity_push_front [simp]: "lru_capacity (lru_push_front t c) = lru_capacity c"
  by (simp add: lru_push_front_def)

subsection \<open>Every operation implements its abstract step\<close>

lemma lru_access_spec:
  assumes "lru_inv c" and "0 < lru_capacity c"
  obtains c' where "lru_access t c = Inr (t \<notin> set (lru_get_all_tags c), c')"
    and "lru_get_all_tags c' = recency_access (lru_capacity c) t (lru_get_all_tags c)"
    and "lru_inv c'" and "lru_capacity c' = lru_capacity c"
proof (cases "t \<in> set (lru_get_all_tags c)")
  case True
  then obtain it where it: "tag_map c t = Some it"
    using lru_inv_tag_map_None [OF assms(1)] by force
  let ?c = "c\<lparr>order_list := lru_splice_front it (order_list c)\<rparr>"
  from it have mem: "(it, t) \<in> set (order_list c)" by (simp add: lru_inv_tag_map [OF assms(1)])
  have "lru_get_all_tags ?c = t # filter (\<lambda>u. u \<noteq> t) (lru_get_all_tags c)"
    using assms(1) splice_front_abs [OF _ _ mem] by (simp add: lru_get_all_tags_def lru_inv_def)
  with that [of ?c] it True splice_front_inv [OF assms(1)] show ?thesis
    by (simp add: lru_access_def recency_access_def)
next
  case False
  then have none: "tag_map c t = None" using lru_inv_tag_map_None [OF assms(1)] by simp
  show ?thesis
  proof (cases "length (order_list c) \<ge> lru_capacity c")
    case True
    with assms(2) have "order_list c \<noteq> []" by auto
    then obtain c' where c': "lru_pop_back c = Inr (last (lru_get_all_tags c), c')"
      "lru_get_all_tags c' = butlast (lru_get_all_tags c)" "lru_inv c'"
      "lru_capacity c' = lru_capacity c" "length (order_list c') < length (order_list c)"
      using pop_back_abs [OF assms(1)] by metis
    have "t \<notin> set (lru_get_all_tags c')"
      using False c'(2) by (auto dest: in_set_butlastD)
    moreover have "length (order_list c') < lru_capacity c'"
      using c'(4,5) assms(1) by (simp add: lru_inv_def)
    ultimately show ?thesis
      using that [of "lru_push_front t c'"] push_front_abs [OF c'(3)] c' none False True
      by (simp add: lru_access_def recency_access_def lru_get_all_tags_def)
  next
    case room: False
    with False assms(1) none show ?thesis
      using that [of "lru_push_front t c"] push_front_abs [of c t]
      by (simp add: lru_access_def recency_access_def lru_get_all_tags_def)
  qed
qed

lemma lru_evict_loop_spec:
  assumes "lru_inv c" and "k \<le> length (order_list c)"
  shows "\<exists>c'. lru_evict_loop k acc c = Inr (acc @ take k (rev (lru_get_all_tags c)), c') \<and>
    lru_get_all_tags c' = take (length (order_list c) - k) (lru_get_all_tags c) \<and>
    lru_inv c' \<and> lru_capacity c' = lru_capacity c"
  using assms
proof (induction k arbitrary: acc c)
  case 0
  then show ?case by (simp add: lru_get_all_tags_def)
next
  case (Suc k)
  then have ne: "order_list c \<noteq> []" by auto
  obtain c' where c': "lru_pop_back c = Inr (last (lru_get_all_tags c), c')"
    "lru_get_all_tags c' = butlast (lru_get_all_tags c)" "lru_inv c'"
    "lru_capacity c' = lru_capacity c"
    using pop_back_abs [OF Suc.prems(1) ne] by metis
  let ?xs = "lru_get_all_tags c"
  have len: "length ?xs = length (order_list c)" "length (order_list c') = length ?xs - 1"
    using arg_cong [OF c'(2), of length] by simp_all
  have ne': "?xs \<noteq> []" using ne by (simp add: lru_get_all_tags_def)
  have "k \<le> length (order_list c')" using Suc.prems(2) len by simp
  from Suc.IH [OF c'(3) this]
  obtain c'' where c'': "lru_evict_loop k (acc @ [last ?xs]) c' =
      Inr ((acc @ [last ?xs]) @ take k (rev (lru_get_all_tags c')), c'')"
    "lru_get_all_tags c'' = take (length (order_list c') - k) (lru_get_all_tags c')"
    "lru_inv c''" "lru_capacity c'' = lru_capacity c'"
    by blast
  have "last ?xs # take k (rev (butlast ?xs)) = take (Suc k) (rev ?xs)"
    by (subst (2) append_butlast_last_id [OF ne', symmetric]) simp
  moreover have "take (length ?xs - 1 - k) (butlast ?xs) = take (length ?xs - Suc k) ?xs"
    using ne by (simp add: take_butlast)
  ultimately show ?case using c' c'' len by (simp add: diff_diff_left)
qed

lemma vector_reserve_error:
  "vector_reserve b g n = (case evict_error b g n of None \<Rightarrow> Inr () | Some m \<Rightarrow> Inl (Throws m))"
  by (simp add: vector_reserve_def evict_error_def)

lemma lru_evict_throws: "evict_error b g n = Some m \<Longrightarrow> lru_evict b g n c = Inl (Throws m)"
  by (simp add: lru_evict_def vector_reserve_error)

lemma lru_evict_spec:
  assumes "lru_inv c" and "evict_error b g n = None"
  obtains c' where "lru_evict b g n c = Inr (fst (recency_evict n (lru_get_all_tags c)), c')"
    and "lru_get_all_tags c' = snd (recency_evict n (lru_get_all_tags c))"
    and "lru_inv c'" and "lru_capacity c' = lru_capacity c"
proof (cases "n \<le> length (order_list c)")
  case True
  with that assms(2) lru_evict_loop_spec [OF assms(1) True, of "[]"] show ?thesis
    by (auto simp: lru_evict_def vector_reserve_error recency_evict_def lru_get_all_tags_def)
next
  case False
  with that assms(2) lru_evict_loop_spec [OF assms(1) order_refl, of "[]"] show ?thesis
    by (auto simp: lru_evict_def vector_reserve_error recency_evict_def lru_get_all_tags_def)
qed

section \<open>The interface the index manager relies on\<close>

text \<open>
  \<open>QVCache\<close> only accesses mini-index ids and reads the order. The locale states what it relies on;
  its lemmas are the ones the cache theory uses, and the interpretation below discharges the laws
  for the code's list and hash map.
\<close>

locale recency_store =
  fixes touch :: "'a \<Rightarrow> 'c \<Rightarrow> (bool \<times> 'c) result"
    and order :: "'c \<Rightarrow> 'a list"
    and room :: "'c \<Rightarrow> nat"
    and sound :: "'c \<Rightarrow> bool"
  assumes order_distinct: "sound c \<Longrightarrow> distinct (order c)"
    and order_bound: "sound c \<Longrightarrow> length (order c) \<le> room c"
    and touch_step: "sound c \<Longrightarrow> 0 < room c \<Longrightarrow>
      \<exists>c'. touch t c = Inr (t \<notin> set (order c), c') \<and>
        order c' = recency_access (room c) t (order c) \<and> sound c' \<and> room c' = room c"
begin

lemma touch_known:
  assumes "sound c" and "t \<in> set (order c)"
  obtains c' where "touch t c = Inr (False, c')" and "sound c'" and "room c' = room c"
    and "order c' = t # filter (\<lambda>u. u \<noteq> t) (order c)" and "set (order c') = set (order c)"
proof -
  have "0 < room c"
    using order_bound [OF assms(1)] assms(2) by (cases "order c") auto
  from touch_step [OF assms(1) this, of t] that assms(2) show ?thesis
    by (auto simp: recency_access_def)
qed

lemma touch_front:
  assumes "sound c" and "0 < room c"
  obtains b c' where "touch t c = Inr (b, c')" and "sound c'" and "room c' = room c"
    and "hd (order c') = t" and "t \<in> set (order c')"
  using touch_step [OF assms, of t] that by (auto simp: recency_access_def)

lemma touch_all_known:
  assumes "sound c" and "set ts \<subseteq> set (order c)"
  shows "\<exists>c'. rfold (\<lambda>t c. rbind (touch t c) (\<lambda>(_, c'). Inr c')) ts c = Inr c' \<and>
    sound c' \<and> room c' = room c \<and> set (order c') = set (order c)"
  using assms
proof (induction ts arbitrary: c)
  case Nil
  then show ?case by simp
next
  case (Cons t ts)
  then obtain c1 where c1: "touch t c = Inr (False, c1)" "sound c1" "room c1 = room c"
    "set (order c1) = set (order c)"
    using touch_known [of c t] by (metis insert_subset list.simps(15))
  with Cons.IH [of c1] Cons.prems show ?case by auto
qed

lemma least_recent_known:
  assumes "sound c" and "order c \<noteq> []"
  shows "last (order c) \<in> set (order c)"
  using assms(2) by simp

end

lemma lru_inv_distinct: "lru_inv c \<Longrightarrow> distinct (lru_get_all_tags c)"
  by (simp add: lru_inv_def lru_get_all_tags_def)

interpretation lru: recency_store lru_access lru_get_all_tags lru_capacity lru_inv
proof
  show "distinct (lru_get_all_tags c)" if "lru_inv c" for c :: "'a lru_cache"
    using that by (rule lru_inv_distinct)
  show "length (lru_get_all_tags c) \<le> lru_capacity c" if "lru_inv c" for c :: "'a lru_cache"
    using that by (simp add: lru_inv_def)
  show "\<exists>c'. lru_access t c = Inr (t \<notin> set (lru_get_all_tags c), c') \<and>
      lru_get_all_tags c' = recency_access (lru_capacity c) t (lru_get_all_tags c) \<and>
      lru_inv c' \<and> lru_capacity c' = lru_capacity c"
    if "lru_inv c" and "0 < lru_capacity c" for c :: "'a lru_cache" and t
    using lru_access_spec [OF that] by metis
qed

section \<open>Whole runs\<close>

datatype 'a lru_op = Access 'a | Evict nat | Clear

datatype 'a lru_reply = Inserted bool | Evicted "'a list" | Threw string | Cleared

text \<open>A caller that catches what an eviction throws goes on with the cache as the exception left it:
  the reserve is the first statement, so with the cache unchanged.\<close>

fun lru_do ::
    "nat \<Rightarrow> (nat \<Rightarrow> bool) \<Rightarrow> 'a lru_op \<Rightarrow> 'a lru_cache \<Rightarrow> ('a lru_reply \<times> 'a lru_cache) result" where
  "lru_do b g (Access t) c = rbind (lru_access t c) (\<lambda>(r, c'). Inr (Inserted r, c'))"
| "lru_do b g (Evict n) c =
     (case lru_evict b g n c of
        Inl (Throws m) \<Rightarrow> Inr (Threw m, c)
      | Inl e \<Rightarrow> Inl e
      | Inr (ts, c') \<Rightarrow> Inr (Evicted ts, c'))"
| "lru_do b g Clear c = Inr (Cleared, lru_clear c)"

fun lru_run ::
    "nat \<Rightarrow> (nat \<Rightarrow> bool) \<Rightarrow> 'a lru_op list \<Rightarrow> 'a lru_cache \<Rightarrow> ('a lru_reply list \<times> 'a lru_cache) result" where
  "lru_run b g [] c = Inr ([], c)"
| "lru_run b g (o1 # os) c =
     rbind (lru_do b g o1 c) (\<lambda>(r, c'). rbind (lru_run b g os c') (\<lambda>(rs, c''). Inr (r # rs, c'')))"

fun recency_do :: "nat \<Rightarrow> (nat \<Rightarrow> bool) \<Rightarrow> nat \<Rightarrow> 'a lru_op \<Rightarrow> 'a list \<Rightarrow> 'a lru_reply \<times> 'a list" where
  "recency_do b g cap (Access t) xs = (Inserted (t \<notin> set xs), recency_access cap t xs)"
| "recency_do b g cap (Evict n) xs =
     (case evict_error b g n of
        Some m \<Rightarrow> (Threw m, xs)
      | None \<Rightarrow> (Evicted (take n (rev xs)), take (length xs - n) xs))"
| "recency_do b g cap Clear xs = (Cleared, [])"

fun recency_run ::
    "nat \<Rightarrow> (nat \<Rightarrow> bool) \<Rightarrow> nat \<Rightarrow> 'a lru_op list \<Rightarrow> 'a list \<Rightarrow> 'a lru_reply list \<times> 'a list" where
  "recency_run b g cap [] xs = ([], xs)"
| "recency_run b g cap (o1 # os) xs =
     (let (r, xs') = recency_do b g cap o1 xs; (rs, ys) = recency_run b g cap os xs' in (r # rs, ys))"

lemma lru_do_spec:
  assumes "lru_inv c" and "0 < lru_capacity c"
  shows "\<exists>r c'. lru_do b g op c = Inr (r, c') \<and> lru_inv c' \<and> lru_capacity c' = lru_capacity c \<and>
    recency_do b g (lru_capacity c) op (lru_get_all_tags c) = (r, lru_get_all_tags c')"
proof (cases op)
  case (Access t)
  then show ?thesis using lru_access_spec [OF assms, of t] by fastforce
next
  case (Evict n)
  show ?thesis
  proof (cases "evict_error b g n")
    case None
    then show ?thesis
      using lru_evict_spec [OF assms(1) None] Evict by (fastforce simp: recency_evict_def)
  next
    case (Some m)
    then show ?thesis using lru_evict_throws [OF Some, of c] assms Evict by simp
  qed
next
  case Clear
  then show ?thesis
    by (simp add: lru_get_all_tags_def lru_inv_clear) (simp add: lru_clear_def)
qed

lemma lru_run_spec:
  assumes "lru_inv c" and "0 < lru_capacity c"
  shows "\<exists>rs c'. lru_run b g ops c = Inr (rs, c') \<and> lru_inv c' \<and> lru_capacity c' = lru_capacity c \<and>
    recency_run b g (lru_capacity c) ops (lru_get_all_tags c) = (rs, lru_get_all_tags c')"
  using assms
proof (induction ops arbitrary: c)
  case Nil
  then show ?case by simp
next
  case (Cons op ops)
  obtain r c1 where c1: "lru_do b g op c = Inr (r, c1)" "lru_inv c1" "lru_capacity c1 = lru_capacity c"
    "recency_do b g (lru_capacity c) op (lru_get_all_tags c) = (r, lru_get_all_tags c1)"
    using lru_do_spec [OF Cons.prems] by blast
  with Cons.IH [of c1] Cons.prems(2) show ?case by fastforce
qed

subsection \<open>What an access history leaves in the cache\<close>

lemma recency_access_take_rev_remdups:
  assumes "distinct R" and "0 < cap"
  shows "recency_access cap t (take cap R) = take cap (t # filter (\<lambda>u. u \<noteq> t) R)"
proof (cases "t \<in> set (take cap R)")
  case True
  then obtain xs ys where split: "take cap R = xs @ t # ys" by (meson split_list)
  define zs where "zs = drop cap R"
  have R: "R = xs @ t # ys @ zs" using append_take_drop_id [of cap R] split zs_def by simp
  have t: "t \<notin> set xs" "t \<notin> set ys" "t \<notin> set zs" using assms(1) by (simp_all add: R)
  then have "filter (\<lambda>u. u \<noteq> t) R = (xs @ ys) @ zs"
    and kept: "filter (\<lambda>u. u \<noteq> t) (take cap R) = xs @ ys"
    by (simp_all add: split filter_neq_id) (simp add: R filter_neq_id)
  moreover have "length (xs @ ys) = cap - 1 \<or> zs = []"
    using arg_cong [OF split, of length] by (auto simp: zs_def min_def split: if_splits)
  moreover have "length (xs @ ys) \<le> cap - 1"
    using arg_cong [OF split, of length] by (simp add: min_def split: if_splits)
  ultimately have "take (cap - 1) (filter (\<lambda>u. u \<noteq> t) R) = xs @ ys" by auto
  with True kept assms(2) show ?thesis
    by (cases cap) (simp_all add: recency_access_def)
next
  case False
  have "filter (\<lambda>u. u \<noteq> t) (take cap R) = take cap R"
    using False by (rule filter_neq_id)
  moreover have "filter (\<lambda>u. u \<noteq> t) R =
      filter (\<lambda>u. u \<noteq> t) (take cap R) @ filter (\<lambda>u. u \<noteq> t) (drop cap R)"
    by (metis append_take_drop_id filter_append)
  ultimately have eq: "filter (\<lambda>u. u \<noteq> t) R = take cap R @ filter (\<lambda>u. u \<noteq> t) (drop cap R)"
    by simp
  show ?thesis
  proof (cases "cap \<le> length R")
    case True
    then have "take (cap - 1) (filter (\<lambda>u. u \<noteq> t) R) = butlast (take cap R)"
      by (simp add: eq butlast_take min_def)
    with True False assms(2) show ?thesis by (cases cap) (simp_all add: recency_access_def)
  next
    case small: False
    with False eq assms(2) show ?thesis
      by (cases cap) (simp_all add: recency_access_def)
  qed
qed

lemma rev_remdups_snoc:
  "rev (remdups (ts @ [t])) = t # filter (\<lambda>u. u \<noteq> t) (rev (remdups ts))"
  by (induction ts) (auto simp: filter_id_conv)

lemma lru_history_list:
  assumes "0 < cap"
  shows "fold (recency_access cap) ts [] = take cap (rev (remdups ts))"
proof (induction ts rule: rev_induct)
  case Nil
  then show ?case by simp
next
  case (snoc t ts)
  have "fold (recency_access cap) (ts @ [t]) [] = recency_access cap t (take cap (rev (remdups ts)))"
    by (simp add: snoc)
  also have "\<dots> = take cap (t # filter (\<lambda>u. u \<noteq> t) (rev (remdups ts)))"
    using assms by (intro recency_access_take_rev_remdups) simp_all
  finally show ?case by (simp add: rev_remdups_snoc)
qed

lemma recency_run_accesses:
  "snd (recency_run b g cap (map Access ts) xs) = fold (recency_access cap) ts xs"
  by (induction ts arbitrary: xs) (auto simp: Let_def split: prod.splits dest: arg_cong [of _ _ snd])

section \<open>Properties of the cache\<close>

lemma lru_new_simps [simp]:
  "lru_capacity (lru_new cap) = cap" "lru_get_all_tags (lru_new cap) = []"
  by (simp_all add: lru_new_def lru_get_all_tags_def)

lemma lru_run_new:
  assumes "0 < cap"
  obtains rs c where "lru_run b g ops (lru_new cap) = Inr (rs, c)" and "lru_inv c"
    and "recency_run b g cap ops [] = (rs, lru_get_all_tags c)"
proof -
  have "0 < lru_capacity (lru_new cap)" using assms by simp
  from lru_run_spec [OF lru_inv_new this, of b g ops, unfolded lru_new_simps] that show ?thesis by blast
qed

text \<open>C19: Refinement. From the constructor with a positive capacity, every sequence of accesses, evictions
  and clears runs without undefined behaviour, keeps list and hash map consistent, and gives exactly the
  replies and the order of the abstract recency list: an eviction throws \<open>length_error\<close> when the count asked
  for exceeds \<open>max_size()\<close>, \<open>bad_alloc\<close> when that many tags cannot be reserved, and then evicts nothing.\<close>

theorem lru_refines_recency_list:
  assumes "0 < cap"
  shows "\<exists>rs c. lru_run tag_bytes grants ops (lru_new cap) = Inr (rs, c) \<and> lru_inv c \<and>
    recency_run tag_bytes grants cap ops [] = (rs, lru_get_all_tags c)"
  by (rule lru_run_new [OF assms, of tag_bytes grants ops]) blast

theorem lru_refines_recency_list_witness:
  "\<exists>c. lru_run 8 (\<lambda>n. n < 100) [Access 1, Access 2, Access 1, Access (3::nat), Evict 18446744073709551615, Evict 200, Evict 1]
      (lru_new 2) = Inr ([Inserted True, Inserted True, Inserted False, Inserted True,
        Threw ''vector::reserve'', Threw ''std::bad_alloc'', Evicted [1]], c) \<and>
    lru_inv c \<and> lru_get_all_tags c = [3]"
proof -
  let ?ops = "[Access 1, Access 2, Access 1, Access (3::nat), Evict 18446744073709551615, Evict 200, Evict 1]"
  let ?rs = "[Inserted True, Inserted True, Inserted False, Inserted True,
        Threw ''vector::reserve'', Threw ''std::bad_alloc'', Evicted [1]]"
  obtain rs c where run: "lru_run 8 (\<lambda>n. n < 100) ?ops (lru_new 2) = Inr (rs, c)" "lru_inv c"
    and abs: "recency_run 8 (\<lambda>n. n < 100) 2 ?ops [] = (rs, lru_get_all_tags c)"
    using lru_refines_recency_list [of 2 8 "\<lambda>n. n < 100" ?ops, OF zero_less_numeral] by blast
  have errors: "evict_error 8 (\<lambda>n. n < 100) 18446744073709551615 = Some ''vector::reserve''"
    "evict_error 8 (\<lambda>n. n < 100) 200 = Some ''std::bad_alloc''"
    "evict_error 8 (\<lambda>n. n < 100) (Suc 0) = None"
    unfolding evict_error_def by simp_all
  let ?do = "recency_do 8 (\<lambda>n. n < 100) 2"
  have replies: "?do (Access 1) [] = (Inserted True, [1::nat])" "?do (Access 2) [1] = (Inserted True, [2, 1::nat])"
    "?do (Access 1) [2, 1] = (Inserted False, [1, 2::nat])" "?do (Access 3) [1, 2] = (Inserted True, [3, 1::nat])"
    "?do (Evict 18446744073709551615) [3, 1] = (Threw ''vector::reserve'', [3, 1::nat])"
    "?do (Evict 200) [3, 1] = (Threw ''std::bad_alloc'', [3, 1::nat])" "?do (Evict 1) [3, 1] = (Evicted [1], [3::nat])"
    by (simp_all add: errors recency_access_def)
  have "recency_run 8 (\<lambda>n. n < 100) 2 ?ops [] = (?rs, [3])"
    by (simp only: recency_run.simps replies Let_def prod.case)
  with abs have "rs = ?rs" and "lru_get_all_tags c = [3]" by simp_all
  with run show ?thesis by blast
qed

text \<open>C33: A history of accesses leaves in the cache exactly the last \<open>cap\<close> distinct tags, most recent
  first: what is dropped is always the least recently used tag.\<close>

theorem lru_keeps_last_distinct:
  assumes "0 < cap"
  shows "\<exists>rs c. lru_run b g (map Access ts) (lru_new cap) = Inr (rs, c) \<and>
    lru_get_all_tags c = take cap (rev (remdups ts))"
proof -
  obtain rs c where run: "lru_run b g (map Access ts) (lru_new cap) = Inr (rs, c)"
    and "recency_run b g cap (map Access ts) [] = (rs, lru_get_all_tags c)"
    using lru_run_new [OF assms, of b g] by blast
  then have "lru_get_all_tags c = fold (recency_access cap) ts []"
    using recency_run_accesses [of b g cap ts "[]"] by simp
  with run lru_history_list [OF assms] show ?thesis by auto
qed

theorem lru_keeps_last_distinct_witness:
  "\<exists>rs c. lru_run 8 (\<lambda>_. True) (map Access [1, 2, 1, 3::nat]) (lru_new 2) = Inr (rs, c) \<and>
    lru_get_all_tags c = [3, 1]"
  using lru_keeps_last_distinct [of 2 8 "\<lambda>_. True" "[1, 2, 1, 3::nat]"] by simp

end
