(* ===== verification/PcaRegions.thy ===== *)
theory PcaRegions
  imports IeeeFloat "HOL-Library.List_Lexorder"
begin

text \<open>
  The class \<open>PCAUtils\<close> of \<open>include/qvcache/pca_utils.h\<close>: the map from a query to its PCA cell and the
  per-cell distance thresholds that decide whether a cached answer is a hit.

  The projection \<open>(v - pca_mean) * pca_components\<close> is computed by Eigen, so it is the parameter
  \<open>project\<close> of the definitions that use it. Everything after it (normalisation, clamping and the
  bucket code in binary32; the thresholds in binary64) is modelled with \<open>IeeeFloat\<close>. Methods that
  lock \<open>region_theta_map_mutex\<close> are atomic steps; a null vector is \<open>None\<close>.
\<close>

section \<open>Region keys\<close>

record region_key =
  key_bytes :: "u8 list"
  key_len :: u8

definition key_cap :: nat where
  "key_cap = 32"

definition key_new :: "nat \<Rightarrow> region_key" where
  "key_new n = \<lparr>key_bytes = replicate key_cap 0, key_len = of_nat n\<rparr>"

definition key_size :: "region_key \<Rightarrow> nat" where
  "key_size k = unat (key_len k)"

definition key_get :: "region_key \<Rightarrow> nat \<Rightarrow> u8" where
  "key_get k i = key_bytes k ! i"

definition key_set :: "region_key \<Rightarrow> nat \<Rightarrow> u8 \<Rightarrow> region_key" where
  "key_set k i b = k\<lparr>key_bytes := (key_bytes k)[i := b]\<rparr>"

text \<open>\<open>operator==\<close> and the hash of the region maps.\<close>

definition key_eq :: "region_key \<Rightarrow> region_key \<Rightarrow> bool" where
  "key_eq a b \<longleftrightarrow> key_len a = key_len b \<and>
     take (unat (key_len a)) (key_bytes a) = take (unat (key_len a)) (key_bytes b)"

definition key_hash :: "region_key \<Rightarrow> u64" where
  "key_hash k = fold (\<lambda>b h. h * 31 + ucast b) (take (unat (key_len k)) (key_bytes k)) 0"

text \<open>
  A key is well formed when it fills its array and the bytes past its length are still zero. All keys
  the class builds are, and on them \<open>operator==\<close> is equality, which is why the region maps below
  are association lists keyed by the record itself.
\<close>

definition key_wf :: "region_key \<Rightarrow> bool" where
  "key_wf k \<longleftrightarrow> length (key_bytes k) = key_cap \<and> key_size k \<le> key_cap \<and>
     drop (key_size k) (key_bytes k) = replicate (key_cap - key_size k) 0"

lemma key_eq_iff:
  assumes "key_wf a" and "key_wf b"
  shows "key_eq a b \<longleftrightarrow> a = b"
proof
  assume "key_eq a b"
  then have "key_len a = key_len b"
    and "take (key_size a) (key_bytes a) = take (key_size a) (key_bytes b)"
    unfolding key_eq_def key_size_def by blast+
  moreover from this have "drop (key_size a) (key_bytes a) = drop (key_size a) (key_bytes b)"
    using assms by (simp add: key_wf_def key_size_def)
  ultimately show "a = b" by (metis append_take_drop_id region_key.equality unit.exhaust)
qed (simp add: key_eq_def)

lemma key_size_set [simp]: "key_size (key_set k i b) = key_size k"
  by (simp add: key_size_def key_set_def)

lemma key_wf_new: "n \<le> key_cap \<Longrightarrow> key_wf (key_new n) \<and> key_size (key_new n) = n"
  by (simp add: key_wf_def key_new_def key_size_def key_cap_def unat_of_nat)

lemma key_wf_set: "key_wf k \<Longrightarrow> i < key_size k \<Longrightarrow> key_wf (key_set k i b)"
  by (simp add: key_wf_def key_set_def key_size_def)

lemma key_get_set:
  "key_wf k \<Longrightarrow> i < key_size k \<Longrightarrow> key_get (key_set k i b) j = (if j = i then b else key_get k j)"
  by (auto simp: key_get_def key_set_def key_wf_def)

section \<open>State\<close>

text \<open>
  \<open>region_theta_map\<close> maps a cell to its thresholds per \<open>K\<close>, \<open>region_discount_map\<close> holds the write
  penalty already applied, \<open>region_insertion_order\<close> is the eviction queue. \<open>pca_min\<close> and \<open>pca_max\<close>
  stand for the arrays of the element type in use (both branches of \<open>if constexpr\<close> compute in
  binary32, for \<open>T = float\<close> as for \<open>int8_t\<close> and \<open>uint8_t\<close>).
\<close>

type_synonym theta_entry = "(nat \<times> fp) list"

record pca_utils =
  pca_dim :: nat
  buckets_per_dim :: nat
  pca_metric :: metric
  region_theta_map :: "(region_key \<times> theta_entry) list"
  region_discount_map :: "(region_key \<times> fp) list"
  region_insertion_order :: "region_key list"
  max_regions :: nat
  write_l1_radius :: nat
  pca_min :: "fp list"
  pca_max :: "fp list"

definition pca_new :: "nat \<Rightarrow> nat \<Rightarrow> metric \<Rightarrow> nat \<Rightarrow> pca_utils result" where
  "pca_new dim_p buckets m regions =
     (if dim_p > key_cap
      then Inl (Throws ''pca_dim exceeds inline region-key capacity'')
      else Inr \<lparr>pca_dim = dim_p, buckets_per_dim = buckets, pca_metric = m,
                region_theta_map = [], region_discount_map = [], region_insertion_order = [],
                max_regions = regions, write_l1_radius = 1, pca_min = [], pca_max = []\<rparr>)"

definition set_write_l1_radius :: "nat \<Rightarrow> pca_utils \<Rightarrow> pca_utils" where
  "set_write_l1_radius r s = s\<lparr>write_l1_radius := r\<rparr>"

section \<open>From a vector to its cell\<close>

text \<open>\<open>BUCKETS_PER_DIM - 1\<close> on \<open>size_t\<close>.\<close>

definition size_pred :: "nat \<Rightarrow> nat" where
  "size_pred n = (if n = 0 then 2 ^ 64 - 1 else n - 1)"

definition clamp01 :: "fp \<Rightarrow> fp" where
  "clamp01 norm0 =
     (let norm1 = (if fp_lt norm0 (Fin 0) then Fin 0 else norm0)
      in if fp_lt (Fin 1) norm1 then Fin 1 else norm1)"

definition bucket_index :: "nat \<Rightarrow> fp \<Rightarrow> fp \<Rightarrow> fp \<Rightarrow> nat result" where
  "bucket_index buckets val minv maxv =
     (if fp_eq maxv minv then Inr 0
      else let nrm = clamp01 (fp_div binary32 (fp_sub binary32 val minv)
                                               (fp_sub binary32 maxv minv))
           in rbind (fp_to_size (fp_mul binary32 nrm (fp_of_nat binary32 buckets)))
                (\<lambda>t. Inr (min (size_pred buckets) t)))"

definition compute_region_key :: "('v \<Rightarrow> fp list) \<Rightarrow> pca_utils \<Rightarrow> 'v \<Rightarrow> region_key result" where
  "compute_region_key project s vec =
     (let proj = project vec
      in rfold (\<lambda>i key. rbind (bucket_index (buckets_per_dim s) (proj ! i) (pca_min s ! i) (pca_max s ! i))
                          (\<lambda>bucket. Inr (key_set key i (of_nat bucket))))
               [0..<pca_dim s] (key_new (pca_dim s)))"

section \<open>Thresholds of a cell\<close>

definition uninitialized_theta :: "metric \<Rightarrow> fp" where
  "uninitialized_theta m = (if m = COSINE then MInf else fp_max binary64)"

definition reset_theta_entry :: "metric \<Rightarrow> theta_entry \<Rightarrow> theta_entry" where
  "reset_theta_entry m entry =
     (let init_value = uninitialized_theta m
      in um_put 100 init_value (um_put 10 init_value (um_put 5 init_value (um_put 1 init_value entry))))"

definition is_uninitialized_theta :: "metric \<Rightarrow> fp \<Rightarrow> bool" where
  "is_uninitialized_theta m threshold =
     (if m = COSINE then fp_eq threshold MInf
      else fp_le (fp_mul binary64 (fp_max binary64) (Fin (1 / 2))) threshold)"

definition entry_has_live_theta :: "metric \<Rightarrow> theta_entry \<Rightarrow> bool" where
  "entry_has_live_theta m entry \<longleftrightarrow> (\<exists>kv \<in> set entry. \<not> is_uninitialized_theta m (snd kv))"

definition invalidate_theta :: "('v \<Rightarrow> fp list) \<Rightarrow> 'v option \<Rightarrow> pca_utils \<Rightarrow> pca_utils result" where
  "invalidate_theta project vec s =
     (case vec of
        None \<Rightarrow> Inr s
      | Some v \<Rightarrow>
          rbind (compute_region_key project s v) (\<lambda>key.
            case map_of (region_theta_map s) key of
              None \<Rightarrow> Inr s
            | Some entry \<Rightarrow>
                Inr (s\<lparr>region_theta_map :=
                         um_put key (reset_theta_entry (pca_metric s) entry) (region_theta_map s),
                       region_discount_map := um_put key (Fin 1) (region_discount_map s)\<rparr>)))"

section \<open>Write-path tightening\<close>

definition tighten_entry :: "metric \<Rightarrow> fp \<Rightarrow> theta_entry \<Rightarrow> theta_entry" where
  "tighten_entry m alpha entry =
     map (\<lambda>(k, th). (k, if is_uninitialized_theta m th then th else fp_mul binary64 th alpha)) entry"

definition tighten_one_region_locked :: "region_key \<Rightarrow> fp \<Rightarrow> pca_utils \<Rightarrow> nat \<times> pca_utils" where
  "tighten_one_region_locked fine alpha s =
     (case map_of (region_theta_map s) fine of
        None \<Rightarrow> (0, s)
      | Some entry \<Rightarrow>
          if \<not> entry_has_live_theta (pca_metric s) entry then (0, s)
          else let already = (case map_of (region_discount_map s) fine of None \<Rightarrow> Fin 1 | Some d \<Rightarrow> d)
               in if fp_le already alpha then (0, s)
                  else (1, s\<lparr>region_theta_map :=
                               um_put fine (tighten_entry (pca_metric s) alpha entry) (region_theta_map s),
                             region_discount_map := um_put fine alpha (region_discount_map s)\<rparr>))"

text \<open>\<open>static_cast<int>\<close> of a \<open>size_t\<close>.\<close>

definition int_of_size :: "nat \<Rightarrow> int" where
  "int_of_size n = sint (of_nat n :: u32)"

definition int_overflow :: fault where
  "int_overflow = Undefined ''signed integer overflow''"

definition int_add :: "int \<Rightarrow> int \<Rightarrow> int result" where
  "int_add a b = (if - (2 ^ 31) \<le> a + b \<and> a + b < 2 ^ 31 then Inr (a + b) else Inl int_overflow)"

text \<open>
  The recursion of \<open>tighten_l1_ball_locked\<close>, on the number of coordinates that remain, so
  \<open>dim_i\<close> is the key's size less that number. \<open>cur\<close> and the count \<open>n\<close> are C++ references,
  passed through the loop over \<open>delta\<close> with the state. Its \<open>int\<close> arithmetic is checked: the
  code overflows in \<open>-maxd\<close>, in \<open>c + delta\<close> and, once the loop has run up to \<open>INT_MAX\<close>, in \<open>++delta\<close>.
\<close>

primrec tighten_l1_ball_locked ::
  "nat \<Rightarrow> region_key \<Rightarrow> fp \<Rightarrow> nat \<Rightarrow> region_key \<times> nat \<times> pca_utils \<Rightarrow>
     (region_key \<times> nat \<times> pca_utils) result" where
  "tighten_l1_ball_locked 0 center alpha left st =
     (case st of (cur, n, s) \<Rightarrow>
        let (d, s') = tighten_one_region_locked cur alpha s in Inr (cur, n + d, s'))"
| "tighten_l1_ball_locked (Suc rem) center alpha left st =
     (let dim_i = key_size center - Suc rem;
          c = uint (key_get center dim_i);
          maxd = int_of_size left
      in if maxd = - (2 ^ 31) then Inl int_overflow
         else rbind (rfold (\<lambda>delta (cur, n, s).
                       rbind (int_add c delta) (\<lambda>b.
                       if b < 0 \<or> b \<ge> int_of_size (buckets_per_dim s) then Inr (cur, n, s)
                       else tighten_l1_ball_locked rem center alpha (left - nat \<bar>delta\<bar>)
                              (key_set cur dim_i (of_int b), n, s)))
                     [- maxd .. maxd] st) (\<lambda>(cur1, n1, s1).
              if maxd = 2 ^ 31 - 1 then Inl int_overflow
              else Inr (key_set cur1 dim_i (key_get center dim_i), n1, s1)))"

definition tighten_theta_for_vector ::
  "('v \<Rightarrow> fp list) \<Rightarrow> 'v option \<Rightarrow> fp \<Rightarrow> pca_utils \<Rightarrow> (nat \<times> pca_utils) result" where
  "tighten_theta_for_vector project vec alpha s =
     (case vec of
        None \<Rightarrow> Inr (0, s)
      | Some v \<Rightarrow>
          if fp_le (Fin 1) alpha \<or> fp_le alpha (Fin 0) then Inr (0, s)
          else rbind (compute_region_key project s v) (\<lambda>key.
               rbind (tighten_l1_ball_locked (key_size key) key alpha (write_l1_radius s) (key, 0, s))
                 (\<lambda>(_, n, s'). Inr (n, s'))))"

section \<open>Read path and relearning\<close>

definition lazy_init_region :: "region_key \<Rightarrow> pca_utils \<Rightarrow> pca_utils" where
  "lazy_init_region key s =
     (if map_of (region_theta_map s) key \<noteq> None then s
      else let s1 = (if length (region_theta_map s) \<ge> max_regions s \<and> region_insertion_order s \<noteq> []
                     then let oldest_key = hd (region_insertion_order s)
                          in s\<lparr>region_insertion_order := tl (region_insertion_order s),
                               region_theta_map := um_erase oldest_key (region_theta_map s),
                               region_discount_map := um_erase oldest_key (region_discount_map s)\<rparr>
                     else s)
           in s1\<lparr>region_theta_map :=
                   um_put key (reset_theta_entry (pca_metric s1) []) (region_theta_map s1),
                 region_insertion_order := region_insertion_order s1 @ [key]\<rparr>)"

text \<open>\<open>region_theta_map[region][K]\<close>: both subscripts insert a default; that of a \<open>double\<close> is 0.\<close>

definition theta_at :: "region_key \<Rightarrow> nat \<Rightarrow> pca_utils \<Rightarrow> fp \<times> pca_utils" where
  "theta_at region k s =
     (let (entry, m) = um_at [] region (region_theta_map s);
          (th, entry') = um_at (Fin 0) k entry
      in (th, s\<lparr>region_theta_map := um_put region entry' m\<rparr>))"

definition put_theta :: "region_key \<Rightarrow> nat \<Rightarrow> fp \<Rightarrow> pca_utils \<Rightarrow> pca_utils" where
  "put_theta region k th s =
     (let (entry, m) = um_at [] region (region_theta_map s)
      in s\<lparr>region_theta_map := um_put region (um_put k th entry) m\<rparr>)"

text \<open>
  \<open>isHit\<close>. The distances are an array of at least \<open>K\<close> floats, or a null pointer; reading past the
  array is undefined behaviour.
\<close>

definition dist_at :: "fp list \<Rightarrow> nat \<Rightarrow> fp result" where
  "dist_at distances i =
     (if i < length distances then Inr (distances ! i)
      else Inl (Undefined ''distances read out of bounds''))"

definition within_tolerance :: "fp \<Rightarrow> fp \<Rightarrow> fp \<Rightarrow> bool" where
  "within_tolerance deviation_factor threshold cache_distance =
     fp_le cache_distance (fp_mul binary64 (fp_add binary64 (Fin 1) deviation_factor) threshold)"

definition pca_isHit ::
  "('v \<Rightarrow> fp list) \<Rightarrow> 'v \<Rightarrow> nat \<Rightarrow> fp list option \<Rightarrow> nat \<Rightarrow> fp \<Rightarrow> pca_utils \<Rightarrow> (bool \<times> pca_utils) result" where
  "pca_isHit project query K distances num_vectors deviation_factor s =
     (case distances of
        None \<Rightarrow> Inr (False, s)
      | Some ds \<Rightarrow>
          if num_vectors < K \<or> K = 0 then Inr (False, s)
          else rbind (compute_region_key project s query) (\<lambda>region.
            let (threshold, s1) = theta_at region K (lazy_init_region region s)
            in if is_uninitialized_theta (pca_metric s) threshold then Inr (False, s1)
               else rbind (dist_at ds (K - 1)) (\<lambda>cache_distance.
                 Inr (within_tolerance deviation_factor threshold cache_distance, s1))))"

definition ema :: "fp \<Rightarrow> fp \<Rightarrow> fp \<Rightarrow> fp" where
  "ema p query_distance current_theta =
     fp_add binary64 (fp_mul binary64 p query_distance)
       (fp_mul binary64 (fp_sub binary64 (Fin 1) p) current_theta)"

definition pca_update_theta ::
  "('v \<Rightarrow> fp list) \<Rightarrow> 'v \<Rightarrow> nat \<Rightarrow> fp \<Rightarrow> fp \<Rightarrow> pca_utils \<Rightarrow> pca_utils result" where
  "pca_update_theta project query K query_distance p s =
     rbind (compute_region_key project s query) (\<lambda>region.
       let (current_theta, s1) = theta_at region K (lazy_init_region region s);
           new_theta = (if is_uninitialized_theta (pca_metric s) current_theta then query_distance
                        else ema p query_distance current_theta);
           s2 = put_theta region K new_theta s1
       in Inr (s2\<lparr>region_discount_map := um_put region (Fin 1) (region_discount_map s2)\<rparr>))"

definition get_number_of_active_regions :: "pca_utils \<Rightarrow> nat" where
  "get_number_of_active_regions s = length (region_theta_map s)"

section \<open>Invariant of the region maps\<close>

text \<open>
  The eviction queue lists exactly the cells of the threshold map, once each; penalties belong to
  known cells; the number of cells respects \<open>max_regions\<close> (one cell is kept when that is 0); all
  cells are keys of the configured length with bucket codes in range of the byte.
\<close>

definition region_inv :: "pca_utils \<Rightarrow> bool" where
  "region_inv s \<longleftrightarrow>
     distinct (map fst (region_theta_map s)) \<and>
     distinct (region_insertion_order s) \<and>
     set (region_insertion_order s) = set (map fst (region_theta_map s)) \<and>
     distinct (map fst (region_discount_map s)) \<and>
     set (map fst (region_discount_map s)) \<subseteq> set (map fst (region_theta_map s)) \<and>
     length (region_theta_map s) \<le> max 1 (max_regions s) \<and>
     (\<forall>k \<in> set (map fst (region_theta_map s)). key_wf k \<and> key_size k = pca_dim s)"

named_theorems region_frame

lemma region_inv_new: "pca_new dim_p buckets m regions = Inr s \<Longrightarrow> region_inv s"
  by (auto simp: pca_new_def region_inv_def split: if_splits)

lemma region_inv_length_order:
  assumes "region_inv s"
  shows "length (region_insertion_order s) = length (region_theta_map s)"
proof -
  have "length (region_insertion_order s) = card (set (map fst (region_theta_map s)))"
    using assms distinct_card unfolding region_inv_def by metis
  also have "\<dots> = length (region_theta_map s)"
    using assms distinct_card [of "map fst (region_theta_map s)"] by (simp add: region_inv_def)
  finally show ?thesis .
qed

text \<open>Replacing the entry of a known cell keeps the invariant.\<close>

lemma region_inv_put_known:
  assumes "region_inv s" and "k \<in> set (map fst (region_theta_map s))"
  shows "region_inv (s\<lparr>region_theta_map := um_put k e (region_theta_map s)\<rparr>)"
    and "region_inv (s\<lparr>region_discount_map := um_put k d (region_discount_map s)\<rparr>)"
    and "region_inv (s\<lparr>region_theta_map := um_put k e (region_theta_map s),
      region_discount_map := um_put k d (region_discount_map s)\<rparr>)"
  using assms
  by (auto simp: region_inv_def dom_update um_length_put insert_absorb)

lemma map_of_SomeK: "map_of m k = Some e \<Longrightarrow> k \<in> set (map fst m)"
  by (metis map_of_None_keys option.distinct(1))

text \<open>What one visit of the write path does to one cell.\<close>

definition discount_of :: "pca_utils \<Rightarrow> region_key \<Rightarrow> fp" where
  "discount_of s k = (case map_of (region_discount_map s) k of None \<Rightarrow> Fin 1 | Some d \<Rightarrow> d)"

definition tightenable :: "fp \<Rightarrow> pca_utils \<Rightarrow> region_key \<Rightarrow> bool" where
  "tightenable alpha s k \<longleftrightarrow>
     (case map_of (region_theta_map s) k of None \<Rightarrow> False
      | Some e \<Rightarrow> entry_has_live_theta (pca_metric s) e) \<and> \<not> fp_le (discount_of s k) alpha"

lemma tighten_one_cases:
  obtains (skip) "\<not> tightenable alpha s k" and "tighten_one_region_locked k alpha s = (0, s)"
    | (tighten) e where "tightenable alpha s k" and "map_of (region_theta_map s) k = Some e"
      and "tighten_one_region_locked k alpha s =
        (1, s\<lparr>region_theta_map := um_put k (tighten_entry (pca_metric s) alpha e) (region_theta_map s),
              region_discount_map := um_put k alpha (region_discount_map s)\<rparr>)"
proof (cases "tightenable alpha s k")
  case True
  then obtain e where "map_of (region_theta_map s) k = Some e"
    by (auto simp: tightenable_def split: option.splits)
  with True tighten show ?thesis
    by (simp add: tighten_one_region_locked_def tightenable_def discount_of_def)
next
  case False
  then have "tighten_one_region_locked k alpha s = (0, s)"
    by (auto simp: tighten_one_region_locked_def tightenable_def discount_of_def Let_def
        split: option.splits)
  with False show ?thesis by (rule skip)
qed

lemma region_inv_tighten_one:
  assumes "region_inv s"
  shows "region_inv (snd (tighten_one_region_locked k alpha s))"
  by (cases rule: tighten_one_cases [of alpha s k])
    (simp_all add: assms region_inv_put_known(3) [OF assms map_of_SomeK])

lemma tighten_one_frame [region_frame]:
  "buckets_per_dim (snd (tighten_one_region_locked k alpha s)) = buckets_per_dim s"
  "pca_dim (snd (tighten_one_region_locked k alpha s)) = pca_dim s"
  "pca_metric (snd (tighten_one_region_locked k alpha s)) = pca_metric s"
  "write_l1_radius (snd (tighten_one_region_locked k alpha s)) = write_l1_radius s"
  "max_regions (snd (tighten_one_region_locked k alpha s)) = max_regions s"
  "pca_min (snd (tighten_one_region_locked k alpha s)) = pca_min s"
  "pca_max (snd (tighten_one_region_locked k alpha s)) = pca_max s"
  "region_insertion_order (snd (tighten_one_region_locked k alpha s)) = region_insertion_order s"
  by (cases rule: tighten_one_cases [of alpha s k]; simp)+

lemma region_inv_lazy_init:
  assumes "region_inv s" and "key_wf key" and "key_size key = pca_dim s"
  shows "region_inv (lazy_init_region key s)"
    and "key \<in> set (map fst (region_theta_map (lazy_init_region key s)))"
proof -
  consider (known) "key \<in> set (map fst (region_theta_map s))"
    | (evict) "key \<notin> set (map fst (region_theta_map s))"
      "length (region_theta_map s) \<ge> max_regions s" "region_insertion_order s \<noteq> []"
    | (grow) "key \<notin> set (map fst (region_theta_map s))"
      "length (region_theta_map s) < max_regions s \<or> region_insertion_order s = []"
    by linarith
  then have "region_inv (lazy_init_region key s) \<and>
      key \<in> set (map fst (region_theta_map (lazy_init_region key s)))"
  proof cases
    case known
    then have "map_of (region_theta_map s) key \<noteq> None" using map_of_None_keys by metis
    with assms(1) known show ?thesis by (simp add: lazy_init_region_def)
  next
    case evict
    then obtain old rest where order: "region_insertion_order s = old # rest"
      by (cases "region_insertion_order s") auto
    let ?m = "um_erase old (region_theta_map s)" and ?d = "um_erase old (region_discount_map s)"
    have keys: "set (map fst ?m) = set (map fst (region_theta_map s)) - {old}"
      "set (map fst ?d) = set (map fst (region_discount_map s)) - {old}"
      by (simp_all only: delete_keys set_removeAll)
    have old: "old \<in> set (map fst (region_theta_map s))"
      using assms(1) order by (simp add: region_inv_def) blast
    have "length ?m = length (region_theta_map s) - 1"
      using assms(1) old by (simp only: um_length_erase region_inv_def if_True)
    moreover have "length (region_theta_map s) \<le> max 1 (max_regions s)" "length (region_theta_map s) > 0"
      using assms(1) old by (auto simp: region_inv_def)
    ultimately have len: "Suc (length ?m) \<le> max 1 (max_regions s)" by linarith
    have new: "key \<notin> set (map fst ?m)" using evict keys by simp
    have "map_of (region_theta_map s) key = None" using evict(1) by (simp only: map_of_None_keys not_False_eq_True)
    then have "lazy_init_region key s =
        s\<lparr>region_theta_map := um_put key (reset_theta_entry (pca_metric s) []) ?m,
          region_insertion_order := rest @ [key], region_discount_map := ?d\<rparr>"
      using evict order by (simp add: lazy_init_region_def Let_def)
    moreover have "distinct (map fst ?m)" "distinct (map fst ?d)"
      using assms(1) by (auto simp: region_inv_def)
    ultimately show ?thesis
      using assms order keys new len evict(1)
      by (auto simp: region_inv_def um_keys_put um_length_put simp del: set_map)
  next
    case grow
    then have "map_of (region_theta_map s) key = None" using map_of_None_keys by metis
    moreover have "Suc (length (region_theta_map s)) \<le> max 1 (max_regions s)"
      using grow(2) region_inv_length_order [OF assms(1)] by auto
    ultimately show ?thesis
      using assms grow
      by (auto simp: lazy_init_region_def region_inv_def um_keys_put um_length_put simp del: set_map)
  qed
  then show "region_inv (lazy_init_region key s)"
    and "key \<in> set (map fst (region_theta_map (lazy_init_region key s)))" by blast+
qed

section \<open>The cell of a vector\<close>

lemma key_ext:
  assumes "key_wf a" and "key_wf b" and "key_size a = key_size b"
    and "\<And>j. j < key_size a \<Longrightarrow> key_get a j = key_get b j"
  shows "a = b"
proof -
  have "take (key_size a) (key_bytes a) = take (key_size b) (key_bytes b)"
    using assms by (intro nth_equalityI) (auto simp: key_wf_def key_get_def)
  moreover have "key_len a = key_len b" using assms(3) unfolding key_size_def by (rule unsigned_word_eqI)
  ultimately have "key_eq a b" unfolding key_eq_def key_size_def by simp
  with key_eq_iff assms(1,2) show ?thesis by blast
qed

lemma key_set_twice [simp]: "key_set (key_set k i a) i b = key_set k i b"
  by (simp add: key_set_def)

lemma key_set_same [simp]: "key_set k i (key_get k i) = k"
  by (simp add: key_set_def key_get_def)

lemma fill_key:
  assumes "key_wf k0" and "n \<le> key_size k0"
    and "rfold (\<lambda>i key. rbind (g i) (\<lambda>b. Inr (key_set key i (of_nat b)))) [0..<n] k0 = Inr key"
  shows "key_wf key \<and> key_size key = key_size k0 \<and>
    (\<forall>i < n. \<exists>t. g i = Inr t \<and> key_get key i = of_nat t)"
  using assms
proof (induction n arbitrary: key)
  case 0
  then show ?case by simp
next
  case (Suc n)
  let ?f = "\<lambda>i key. rbind (g i) (\<lambda>b. Inr (key_set key i (of_nat b)))"
  obtain key1 t where k1: "rfold ?f [0..<n] k0 = Inr key1" and t: "g n = Inr t"
    and key: "key = key_set key1 n (of_nat t)"
    using Suc.prems(3) by (auto simp: rfold_append rbind_eq_Inr_conv)
  have IH: "key_wf key1 \<and> key_size key1 = key_size k0 \<and>
      (\<forall>i < n. \<exists>t. g i = Inr t \<and> key_get key1 i = of_nat t)"
    using Suc.IH [OF Suc.prems(1) _ k1] Suc.prems(2) by simp
  have n: "n < key_size key1" using IH Suc.prems(2) by simp
  have "\<exists>t. g i = Inr t \<and> key_get key i = of_nat t" if "i < Suc n" for i
    using that IH t n by (cases "i = n") (auto simp: key key_get_set less_Suc_eq)
  with IH n show ?case by (simp add: key key_wf_set)
qed

lemma fill_key_total:
  assumes "\<And>i. i < n \<Longrightarrow> returns (g i)"
  shows "returns (rfold (\<lambda>i key. rbind (g i) (\<lambda>b. Inr (key_set key i (of_nat b)))) [0..<n] k0)"
  using assms
proof (induction n)
  case (Suc n)
  from Suc.IH Suc.prems obtain key1 where
    "rfold (\<lambda>i key. rbind (g i) (\<lambda>b. Inr (key_set key i (of_nat b)))) [0..<n] k0 = Inr key1"
    by (auto simp: returns_def)
  with Suc.prems [of n] show ?case by (auto simp: rfold_append returns_def)
qed simp

lemma compute_region_key_Inr:
  assumes "compute_region_key project s vec = Inr key" and "pca_dim s \<le> key_cap"
  shows "key_wf key" and "key_size key = pca_dim s"
    and "i < pca_dim s \<Longrightarrow> \<exists>t. bucket_index (buckets_per_dim s) (project vec ! i)
      (pca_min s ! i) (pca_max s ! i) = Inr t \<and> key_get key i = of_nat t"
proof -
  have new: "key_wf (key_new (pca_dim s))" "key_size (key_new (pca_dim s)) = pca_dim s"
    using key_wf_new [OF assms(2)] by simp_all
  note fill = fill_key [OF new(1) _ assms(1) [unfolded compute_region_key_def Let_def], unfolded new(2)]
  show "key_wf key" and "key_size key = pca_dim s" using fill by simp_all
  show "i < pca_dim s \<Longrightarrow> \<exists>t. bucket_index (buckets_per_dim s) (project vec ! i)
      (pca_min s ! i) (pca_max s ! i) = Inr t \<and> key_get key i = of_nat t"
    using fill by blast
qed

section \<open>The write path visits the L1 ball\<close>

text \<open>The list of cells the recursion reaches, in the order it reaches them.\<close>

primrec ball_leaves :: "int \<Rightarrow> region_key \<Rightarrow> nat \<Rightarrow> nat \<Rightarrow> region_key \<Rightarrow> region_key list" where
  "ball_leaves B center 0 left cur = [cur]"
| "ball_leaves B center (Suc rem) left cur =
     concat (map (\<lambda>delta.
         let b = uint (key_get center (key_size center - Suc rem)) + delta
         in if b < 0 \<or> b \<ge> B then []
            else ball_leaves B center rem (left - nat \<bar>delta\<bar>)
                   (key_set cur (key_size center - Suc rem) (of_int b)))
       [- int_of_size left .. int_of_size left])"

text \<open>Which calls stay within \<open>int\<close>: this depends on the center, the grid and the radius alone.\<close>

primrec ball_safe :: "int \<Rightarrow> region_key \<Rightarrow> nat \<Rightarrow> nat \<Rightarrow> bool" where
  "ball_safe B center 0 left = True"
| "ball_safe B center (Suc rem) left =
     (- (2 ^ 31) < int_of_size left \<and> int_of_size left < 2 ^ 31 - 1 \<and>
      (\<forall>delta \<in> set [- int_of_size left .. int_of_size left].
         let b = uint (key_get center (key_size center - Suc rem)) + delta
         in - (2 ^ 31) \<le> b \<and> b < 2 ^ 31 \<and> (b < 0 \<or> b \<ge> B \<or> ball_safe B center rem (left - nat \<bar>delta\<bar>))))"

definition tighten_list :: "fp \<Rightarrow> region_key list \<Rightarrow> nat \<times> pca_utils \<Rightarrow> nat \<times> pca_utils" where
  "tighten_list alpha ks st =
     fold (\<lambda>k (n, s). let (d, s') = tighten_one_region_locked k alpha s in (n + d, s')) ks st"

lemma tighten_list_simps [simp]:
  "tighten_list alpha [] st = st"
  "tighten_list alpha (k # ks) (n, s) =
     tighten_list alpha ks (n + fst (tighten_one_region_locked k alpha s),
       snd (tighten_one_region_locked k alpha s))"
  "tighten_list alpha (ks @ ks') st = tighten_list alpha ks' (tighten_list alpha ks st)"
  by (simp_all add: tighten_list_def split_beta)

lemma tighten_list_frame [region_frame]:
  "buckets_per_dim (snd (tighten_list alpha ks st)) = buckets_per_dim (snd st)"
  "pca_dim (snd (tighten_list alpha ks st)) = pca_dim (snd st)"
  "pca_metric (snd (tighten_list alpha ks st)) = pca_metric (snd st)"
  "max_regions (snd (tighten_list alpha ks st)) = max_regions (snd st)"
  "pca_min (snd (tighten_list alpha ks st)) = pca_min (snd st)"
  "pca_max (snd (tighten_list alpha ks st)) = pca_max (snd st)"
  "write_l1_radius (snd (tighten_list alpha ks st)) = write_l1_radius (snd st)"
  "region_insertion_order (snd (tighten_list alpha ks st)) = region_insertion_order (snd st)"
  by (induction ks arbitrary: st; case_tac st; simp add: region_frame)+

lemma int_of_size_range: "- (2 ^ 31) \<le> int_of_size n" "int_of_size n \<le> 2 ^ 31 - 1"
  using sint_ge [of "of_nat n :: u32"] sint_lt [of "of_nat n :: u32"] by (simp_all add: int_of_size_def)

lemma tighten_l1_ball_leaves:
  assumes "rem \<le> key_size center"
    and "\<And>j. key_size center - rem \<le> j \<Longrightarrow> key_get cur j = key_get center j"
    and "B = int_of_size (buckets_per_dim s)"
  shows "tighten_l1_ball_locked rem center alpha left (cur, n, s) =
    (if ball_safe B center rem left
     then Inr (cur, tighten_list alpha (ball_leaves B center rem left cur) (n, s)) else Inl int_overflow)"
  using assms
proof (induction rem arbitrary: left cur n s)
  case 0
  then show ?case by (simp add: split_beta)
next
  case (Suc rem)
  let ?d = "key_size center - Suc rem"
  let ?c = "uint (key_get center ?d)"
  let ?m = "int_of_size left"
  let ?leaves = "\<lambda>delta. if ?c + delta < 0 \<or> ?c + delta \<ge> B then []
      else ball_leaves B center rem (left - nat \<bar>delta\<bar>) (key_set cur ?d (of_int (?c + delta)))"
  let ?safe = "\<lambda>delta. - (2 ^ 31) \<le> ?c + delta \<and> ?c + delta < 2 ^ 31 \<and>
      (?c + delta < 0 \<or> ?c + delta \<ge> B \<or> ball_safe B center rem (left - nat \<bar>delta\<bar>))"
  let ?step = "\<lambda>delta (cur, n, s). rbind (int_add ?c delta) (\<lambda>b.
      if b < 0 \<or> b \<ge> int_of_size (buckets_per_dim s) then Inr (cur, n, s)
      else tighten_l1_ball_locked rem center alpha (left - nat \<bar>delta\<bar>) (key_set cur ?d (of_int b), n, s))"
  have loop: "\<exists>y. rfold ?step ds (key_set cur ?d x, n, s) =
      (if \<forall>delta \<in> set ds. ?safe delta
       then Inr (key_set cur ?d y, tighten_list alpha (concat (map ?leaves ds)) (n, s)) else Inl int_overflow)"
    if "B = int_of_size (buckets_per_dim s)" for ds x n s
    using that
  proof (induction ds arbitrary: x n s)
    case Nil
    then show ?case by auto
  next
    case (Cons delta ds)
    let ?b = "of_int (?c + delta) :: u8"
    have agree: "key_get (key_set cur ?d ?b) j = key_get center j" if "key_size center - rem \<le> j" for j
      using that Suc.prems(1) Suc.prems(2) [of j]
      by (simp add: key_get_def key_set_def)
    consider (overflow) "\<not> (- (2 ^ 31) \<le> ?c + delta \<and> ?c + delta < 2 ^ 31)"
      | (outside) "- (2 ^ 31) \<le> ?c + delta \<and> ?c + delta < 2 ^ 31" "?c + delta < 0 \<or> ?c + delta \<ge> B"
      | (inside) "- (2 ^ 31) \<le> ?c + delta \<and> ?c + delta < 2 ^ 31" "\<not> (?c + delta < 0 \<or> ?c + delta \<ge> B)"
      by blast
    then show ?case
    proof cases
      case overflow
      then have "int_add ?c delta = Inl int_overflow" by (auto simp: int_add_def)
      then have step: "?step delta (key_set cur ?d x, n, s) = Inl int_overflow" by simp
      have "\<not> (\<forall>delta \<in> set (delta # ds). ?safe delta)" using overflow by auto
      then show ?thesis unfolding rfold.simps step by (simp only: rbind_simps if_False simp_thms)
    next
      case outside
      then have "int_add ?c delta = Inr (?c + delta)" by (simp add: int_add_def)
      then have step: "?step delta (key_set cur ?d x, n, s) = Inr (key_set cur ?d x, n, s)"
        using outside(2) Cons.prems by simp
      have all: "(\<forall>delta \<in> set (delta # ds). ?safe delta) \<longleftrightarrow> (\<forall>delta \<in> set ds. ?safe delta)"
        unfolding list.set(2) ball_simps using outside by blast
      have "?leaves delta = []" using outside(2) by (rule if_P)
      then have leaves: "concat (map ?leaves (delta # ds)) = concat (map ?leaves ds)"
        by (simp only: list.map concat.simps append_Nil)
      show ?thesis
        unfolding rfold.simps step rbind_simps all leaves by (rule Cons.IH [OF Cons.prems])
    next
      case inside
      let ?st = "tighten_list alpha (?leaves delta) (n, s)"
      have step: "?step delta (key_set cur ?d x, n, s) =
          (if ball_safe B center rem (left - nat \<bar>delta\<bar>) then Inr (key_set cur ?d ?b, ?st) else Inl int_overflow)"
        using inside Cons.prems Suc.IH [OF _ agree Cons.prems] Suc.prems(1) by (simp add: int_add_def)
      show ?thesis
      proof (cases "ball_safe B center rem (left - nat \<bar>delta\<bar>)")
        case False
        then have "\<not> (\<forall>delta \<in> set (delta # ds). ?safe delta)"
          unfolding list.set(2) ball_simps using inside by blast
        then show ?thesis
          unfolding rfold.simps step if_not_P [OF False] by (simp only: rbind_simps if_False simp_thms)
      next
        case True
        then have "?safe delta" using inside by blast
        have "B = int_of_size (buckets_per_dim (snd ?st))"
          using Cons.prems by (simp add: region_frame)
        from Cons.IH [OF this, of ?b "fst ?st"] obtain y where
          y: "rfold ?step ds (key_set cur ?d ?b, ?st) =
            (if \<forall>delta \<in> set ds. ?safe delta
             then Inr (key_set cur ?d y, tighten_list alpha (concat (map ?leaves ds)) ?st) else Inl int_overflow)"
          unfolding prod.collapse by blast
        have "rfold ?step (delta # ds) (key_set cur ?d x, n, s) = rfold ?step ds (key_set cur ?d ?b, ?st)"
          unfolding rfold.simps step if_P [OF True] by (rule rbind_simps)
        moreover have "(\<forall>delta \<in> set (delta # ds). ?safe delta) \<longleftrightarrow> (\<forall>delta \<in> set ds. ?safe delta)"
          unfolding list.set(2) ball_simps using \<open>?safe delta\<close> by blast
        moreover have "tighten_list alpha (concat (map ?leaves (delta # ds))) (n, s) =
            tighten_list alpha (concat (map ?leaves ds)) ?st" by (simp only: list.map concat.simps tighten_list_simps)
        ultimately show ?thesis using y by (intro exI [of _ y]) (simp only:)
      qed
    qed
  qed
  have safe: "ball_safe B center (Suc rem) left \<longleftrightarrow>
      ?m \<noteq> - (2 ^ 31) \<and> ?m \<noteq> 2 ^ 31 - 1 \<and> (\<forall>delta \<in> set [- ?m .. ?m]. ?safe delta)"
    using int_of_size_range [of left] by (auto simp: Let_def)
  obtain y where y: "rfold ?step [- ?m .. ?m] (cur, n, s) =
      (if \<forall>delta \<in> set [- ?m .. ?m]. ?safe delta
       then Inr (key_set cur ?d y, tighten_list alpha (ball_leaves B center (Suc rem) left cur) (n, s))
       else Inl int_overflow)"
    using loop [OF Suc.prems(3), of "[- ?m .. ?m]" "key_get cur ?d" n]
    unfolding key_set_same ball_leaves.simps Let_def by blast
  have restored: "key_get center ?d = key_get cur ?d" using Suc.prems(2) [of ?d] by simp
  have step: "tighten_l1_ball_locked (Suc rem) center alpha left (cur, n, s) =
      (if ?m = - (2 ^ 31) then Inl int_overflow
       else rbind (rfold ?step [- ?m .. ?m] (cur, n, s)) (\<lambda>(cur1, n1, s1).
         if ?m = 2 ^ 31 - 1 then Inl int_overflow else Inr (key_set cur1 ?d (key_get center ?d), n1, s1)))"
    by (simp only: tighten_l1_ball_locked.simps Let_def)
  let ?P = "\<forall>delta \<in> set [- ?m .. ?m]. ?safe delta"
  obtain n2 s2 where tl: "tighten_list alpha (ball_leaves B center (Suc rem) left cur) (n, s) = (n2, s2)" by fastforce
  let ?call = "tighten_l1_ball_locked (Suc rem) center alpha left (cur, n, s)"
  consider (low) "?m = - (2 ^ 31)" | (bad) "?m \<noteq> - (2 ^ 31)" "\<not> ?P"
    | (high) "?m \<noteq> - (2 ^ 31)" ?P "?m = 2 ^ 31 - 1" | (fits) "?m \<noteq> - (2 ^ 31)" ?P "?m \<noteq> 2 ^ 31 - 1" by blast
  then show ?case
  proof cases
    case low
    have "?call = Inl int_overflow" unfolding step by (rule if_P [OF low])
    moreover have "\<not> ball_safe B center (Suc rem) left" unfolding safe using low by blast
    ultimately show ?thesis by (simp only: if_False)
  next
    case bad
    have "?call = Inl int_overflow" unfolding step if_not_P [OF bad(1)] y if_not_P [OF bad(2)] by (rule rbind_simps)
    moreover have "\<not> ball_safe B center (Suc rem) left" unfolding safe using bad(2) by blast
    ultimately show ?thesis by (simp only: if_False)
  next
    case high
    have "?call = Inl int_overflow"
      unfolding step if_not_P [OF high(1)] y if_P [OF high(2)] rbind_simps tl prod.case by (rule if_P [OF high(3)])
    moreover have "\<not> ball_safe B center (Suc rem) left" unfolding safe using high(3) by blast
    ultimately show ?thesis by (simp only: if_False)
  next
    case fits
    have "?call = Inr (cur, tighten_list alpha (ball_leaves B center (Suc rem) left cur) (n, s))"
      unfolding step if_not_P [OF fits(1)] y if_P [OF fits(2)] rbind_simps tl prod.case if_not_P [OF fits(3)]
      unfolding key_set_twice restored key_set_same by (rule refl)
    moreover have "ball_safe B center (Suc rem) left" unfolding safe using fits by blast
    ultimately show ?thesis by (simp only: if_True)
  qed
qed

text \<open>Manhattan distance of two bucket codes, on the coordinates from \<open>lo\<close> on.\<close>

definition key_l1 :: "nat \<Rightarrow> region_key \<Rightarrow> region_key \<Rightarrow> nat" where
  "key_l1 lo center k =
     (\<Sum>j = lo..<key_size center. nat \<bar>uint (key_get k j) - uint (key_get center j)\<bar>)"

lemma key_l1_split:
  "lo < key_size center \<Longrightarrow>
    key_l1 lo center k = nat \<bar>uint (key_get k lo) - uint (key_get center lo)\<bar> + key_l1 (Suc lo) center k"
  by (simp add: key_l1_def sum.atLeast_Suc_lessThan)

lemma int_of_size_small: "n < 2 ^ 31 \<Longrightarrow> int_of_size n = int n"
  by (simp add: int_of_size_def signed_of_nat signed_take_bit_int_eq_self)

lemma ball_safe_small:
  assumes "left + 256 \<le> 2 ^ 31"
  shows "ball_safe B center rem left"
  using assms
proof (induction rem arbitrary: left)
  case (Suc rem)
  have m: "int_of_size left = int left" using Suc.prems by (intro int_of_size_small) simp
  have pow: "(2::int) ^ 31 = 2147483648" by simp
  have m_le: "int left \<le> 2147483392" using Suc.prems by simp
  let ?c = "uint (key_get center (key_size center - Suc rem))"
  have c: "0 \<le> ?c" "?c < 256" using uint_range_size [of "key_get center (key_size center - Suc rem)"] by (simp_all add: word_size)
  have "ball_safe B center rem (left - nat \<bar>delta\<bar>)" for delta
    using Suc.prems by (intro Suc.IH) simp
  moreover have "- (2 ^ 31) \<le> ?c + delta \<and> ?c + delta < 2 ^ 31" if "- int left \<le> delta" "delta \<le> int left" for delta
    using that c m_le unfolding pow by (intro conjI; linarith)
  ultimately show ?case using Suc.prems by (auto simp: m Let_def)
qed simp

lemma uint_of_int_byte: "0 \<le> b \<Longrightarrow> b < 256 \<Longrightarrow> uint (of_int b :: u8) = b"
  by (simp add: uint_word_of_int)

lemma ball_leaves_mem:
  assumes "key_wf cur" and "key_size cur = key_size center" and "rem \<le> key_size center"
    and "B \<le> 256" and "left < 2 ^ 31"
  shows "k \<in> set (ball_leaves B center rem left cur) \<longleftrightarrow>
    key_wf k \<and> key_size k = key_size center \<and>
    (\<forall>j < key_size center - rem. key_get k j = key_get cur j) \<and>
    (\<forall>j \<in> {key_size center - rem..<key_size center}. uint (key_get k j) < B) \<and>
    key_l1 (key_size center - rem) center k \<le> left"
  using assms
proof (induction rem arbitrary: left cur)
  case 0
  then show ?case using key_ext [of k cur] by (auto simp: key_l1_def)
next
  case (Suc rem)
  let ?d = "key_size center - Suc rem"
  let ?c = "uint (key_get center ?d)"
  have d: "?d < key_size center" "key_size center - rem = Suc ?d" using Suc.prems(3) by simp_all
  have IH: "k \<in> set (ball_leaves B center rem (left - nat \<bar>delta\<bar>) (key_set cur ?d x)) \<longleftrightarrow>
      key_wf k \<and> key_size k = key_size center \<and>
      (\<forall>j < ?d. key_get k j = key_get cur j) \<and> key_get k ?d = x \<and>
      (\<forall>j \<in> {Suc ?d..<key_size center}. uint (key_get k j) < B) \<and>
      key_l1 (Suc ?d) center k \<le> left - nat \<bar>delta\<bar>" for delta x
  proof -
    have wf: "key_wf (key_set cur ?d x)" "key_size (key_set cur ?d x) = key_size center"
      using Suc.prems(1,2) d by (simp_all add: key_wf_set)
    have get: "key_get (key_set cur ?d x) j = (if j = ?d then x else key_get cur j)" for j
      using Suc.prems(1,2) d by (simp add: key_get_set)
    show ?thesis
      using Suc.IH [OF wf] Suc.prems(3-5) d by (auto simp: get less_Suc_eq)
  qed
  show ?case (is "?L \<longleftrightarrow> ?R")
  proof
    assume ?L
    then obtain delta where delta: "- int left \<le> delta" "delta \<le> int left"
      and b: "0 \<le> ?c + delta" "?c + delta < B"
      and k: "k \<in> set (ball_leaves B center rem (left - nat \<bar>delta\<bar>) (key_set cur ?d (of_int (?c + delta))))"
      using Suc.prems(5) by (auto simp: Let_def int_of_size_small split: if_splits)
    from k have k': "key_wf k" "key_size k = key_size center" "\<forall>j < ?d. key_get k j = key_get cur j"
      "key_get k ?d = of_int (?c + delta)" "\<forall>j \<in> {Suc ?d..<key_size center}. uint (key_get k j) < B"
      "key_l1 (Suc ?d) center k \<le> left - nat \<bar>delta\<bar>" using k unfolding IH by blast+
    have u: "uint (key_get k ?d) = ?c + delta"
      unfolding k'(4) using b Suc.prems(4) by (intro uint_of_int_byte) simp_all
    have "\<forall>j \<in> {?d..<key_size center}. uint (key_get k j) < B"
      using k'(5) u b by (metis atLeastLessThan_iff le_neq_implies_less Suc_leI)
    moreover have "key_l1 ?d center k \<le> left"
      using k'(6) delta u by (simp add: key_l1_split [OF d(1)])
    ultimately show ?R using k'(1-3) by simp
  next
    assume R: ?R
    define delta where "delta = uint (key_get k ?d) - ?c"
    have "uint (key_get k ?d) < B" using R d(1) by auto
    moreover have "nat \<bar>delta\<bar> + key_l1 (Suc ?d) center k \<le> left"
      using R by (simp add: key_l1_split [OF d(1)] delta_def)
    then have "key_l1 (Suc ?d) center k \<le> left - nat \<bar>delta\<bar>" "- int left \<le> delta" "delta \<le> int left"
      by linarith+
    ultimately have "k \<in> set (ball_leaves B center rem (left - nat \<bar>delta\<bar>) (key_set cur ?d (of_int (?c + delta))))"
      "\<not> (?c + delta < 0 \<or> ?c + delta \<ge> B)" "delta \<in> {- int left .. int left}"
      using R by (simp_all add: IH delta_def)
    then show ?L using Suc.prems(5) by (auto simp: Let_def int_of_size_small)
  qed
qed

lemma set_if_Nil: "z \<in> set (if P then [] else xs) \<longleftrightarrow> \<not> P \<and> z \<in> set xs"
  by simp

lemma distinct_if_Nil: "distinct (if P then [] else xs) \<longleftrightarrow> P \<or> distinct xs"
  by simp

lemma distinct_concat_map:
  assumes "distinct xs" and "\<And>x. x \<in> set xs \<Longrightarrow> distinct (f x)"
    and "\<And>x y z. x \<in> set xs \<Longrightarrow> y \<in> set xs \<Longrightarrow> z \<in> set (f x) \<Longrightarrow> z \<in> set (f y) \<Longrightarrow> x = y"
  shows "distinct (concat (map f xs))"
  using assms
proof (induction xs)
  case (Cons x xs)
  have "set (f x) \<inter> (\<Union>y \<in> set xs. set (f y)) = {}"
    using Cons.prems(1) Cons.prems(3) [of x] by fastforce
  with Cons show ?case by simp
qed simp

lemma ball_leaves_distinct:
  assumes "key_wf cur" and "key_size cur = key_size center" and "rem \<le> key_size center"
    and "B \<le> 256" and "left < 2 ^ 31"
  shows "distinct (ball_leaves B center rem left cur)"
  using assms
proof (induction rem arbitrary: left cur)
  case (Suc rem)
  let ?d = "key_size center - Suc rem"
  let ?c = "uint (key_get center ?d)"
  have d: "?d < key_size center" using Suc.prems(3) by simp
  have wf: "key_wf (key_set cur ?d x)" "key_size (key_set cur ?d x) = key_size center" for x
    using Suc.prems(1,2) d by (simp_all add: key_wf_set)
  have code: "uint (key_get k ?d) = ?c + delta"
    if "k \<in> set (ball_leaves B center rem (left - nat \<bar>delta\<bar>) (key_set cur ?d (of_int (?c + delta))))"
      and "0 \<le> ?c + delta" "?c + delta < B" for k delta
  proof -
    have "key_get k ?d = key_get (key_set cur ?d (of_int (?c + delta))) ?d"
      using that(1) ball_leaves_mem [OF wf] Suc.prems(3-5) by simp
    also have "\<dots> = of_int (?c + delta)" using Suc.prems(1,2) d by (simp add: key_get_set)
    finally show ?thesis using that(2,3) Suc.prems(4) by (simp only: uint_of_int_byte)
  qed
  have "distinct (ball_leaves B center rem (left - nat \<bar>delta\<bar>) (key_set cur ?d x))" for delta x
    using Suc.prems by (intro Suc.IH wf) simp_all
  note dist = this
  show ?case unfolding ball_leaves.simps Let_def
  proof (intro distinct_concat_map, goal_cases)
    case 1
    then show ?case by simp
  next
    case (2 x)
    show ?case unfolding distinct_if_Nil using dist by blast
  next
    case (3 x y z)
    then have "uint (key_get z ?d) = ?c + x" "uint (key_get z ?d) = ?c + y"
      using code by (simp_all only: set_if_Nil de_Morgan_disj not_less not_le)
    then show ?case by simp
  qed
qed simp

section \<open>Effect of the write path on every cell\<close>

lemma tighten_one_other:
  assumes "k' \<noteq> k"
  shows "map_of (region_theta_map (snd (tighten_one_region_locked k alpha s))) k' =
      map_of (region_theta_map s) k'"
    and "map_of (region_discount_map (snd (tighten_one_region_locked k alpha s))) k' =
      map_of (region_discount_map s) k'"
  using assms by (cases rule: tighten_one_cases [of alpha s k]; simp add: update_conv')+

lemma tighten_one_tightenable:
  assumes "k' \<noteq> k"
  shows "tightenable alpha (snd (tighten_one_region_locked k alpha s)) k' = tightenable alpha s k'"
  unfolding tightenable_def discount_of_def tighten_one_other [OF assms] tighten_one_frame by (rule refl)

lemma tighten_one_same:
  "map_of (region_theta_map (snd (tighten_one_region_locked k alpha s))) k =
     (if tightenable alpha s k then map_option (tighten_entry (pca_metric s) alpha) (map_of (region_theta_map s) k)
      else map_of (region_theta_map s) k)"
  "map_of (region_discount_map (snd (tighten_one_region_locked k alpha s))) k =
     (if tightenable alpha s k then Some alpha else map_of (region_discount_map s) k)"
  "fst (tighten_one_region_locked k alpha s) = (if tightenable alpha s k then 1 else 0)"
  by (cases rule: tighten_one_cases [of alpha s k]; simp add: update_conv')+

lemma tighten_list_theta:
  "distinct ks \<Longrightarrow> map_of (region_theta_map (snd (tighten_list alpha ks (n, s)))) k =
     (if k \<in> set ks \<and> tightenable alpha s k
      then map_option (tighten_entry (pca_metric s) alpha) (map_of (region_theta_map s) k)
      else map_of (region_theta_map s) k)"
proof (induction ks arbitrary: n s)
  case (Cons x ks)
  let ?s = "snd (tighten_one_region_locked x alpha s)"
  have same: "y \<in> set ks \<Longrightarrow> tightenable alpha ?s y = tightenable alpha s y" for y
    using Cons.prems by (intro tighten_one_tightenable) auto
  from Cons show ?case
    by (cases "k = x") (auto simp: tighten_one_same tighten_one_other region_frame same)
qed simp

lemma tighten_list_discount:
  "distinct ks \<Longrightarrow> map_of (region_discount_map (snd (tighten_list alpha ks (n, s)))) k =
     (if k \<in> set ks \<and> tightenable alpha s k then Some alpha else map_of (region_discount_map s) k)"
proof (induction ks arbitrary: n s)
  case (Cons x ks)
  let ?s = "snd (tighten_one_region_locked x alpha s)"
  have same: "y \<in> set ks \<Longrightarrow> tightenable alpha ?s y = tightenable alpha s y" for y
    using Cons.prems by (intro tighten_one_tightenable) auto
  from Cons show ?case
    by (cases "k = x") (auto simp: tighten_one_same tighten_one_other same)
qed simp

lemma tighten_list_count:
  "distinct ks \<Longrightarrow>
    fst (tighten_list alpha ks (n, s)) = n + length (filter (tightenable alpha s) ks)"
proof (induction ks arbitrary: n s)
  case (Cons x ks)
  let ?s = "snd (tighten_one_region_locked x alpha s)"
  have "filter (tightenable alpha ?s) ks = filter (tightenable alpha s) ks"
    using Cons.prems by (intro filter_cong refl tighten_one_tightenable) auto
  with Cons show ?case by (simp add: tighten_one_same)
qed simp

lemmas tighten_list_effect = tighten_list_theta tighten_list_discount tighten_list_count

lemma tighten_list_skip:
  "(\<And>k. k \<in> set ks \<Longrightarrow> \<not> tightenable alpha s k) \<Longrightarrow> tighten_list alpha ks (n, s) = (n, s)"
proof (induction ks)
  case (Cons x ks)
  have "tighten_one_region_locked x alpha s = (0, s)"
    using Cons.prems [of x] by (cases rule: tighten_one_cases [of alpha s x]) simp_all
  with Cons show ?case by simp
qed simp

lemma region_inv_tighten_list: "region_inv (snd st) \<Longrightarrow> region_inv (snd (tighten_list alpha ks st))"
  by (induction ks arbitrary: st) (auto simp: tighten_list_def split_beta region_inv_tighten_one)

text \<open>The cells a write at \<open>center\<close> may touch.\<close>

definition in_l1_ball :: "pca_utils \<Rightarrow> region_key \<Rightarrow> region_key \<Rightarrow> bool" where
  "in_l1_ball s center k \<longleftrightarrow>
     key_wf k \<and> key_size k = key_size center \<and>
     (\<forall>j < key_size k. unat (key_get k j) < buckets_per_dim s) \<and>
     key_l1 0 center k \<le> write_l1_radius s"

definition pca_config_ok :: "pca_utils \<Rightarrow> bool" where
  "pca_config_ok s \<longleftrightarrow> pca_dim s \<le> key_cap \<and> buckets_per_dim s \<le> 256 \<and> write_l1_radius s < 2 ^ 31"

definition write_ball :: "pca_utils \<Rightarrow> region_key \<Rightarrow> region_key list" where
  "write_ball s key =
     ball_leaves (int_of_size (buckets_per_dim s)) key (key_size key) (write_l1_radius s) key"

text \<open>A write whose \<open>int\<close> arithmetic does not overflow; radii up to \<open>2 ^ 31 - 256\<close> are safe in every cell.\<close>

definition write_safe :: "pca_utils \<Rightarrow> region_key \<Rightarrow> bool" where
  "write_safe s key = ball_safe (int_of_size (buckets_per_dim s)) key (key_size key) (write_l1_radius s)"

definition radius_fits :: "pca_utils \<Rightarrow> bool" where
  "radius_fits s \<longleftrightarrow> write_l1_radius s + 256 \<le> 2 ^ 31"

lemma write_safe_radius: "radius_fits s \<Longrightarrow> write_safe s key"
  by (simp add: radius_fits_def write_safe_def ball_safe_small)

lemma write_ball_mem:
  assumes "key_wf key" and "pca_config_ok s"
  shows "k \<in> set (write_ball s key) \<longleftrightarrow> in_l1_ball s key k"
    and "distinct (write_ball s key)"
proof -
  have B: "int_of_size (buckets_per_dim s) = int (buckets_per_dim s)" "int (buckets_per_dim s) \<le> 256"
    and r: "write_l1_radius s < 2 ^ 31"
    using assms(2) by (simp_all add: int_of_size_small pca_config_ok_def)
  have lt: "uint b < int n \<longleftrightarrow> unat b < n" for b :: u8 and n
  proof -
    have "int (unat b) = uint b" by simp
    then show ?thesis by linarith
  qed
  show "k \<in> set (write_ball s key) \<longleftrightarrow> in_l1_ball s key k"
    unfolding write_ball_def B(1) ball_leaves_mem [OF assms(1) refl order_refl B(2) r]
    by (auto simp: in_l1_ball_def lt)
  show "distinct (write_ball s key)"
    unfolding write_ball_def B(1) by (rule ball_leaves_distinct [OF assms(1) refl order_refl B(2) r])
qed

lemma tighten_theta_for_vector_cases:
  assumes "compute_region_key project s v = Inr key" and "\<not> (fp_le (Fin 1) alpha \<or> fp_le alpha (Fin 0))"
  shows "tighten_theta_for_vector project (Some v) alpha s =
    (if write_safe s key then Inr (tighten_list alpha (write_ball s key) (0, s)) else Inl int_overflow)"
  using assms
  by (simp add: tighten_theta_for_vector_def tighten_l1_ball_leaves write_safe_def write_ball_def split_beta)

lemma tighten_theta_for_vector_eq:
  assumes "compute_region_key project s v = Inr key" and "write_safe s key"
    and "fp_lt (Fin 0) alpha" and "fp_lt alpha (Fin 1)"
  shows "tighten_theta_for_vector project (Some v) alpha s = Inr (tighten_list alpha (write_ball s key) (0, s))"
proof -
  have "\<not> (fp_le (Fin 1) alpha \<or> fp_le alpha (Fin 0))"
    using assms(3,4) fp_le_not_lt by blast
  then show ?thesis using tighten_theta_for_vector_cases [OF assms(1)] assms(2) by simp
qed

text \<open>A write that returns left the state alone or tightened the cells of a ball.\<close>

lemma tighten_theta_for_vector_Inr:
  assumes "tighten_theta_for_vector project vec alpha s = Inr (n, s')"
  obtains "s' = s" and "n = 0" and "vec = None \<or> fp_le (Fin 1) alpha \<or> fp_le alpha (Fin 0)"
  | v key where "vec = Some v" and "\<not> (fp_le (Fin 1) alpha \<or> fp_le alpha (Fin 0))"
    and "compute_region_key project s v = Inr key" and "write_safe s key"
    and "tighten_list alpha (write_ball s key) (0, s) = (n, s')"
proof (cases "vec = None \<or> fp_le (Fin 1) alpha \<or> fp_le alpha (Fin 0)")
  case True
  then show ?thesis
    using assms that(1) by (auto simp: tighten_theta_for_vector_def split: option.splits)
next
  case False
  then obtain v where v: "vec = Some v" and guard: "\<not> (fp_le (Fin 1) alpha \<or> fp_le alpha (Fin 0))" by auto
  then obtain key where key: "compute_region_key project s v = Inr key"
    using assms by (auto simp: tighten_theta_for_vector_def rbind_eq_Inr_conv)
  have "write_safe s key" "tighten_list alpha (write_ball s key) (0, s) = (n, s')"
    using tighten_theta_for_vector_cases [OF key guard] assms unfolding v by (simp_all split: if_splits)
  with v guard key show ?thesis by (rule that(2))
qed

section \<open>What a read of a threshold sees\<close>

definition listed_K :: "nat \<Rightarrow> bool" where
  "listed_K k \<longleftrightarrow> k \<in> {1, 5, 10, 100}"

definition fresh_theta :: "metric \<Rightarrow> nat \<Rightarrow> fp" where
  "fresh_theta m k = (if listed_K k then uninitialized_theta m else Fin 0)"

definition cell_theta :: "pca_utils \<Rightarrow> region_key \<Rightarrow> nat \<Rightarrow> fp" where
  "cell_theta s region k =
     (case map_of (region_theta_map s) region of
        None \<Rightarrow> fresh_theta (pca_metric s) k
      | Some e \<Rightarrow> (case map_of e k of None \<Rightarrow> Fin 0 | Some th \<Rightarrow> th))"

lemma map_of_reset_entry:
  "map_of (reset_theta_entry m []) k = (if listed_K k then Some (uninitialized_theta m) else None)"
  by (simp add: reset_theta_entry_def listed_K_def Let_def)

lemma lazy_init_frame [region_frame]:
  "pca_metric (lazy_init_region key s) = pca_metric s"
  "pca_dim (lazy_init_region key s) = pca_dim s"
  "buckets_per_dim (lazy_init_region key s) = buckets_per_dim s"
  "max_regions (lazy_init_region key s) = max_regions s"
  "write_l1_radius (lazy_init_region key s) = write_l1_radius s"
  "pca_min (lazy_init_region key s) = pca_min s"
  "pca_max (lazy_init_region key s) = pca_max s"
  by (simp_all add: lazy_init_region_def Let_def)

lemma theta_at_frame [region_frame]:
  "pca_metric (snd (theta_at region k s)) = pca_metric s"
  "pca_dim (snd (theta_at region k s)) = pca_dim s"
  "buckets_per_dim (snd (theta_at region k s)) = buckets_per_dim s"
  "max_regions (snd (theta_at region k s)) = max_regions s"
  "write_l1_radius (snd (theta_at region k s)) = write_l1_radius s"
  "pca_min (snd (theta_at region k s)) = pca_min s"
  "pca_max (snd (theta_at region k s)) = pca_max s"
  "region_insertion_order (snd (theta_at region k s)) = region_insertion_order s"
  "region_discount_map (snd (theta_at region k s)) = region_discount_map s"
  by (simp_all add: theta_at_def Let_def split_beta)

lemma lazy_init_entry:
  "map_of (region_theta_map (lazy_init_region key s)) key =
     Some (case map_of (region_theta_map s) key of None \<Rightarrow> reset_theta_entry (pca_metric s) [] | Some e \<Rightarrow> e)"
  by (auto simp: lazy_init_region_def Let_def update_conv' split: option.splits)

lemma theta_at_value:
  "fst (theta_at region k (lazy_init_region region s)) = cell_theta s region k"
  by (auto simp: theta_at_def um_at_def lazy_init_entry cell_theta_def fresh_theta_def
      map_of_reset_entry Let_def split_beta split: option.splits)

text \<open>The hit test as a formula: a cell is read as its threshold, an unknown cell as fresh.\<close>

lemma pca_isHit_eq:
  assumes "compute_region_key project s query = Inr region" and "K \<le> num_vectors" and "0 < K"
    and "K \<le> length ds"
  shows "pca_isHit project query K (Some ds) num_vectors dev s =
    Inr (\<not> is_uninitialized_theta (pca_metric s) (cell_theta s region K) \<and>
           within_tolerance dev (cell_theta s region K) (ds ! (K - 1)),
         snd (theta_at region K (lazy_init_region region s)))"
  using assms
  by (auto simp: pca_isHit_def split_beta Let_def theta_at_value dist_at_def)

section \<open>Preservation by every operation\<close>

lemma region_inv_theta_at:
  assumes "region_inv s" and "region \<in> set (map fst (region_theta_map s))"
  shows "region_inv (snd (theta_at region k s))"
proof -
  obtain e where "map_of (region_theta_map s) region = Some e"
    using assms(2) map_of_None_keys by (metis not_Some_eq)
  then show ?thesis
    using region_inv_put_known(1) [OF assms]
    by (simp add: theta_at_def um_at_def Let_def split_beta)
qed

lemma region_inv_put_theta:
  assumes "region_inv s" and "region \<in> set (map fst (region_theta_map s))"
  shows "region_inv (put_theta region k th s)"
    and "set (map fst (region_theta_map (put_theta region k th s))) = set (map fst (region_theta_map s))"
proof -
  obtain e where "map_of (region_theta_map s) region = Some e"
    using assms(2) map_of_None_keys by (metis not_Some_eq)
  then show "region_inv (put_theta region k th s)"
    and "set (map fst (region_theta_map (put_theta region k th s))) = set (map fst (region_theta_map s))"
    using region_inv_put_known(1) [OF assms] assms(2)
    by (auto simp: put_theta_def um_at_def Let_def split_beta um_keys_put simp del: set_map)
qed

lemma theta_at_keys:
  assumes "region \<in> set (map fst (region_theta_map s))"
  shows "set (map fst (region_theta_map (snd (theta_at region k s)))) = set (map fst (region_theta_map s))"
proof -
  obtain e where "map_of (region_theta_map s) region = Some e"
    using assms map_of_None_keys by (metis not_Some_eq)
  then show ?thesis
    using assms by (auto simp: theta_at_def um_at_def Let_def split_beta um_keys_put simp del: set_map)
qed

lemma pca_isHit_states:
  assumes "pca_isHit project query K distances nv dev s = Inr (b, s')"
  obtains "s' = s"
    | region where "compute_region_key project s query = Inr region"
      "s' = snd (theta_at region K (lazy_init_region region s))"
proof (cases "distances = None \<or> nv < K \<or> K = 0")
  case True
  then have "s' = s" using assms by (auto simp: pca_isHit_def split: option.splits)
  then show ?thesis by (rule that(1))
next
  case False
  then obtain ds where "distances = Some ds" "\<not> (nv < K \<or> K = 0)" by auto
  note ds = this
  show ?thesis
  proof (cases "compute_region_key project s query")
    case (Inl e)
    then show ?thesis using assms ds by (simp add: pca_isHit_def)
  next
    case (Inr region)
    let ?p = "theta_at region K (lazy_init_region region s)"
    have "s' = snd ?p"
      using assms ds Inr
      by (cases "is_uninitialized_theta (pca_metric s) (fst ?p)"; cases "dist_at ds (K - 1)")
        (simp_all add: pca_isHit_def split_beta)
    with Inr show ?thesis by (rule that(2))
  qed
qed

lemma region_inv_isHit:
  assumes "region_inv s" and "pca_dim s \<le> key_cap"
    and "pca_isHit project query K distances nv dev s = Inr (b, s')"
  shows "region_inv s'"
  using assms(3)
proof (cases rule: pca_isHit_states)
  case (2 region)
  have "key_wf region" "key_size region = pca_dim s"
    using compute_region_key_Inr [OF 2(1) assms(2)] by blast+
  then show ?thesis
    unfolding 2(2) by (intro region_inv_theta_at region_inv_lazy_init assms(1))
qed (simp add: assms(1))

lemma region_inv_update_theta:
  assumes "region_inv s" and "pca_dim s \<le> key_cap"
    and "pca_update_theta project query K d p s = Inr s'"
  shows "region_inv s'"
proof -
  obtain region where region: "compute_region_key project s query = Inr region"
    using assms(3) by (auto simp: pca_update_theta_def rbind_eq_Inr_conv)
  note init = region_inv_lazy_init [OF assms(1) compute_region_key_Inr(1,2) [OF region assms(2)]]
  let ?s1 = "snd (theta_at region K (lazy_init_region region s))"
  have s1: "region_inv ?s1" "region \<in> set (map fst (region_theta_map ?s1))"
    using region_inv_theta_at [OF init] theta_at_keys [OF init(2)] init(2) by blast+
  obtain th where s': "s' = (put_theta region K th ?s1)
      \<lparr>region_discount_map := um_put region (Fin 1) (region_discount_map (put_theta region K th ?s1))\<rparr>"
    using assms(3) region by (auto simp: pca_update_theta_def Let_def split_beta)
  show ?thesis
    unfolding s' using region_inv_put_theta [OF s1, of K th] s1(2)
    by (intro region_inv_put_known(2)) simp_all
qed

lemma region_inv_tighten:
  assumes "region_inv s" and "tighten_theta_for_vector project vec alpha s = Inr (n, s')"
  shows "region_inv s'"
  using assms(2)
proof (cases rule: tighten_theta_for_vector_Inr)
  case (2 v key)
  then show ?thesis using region_inv_tighten_list [of "(0, s)" alpha "write_ball s key"] assms(1) by simp
qed (use assms(1) in simp)

lemma region_inv_invalidate:
  assumes "region_inv s" and "invalidate_theta project vec s = Inr s'"
  shows "region_inv s'"
  using assms(2) region_inv_put_known(3) [OF assms(1) map_of_SomeK] assms(1)
  by (auto simp: invalidate_theta_def rbind_eq_Inr_conv split: option.splits)

end
