(* ===== verification/HitThresholds.thy ===== *)
theory HitThresholds
  imports PcaRegions
begin

text \<open>
  The properties of \<open>PCAUtils\<close>: the bucket code of a coordinate, the effect of a write on every cell,
  what makes a read a hit, how thresholds move, and runs of the class's operations.
\<close>

section \<open>Bucket codes\<close>

lemma fp_val_multiple:
  assumes "fp_val F (Fin r)"
  shows "\<exists>m :: int. r = of_int m * 2 powi emin F"
proof -
  have round: "\<exists>m :: int. round_pos F x = of_int m * 2 powi emin F" for x
  proof -
    define e where "e = ulp_exp F x"
    have "emin F \<le> e" by (simp add: e_def ulp_exp_def)
    then have "(2::rat) powi e = of_int (2 ^ nat (e - emin F)) * 2 powi emin F"
      using powi2_add [of "e - emin F" "emin F"] by (simp add: power_int_def)
    then have "round_pos F x = of_int (rhe (x / 2 powi e) * 2 ^ nat (e - emin F)) * 2 powi emin F"
      unfolding round_pos_def e_def [symmetric] by simp
    then show ?thesis by blast
  qed
  have r: "round_rat F r = r"
    using assms by (auto simp: fround_def Let_def split: if_splits)
  have "\<exists>m :: int. round_rat F r = of_int m * 2 powi emin F"
    unfolding round_rat_def using round [of r] round [of "- r"]
    by (auto intro: exI [of _ "0::int"]) (metis mult_minus_left of_int_minus)
  then show ?thesis unfolding r .
qed

text \<open>Gradual underflow: the rounded difference of two different values keeps its sign.\<close>

lemma fround_diff_pos:
  assumes "fp_val binary32 (Fin a)" and "fp_val binary32 (Fin b)" and "a < b"
  shows "Fin 0 < fround binary32 (b - a)"
proof -
  obtain m n :: int where m: "a = of_int m * 2 powi emin binary32" and n: "b = of_int n * 2 powi emin binary32"
    using fp_val_multiple assms(1,2) by metis
  have p: "(0::rat) < 2 powi emin binary32" by (rule powi2_pos)
  have "m < n" using assms(3) p by (simp add: m n mult_less_cancel_right)
  then have "1 \<le> (of_int (n - m) :: rat)" by linarith
  then have "2 powi emin binary32 \<le> b - a"
    using p mult_right_mono [of 1 "of_int (n - m)" "2 powi emin binary32 :: rat"]
    by (simp add: m n left_diff_distrib)
  moreover have "fp_val binary32 (Fin (2 powi emin binary32))"
    using f32.fround_exact [of 1 "emin binary32"] by (simp add: binary32_def)
  ultimately have "Fin (2 powi emin binary32) \<le> fround binary32 (b - a)"
    by (rule f32.fround_ge_val [rotated])
  then show ?thesis using p by (metis fp_le_simps(5) less_le_trans)
qed

lemma fp_mul_pos_mono:
  assumes "ieee_format F" and "x \<le> y" and "y \<noteq> NaN" and "0 \<le> c" and "Fin 0 \<le> x" and "y \<noteq> PInf"
  shows "fp_mul F x (Fin c) \<le> fp_mul F y (Fin c)"
  using assms ieee_format.fround_mono [OF assms(1)]
  by (cases x; cases y) (auto simp: mult_right_mono)

lemma clamp01_unit: "x \<noteq> NaN \<Longrightarrow> \<exists>u. clamp01 x = Fin u \<and> 0 \<le> u \<and> u \<le> 1"
  by (cases x) (auto simp: clamp01_def fp_lt_def)

lemma clamp01_mono: "x \<le> y \<Longrightarrow> y \<noteq> NaN \<Longrightarrow> clamp01 x \<le> clamp01 y"
  by (cases x; cases y) (auto simp: clamp01_def fp_lt_def less_fp_def)

lemma fp_div_pos_mono:
  assumes "ieee_format F" and "x \<le> y" and "y \<noteq> NaN" and "0 < w"
  shows "fp_div F x (Fin w) \<le> fp_div F y (Fin w)"
  using assms ieee_format.fround_mono [OF assms(1)] ieee_format.fround_not_NaN [OF assms(1)]
  by (cases x; cases y) (auto simp: divide_right_mono signed_inf_def)

lemma fp_div_not_NaN:
  assumes "ieee_format F" and "x \<noteq> NaN" and "0 < w"
  shows "fp_div F x (Fin w) \<noteq> NaN"
  using assms ieee_format.fround_not_NaN [OF assms(1)] by (cases x) (auto simp: signed_inf_def)

text \<open>A range usable for bucketing: finite \<open>float\<close> bounds whose width does not overflow.\<close>

definition range_ok :: "fp \<Rightarrow> fp \<Rightarrow> bool" where
  "range_ok minv maxv \<longleftrightarrow> (\<exists>a b. minv = Fin a \<and> maxv = Fin b \<and> a \<le> b \<and>
     fp_val binary32 minv \<and> fp_val binary32 maxv \<and> fp_sub binary32 maxv minv \<noteq> PInf)"

lemma range_width:
  assumes "range_ok minv maxv" and "\<not> fp_eq maxv minv"
  shows "\<exists>w. fp_sub binary32 maxv minv = Fin w \<and> 0 < w"
proof -
  obtain a b where ab: "minv = Fin a" "maxv = Fin b" "a < b"
    and val: "fp_val binary32 (Fin a)" "fp_val binary32 (Fin b)" "fround binary32 (b - a) \<noteq> PInf"
    using assms by (fastforce simp: range_ok_def fp_eq_def fp_sub_def)
  have "Fin 0 < fround binary32 (b - a)" using fround_diff_pos val(1,2) ab(3) by blast
  then show ?thesis
    using val(3) by (cases "fround binary32 (b - a)") (simp_all add: ab fp_sub_def less_fp_def)
qed

lemma bucket_index_chain:
  assumes "range_ok minv maxv" and "\<not> fp_eq maxv minv" and "0 < B" and "B \<le> 256"
  shows "\<exists>y :: rat \<Rightarrow> rat. mono y \<and> (\<forall>v. 0 \<le> y v \<and> bucket_index B (Fin v) minv maxv = Inr (min (B - 1) (nat \<lfloor>y v\<rfloor>)))"
proof -
  obtain w where w: "fp_sub binary32 maxv minv = Fin w" "0 < w" using range_width [OF assms(1,2)] by blast
  obtain a where a: "minv = Fin a" using assms(1) by (auto simp: range_ok_def)
  define d where "d v = fp_sub binary32 (Fin v) minv" for v
  define u where "u v = clamp01 (fp_div binary32 (d v) (Fin w))" for v
  have d: "d v \<noteq> NaN" for v by (simp add: d_def a fp_sub_def)
  have dm: "d v \<le> d v'" if "v \<le> v'" for v v'
    using that by (simp add: d_def a fp_sub_def f32.fround_mono)
  have u: "\<exists>x. u v = Fin x \<and> 0 \<le> x \<and> x \<le> 1" for v
    unfolding u_def using clamp01_unit fp_div_not_NaN [OF f32.ieee_format_axioms d w(2)] by blast
  have um: "u v \<le> u v'" if "v \<le> v'" for v v'
    unfolding u_def using fp_div_pos_mono [OF f32.ieee_format_axioms dm [OF that] d w(2)]
      fp_div_not_NaN [OF f32.ieee_format_axioms d w(2)] by (rule clamp01_mono)
  have "(256::int) < 2 ^ 24" by simp
  then have "fround binary32 (of_int (int B) / 2 ^ 0) = Fin (of_int (int B) / 2 ^ 0)"
    using assms(4) by (intro fround32_dyadic) (linarith, simp)
  then have B: "fp_of_nat binary32 B = Fin (of_nat B)" "fp_val binary32 (Fin (of_nat B))"
    by (simp_all add: fp_of_nat_def)
  have idx: "\<exists>y. fp_mul binary32 (u v) (fp_of_nat binary32 B) = Fin y \<and> 0 \<le> y \<and> y \<le> of_nat B \<and>
      bucket_index B (Fin v) minv maxv = Inr (min (B - 1) (nat \<lfloor>y\<rfloor>))" for v
  proof -
    obtain x where x: "u v = Fin x" "0 \<le> x" "x \<le> 1" using u by blast
    have "x * of_nat B \<le> of_nat B" using x(3) mult_right_mono [of x 1 "of_nat B"] by simp
    then have "fround binary32 (x * of_nat B) \<le> Fin (of_nat B)"
      by (rule f32.fround_le_val [OF B(2)])
    moreover have "Fin 0 \<le> fround binary32 (x * of_nat B)"
      using x(2) by (intro f32.fround_nonneg) simp
    ultimately obtain y where y: "fround binary32 (x * of_nat B) = Fin y" "0 \<le> y" "y \<le> of_nat B"
      by (cases "fround binary32 (x * of_nat B)") auto
    have "(of_nat B :: rat) \<le> 256" using assms(4) by simp
    then have "y < 2 ^ 64" using y(3) by simp
    then show ?thesis
      using y x(1) assms(2,3) w(1)
      by (simp add: bucket_index_def B(1) size_pred_def d_def [symmetric] u_def [symmetric])
  qed
  have mono: "fp_mul binary32 (u v) (fp_of_nat binary32 B) \<le> fp_mul binary32 (u v') (fp_of_nat binary32 B)"
    if "v \<le> v'" for v v'
    using um [OF that] u [of v] u [of v'] unfolding B(1)
    by (intro fp_mul_pos_mono [OF f32.ieee_format_axioms]) auto
  obtain y where y: "\<And>v. fp_mul binary32 (u v) (fp_of_nat binary32 B) = Fin (y v)" "\<And>v. 0 \<le> y v"
    "\<And>v. bucket_index B (Fin v) minv maxv = Inr (min (B - 1) (nat \<lfloor>y v\<rfloor>))"
    using idx by metis
  have "mono y" using mono unfolding y(1) by (auto intro: monoI)
  with y(2,3) show ?thesis by blast
qed

lemma bucket_index_total:
  assumes "range_ok minv maxv" and "0 < B" and "B \<le> 256"
  shows "\<exists>t. bucket_index B (Fin v) minv maxv = Inr t \<and> t < B"
proof (cases "fp_eq maxv minv")
  case True
  then show ?thesis using assms(2) by (simp add: bucket_index_def)
next
  case False
  obtain y :: "rat \<Rightarrow> rat" where "bucket_index B (Fin v) minv maxv = Inr (min (B - 1) (nat \<lfloor>y v\<rfloor>))"
    using bucket_index_chain [OF assms(1) False assms(2,3)] by blast
  then show ?thesis using assms(2) by auto
qed

lemma bucket_index_mono:
  assumes "range_ok minv maxv" and "0 < B" and "B \<le> 256" and "v \<le> v'"
    and "bucket_index B (Fin v) minv maxv = Inr t" and "bucket_index B (Fin v') minv maxv = Inr t'"
  shows "t \<le> t'"
proof (cases "fp_eq maxv minv")
  case True
  then show ?thesis using assms(5,6) by (simp add: bucket_index_def)
next
  case False
  obtain y :: "rat \<Rightarrow> rat" where y: "mono y" "\<And>v. bucket_index B (Fin v) minv maxv = Inr (min (B - 1) (nat \<lfloor>y v\<rfloor>))"
    using bucket_index_chain [OF assms(1) False assms(2,3)] by blast
  have "nat \<lfloor>y v\<rfloor> \<le> nat \<lfloor>y v'\<rfloor>" using monoD [OF y(1) assms(4)] by (intro nat_mono floor_mono)
  then show ?thesis using assms(5,6) by (auto simp: y(2) min_def split: if_splits)
qed

section \<open>Every vector has a cell\<close>

text \<open>
  The configuration under which the class runs: bucket codes fit their byte, the stored ranges are
  usable, and the projection yields finite coordinates (what Eigen returns on finite data).
\<close>

definition inputs_ok :: "('v \<Rightarrow> fp list) \<Rightarrow> pca_utils \<Rightarrow> bool" where
  "inputs_ok project s \<longleftrightarrow> pca_config_ok s \<and> 0 < buckets_per_dim s \<and>
     (\<forall>i < pca_dim s. range_ok (pca_min s ! i) (pca_max s ! i)) \<and>
     (\<forall>v. \<forall>i < pca_dim s. \<exists>r. project v ! i = Fin r)"

lemma compute_region_key_total:
  assumes "inputs_ok project s"
  obtains key where "compute_region_key project s v = Inr key" and "in_l1_ball s key key"
    and "key_wf key" and "key_size key = pca_dim s"
proof -
  have B: "0 < buckets_per_dim s" "buckets_per_dim s \<le> 256" and dim: "pca_dim s \<le> key_cap"
    using assms by (simp_all add: inputs_ok_def pca_config_ok_def)
  have idx: "\<exists>t. bucket_index (buckets_per_dim s) (project v ! i) (pca_min s ! i) (pca_max s ! i) = Inr t \<and>
      t < buckets_per_dim s" if i: "i < pca_dim s" for i
  proof -
    obtain r where "project v ! i = Fin r" "range_ok (pca_min s ! i) (pca_max s ! i)"
      using assms i unfolding inputs_ok_def by blast
    with bucket_index_total [OF _ B] show ?thesis by simp
  qed
  then have "returns (compute_region_key project s v)"
    unfolding compute_region_key_def Let_def
    by (intro fill_key_total) (auto simp: returns_def)
  then obtain key where key: "compute_region_key project s v = Inr key" by (auto simp: returns_def)
  note wf = compute_region_key_Inr [OF key dim]
  have "unat (key_get key j) < buckets_per_dim s" if j: "j < pca_dim s" for j
  proof -
    obtain t where "key_get key j = of_nat t" "t < buckets_per_dim s"
      using wf(3) [OF j] idx [OF j] by auto
    then show ?thesis using B(2) by (simp add: unat_of_nat)
  qed
  then have "in_l1_ball s key key" using wf(1,2) by (simp add: in_l1_ball_def key_l1_def)
  with key wf(1,2) show ?thesis by (intro that)
qed

section \<open>Thresholds stay non-negative\<close>

text \<open>A threshold that is not a negative number, and belongs to \<open>double\<close>.\<close>

fun theta_ok :: "fp \<Rightarrow> bool" where
  "theta_ok (Fin r) \<longleftrightarrow> 0 \<le> r \<and> fp_val binary64 (Fin r)"
| "theta_ok _ \<longleftrightarrow> True"

definition thetas_ok :: "pca_utils \<Rightarrow> bool" where
  "thetas_ok s \<longleftrightarrow> (\<forall>ce \<in> set (region_theta_map s). \<forall>kt \<in> set (snd ce). theta_ok (snd kt))"

lemma thetas_okD: "thetas_ok s \<Longrightarrow> map_of (region_theta_map s) c = Some e \<Longrightarrow> map_of e k = Some th \<Longrightarrow> theta_ok th"
  unfolding thetas_ok_def by (metis map_of_SomeD snd_conv)

lemma theta_ok_fround: "0 \<le> x \<Longrightarrow> theta_ok (fround binary64 x)"
  using f64.fround_nonneg [of x] f64.fp_val_fround [of x] by (cases "fround binary64 x") auto

lemma theta_ok_mul: "theta_ok x \<Longrightarrow> theta_ok y \<Longrightarrow> theta_ok (fp_mul binary64 x y)"
  by (cases x; cases y) (auto simp: signed_inf_def intro!: theta_ok_fround)

lemma theta_ok_add: "theta_ok x \<Longrightarrow> theta_ok y \<Longrightarrow> theta_ok (fp_add binary64 x y)"
  by (cases x; cases y) (auto intro!: theta_ok_fround)

lemma fp_mul_shrinks:
  assumes "theta_ok th" and "fp_lt (Fin 0) alpha" and "fp_lt alpha (Fin 1)"
  shows "fp_mul binary64 th alpha \<le> th"
proof -
  obtain a where a: "alpha = Fin a" "0 < a" "a < 1" using assms(2,3) by (cases alpha) (auto simp: fp_lt_def less_fp_def)
  show ?thesis
  proof (cases th)
    case (Fin r)
    then have "r * a \<le> r" using assms(1) a mult_left_le [of a r] by simp
    then show ?thesis using assms(1) Fin a(1) by (simp add: f64.fround_le_val)
  qed (simp_all add: a signed_inf_def)
qed

lemma set_um_put: "set (um_put k v m) \<subseteq> insert (k, v) (set m)"
  by (induction m) auto

lemma set_um_erase: "set (um_erase k m) \<subseteq> set m"
  by (auto simp: AList.delete_eq)

definition entry_ok :: "theta_entry \<Rightarrow> bool" where
  "entry_ok e \<longleftrightarrow> (\<forall>kt \<in> set e. theta_ok (snd kt))"

lemma entry_ok_put: "entry_ok e \<Longrightarrow> theta_ok th \<Longrightarrow> entry_ok (um_put k th e)"
  using set_um_put [of k th e] by (auto simp: entry_ok_def)

lemma thetas_ok_put:
  "thetas_ok s \<Longrightarrow> entry_ok e \<Longrightarrow> thetas_ok (s\<lparr>region_theta_map := um_put c e (region_theta_map s)\<rparr>)"
  using set_um_put [of c e "region_theta_map s"] by (fastforce simp: thetas_ok_def entry_ok_def)

lemma thetas_ok_entry: "thetas_ok s \<Longrightarrow> map_of (region_theta_map s) c = Some e \<Longrightarrow> entry_ok e"
  unfolding thetas_ok_def entry_ok_def by (metis map_of_SomeD snd_conv)

lemma thetas_ok_frame [simp]:
  "thetas_ok (s\<lparr>region_discount_map := d\<rparr>) = thetas_ok s"
  "thetas_ok (s\<lparr>region_insertion_order := q\<rparr>) = thetas_ok s"
  by (simp_all add: thetas_ok_def)

lemma theta_ok_uninitialized [simp]: "theta_ok (uninitialized_theta m)"
proof -
  have "fround binary64 (of_int (2 ^ 53 - 1) * 2 powi 971) = Fin (of_int (2 ^ 53 - 1) * 2 powi 971)"
    by (rule f64.fround_exact) (simp_all add: binary64_def)
  then show ?thesis by (simp add: uninitialized_theta_def fp_max_def binary64_def)
qed

lemma theta_ok_zero [simp]: "theta_ok (Fin 0)"
  by simp

lemma entry_ok_reset: "entry_ok e \<Longrightarrow> entry_ok (reset_theta_entry m e)"
  by (simp add: reset_theta_entry_def Let_def entry_ok_put)

lemma entry_ok_tighten: "entry_ok e \<Longrightarrow> theta_ok alpha \<Longrightarrow> entry_ok (tighten_entry m alpha e)"
  by (auto simp: entry_ok_def tighten_entry_def intro!: theta_ok_mul)

lemma thetas_ok_lazy_init:
  assumes "thetas_ok s"
  shows "thetas_ok (lazy_init_region key s)"
proof -
  have fresh: "entry_ok (reset_theta_entry m [])" for m
    by (intro entry_ok_reset) (simp add: entry_ok_def)
  have grow: "thetas_ok (s'\<lparr>region_theta_map := um_put key (reset_theta_entry m []) (region_theta_map s'),
      region_insertion_order := q\<rparr>)" if "thetas_ok s'" for s' m q
    using thetas_ok_put [OF that fresh] by (simp add: thetas_ok_def)
  have erase: "thetas_ok (s\<lparr>region_insertion_order := q, region_theta_map := um_erase old (region_theta_map s),
      region_discount_map := d\<rparr>)" for old q d
    using assms set_um_erase [of old "region_theta_map s"] unfolding thetas_ok_def by auto
  show ?thesis
    unfolding lazy_init_region_def Let_def
    by (simp only: assms erase grow split: if_split) simp
qed

lemma thetas_ok_theta_at:
  assumes "thetas_ok s"
  shows "thetas_ok (snd (theta_at region k s))"
  using assms thetas_ok_entry [OF assms]
  by (auto simp: theta_at_def um_at_def Let_def split: option.splits
      intro!: thetas_ok_put entry_ok_put) (simp_all add: entry_ok_def)

lemma thetas_ok_put_theta:
  assumes "thetas_ok s" and "theta_ok th"
  shows "thetas_ok (put_theta region k th s)"
  using assms thetas_ok_entry [OF assms(1)]
  by (auto simp: put_theta_def um_at_def Let_def split: option.splits
      intro!: thetas_ok_put entry_ok_put) (simp_all add: entry_ok_def)

lemma theta_ok_cell_theta: "thetas_ok s \<Longrightarrow> theta_ok (cell_theta s region k)"
  by (auto simp: cell_theta_def fresh_theta_def dest: thetas_okD split: option.splits)

lemma thetas_ok_tighten_list:
  "thetas_ok (snd st) \<Longrightarrow> theta_ok alpha \<Longrightarrow> thetas_ok (snd (tighten_list alpha ks st))"
proof (induction ks arbitrary: st)
  case (Cons k ks)
  have "thetas_ok (snd (tighten_one_region_locked k alpha s))" if "thetas_ok s" for s
    using that Cons.prems(2)
    by (cases rule: tighten_one_cases [of alpha s k])
      (auto intro!: thetas_ok_put entry_ok_tighten dest: thetas_ok_entry)
  with Cons show ?case by (cases st) simp
qed simp

section \<open>Runs of the operations\<close>

datatype 'v pca_op =
    Read_cell 'v nat "fp list" nat fp
  | Learn 'v nat fp fp
  | Write_vec "'v option" fp
  | Invalidate "'v option"

datatype pca_reply = Hit bool | Tightened nat | Done

fun pca_do :: "('v \<Rightarrow> fp list) \<Rightarrow> 'v pca_op \<Rightarrow> pca_utils \<Rightarrow> (pca_reply \<times> pca_utils) result" where
  "pca_do project (Read_cell q K ds nv dev) s =
     rbind (pca_isHit project q K (Some ds) nv dev s) (\<lambda>(b, s'). Inr (Hit b, s'))"
| "pca_do project (Learn q K d p) s = rbind (pca_update_theta project q K d p s) (\<lambda>s'. Inr (Done, s'))"
| "pca_do project (Write_vec v alpha) s =
     rbind (tighten_theta_for_vector project v alpha s) (\<lambda>(n, s'). Inr (Tightened n, s'))"
| "pca_do project (Invalidate v) s = rbind (invalidate_theta project v s) (\<lambda>s'. Inr (Done, s'))"

fun pca_run :: "('v \<Rightarrow> fp list) \<Rightarrow> 'v pca_op list \<Rightarrow> pca_utils \<Rightarrow> (pca_reply list \<times> pca_utils) result" where
  "pca_run project [] s = Inr ([], s)"
| "pca_run project (op # ops) s =
     rbind (pca_do project op s) (\<lambda>(r, s'). rbind (pca_run project ops s') (\<lambda>(rs, s''). Inr (r # rs, s'')))"

text \<open>
  What the caller must respect: the distance array is as long as announced, distances are
  non-negative, and the weights \<open>p\<close> and \<open>1 - p\<close> and the discount are non-negative.
\<close>

fun pca_op_ok :: "'v pca_op \<Rightarrow> bool" where
  "pca_op_ok (Read_cell q K ds nv dev) \<longleftrightarrow> nv < K \<or> K \<le> length ds"
| "pca_op_ok (Learn q K d p) \<longleftrightarrow> theta_ok d \<and> theta_ok p \<and> theta_ok (fp_sub binary64 (Fin 1) p)"
| "pca_op_ok (Write_vec v alpha) \<longleftrightarrow> theta_ok alpha"
| "pca_op_ok (Invalidate v) \<longleftrightarrow> True"

text \<open>The configuration is never changed by an operation.\<close>

definition same_config :: "pca_utils \<Rightarrow> pca_utils \<Rightarrow> bool" where
  "same_config s s' \<longleftrightarrow>
     pca_metric s' = pca_metric s \<and> pca_dim s' = pca_dim s \<and> buckets_per_dim s' = buckets_per_dim s \<and>
     max_regions s' = max_regions s \<and> write_l1_radius s' = write_l1_radius s \<and>
     pca_min s' = pca_min s \<and> pca_max s' = pca_max s"

lemma same_config_radius: "same_config s s' \<Longrightarrow> radius_fits s' = radius_fits s"
  by (simp add: same_config_def radius_fits_def)

lemma same_config_inputs: "same_config s s' \<Longrightarrow> inputs_ok project s' = inputs_ok project s"
  by (simp add: same_config_def inputs_ok_def pca_config_ok_def)

lemma same_config_key: "same_config s s' \<Longrightarrow> compute_region_key project s' v = compute_region_key project s v"
  by (simp add: same_config_def compute_region_key_def)

lemma same_config_refl [simp]: "same_config s s"
  by (simp add: same_config_def)

lemma same_config_trans: "same_config s s' \<Longrightarrow> same_config s' s'' \<Longrightarrow> same_config s s''"
  by (simp add: same_config_def)

lemma same_config_steps:
  "same_config s (lazy_init_region key s)"
  "same_config s (snd (theta_at region k s))"
  "same_config (snd st) (snd (tighten_list alpha ks st))"
  "same_config s (put_theta region k th s)"
  by (simp_all add: same_config_def region_frame put_theta_def split_beta)

definition pca_sound :: "('v \<Rightarrow> fp list) \<Rightarrow> pca_utils \<Rightarrow> bool" where
  "pca_sound project s \<longleftrightarrow> inputs_ok project s \<and> region_inv s \<and> thetas_ok s"

text \<open>What the cache asks of a configuration that also takes writes.\<close>

definition writes_ok :: "('v \<Rightarrow> fp list) \<Rightarrow> pca_utils \<Rightarrow> bool" where
  "writes_ok project s \<longleftrightarrow> inputs_ok project s \<and> radius_fits s"

lemma writes_okD: "writes_ok project s \<Longrightarrow> inputs_ok project s" "writes_ok project s \<Longrightarrow> radius_fits s"
  by (simp_all add: writes_ok_def)

lemma same_config_writes: "same_config s s' \<Longrightarrow> writes_ok project s' = writes_ok project s"
  by (simp add: writes_ok_def same_config_inputs same_config_radius)

lemma pca_isHit_total:
  assumes "inputs_ok project s" and "nv < K \<or> K \<le> length ds"
  shows "\<exists>b s'. pca_isHit project q K (Some ds) nv dev s = Inr (b, s')"
proof (cases "nv < K \<or> K = 0")
  case True
  then show ?thesis by (auto simp: pca_isHit_def)
next
  case False
  obtain region where "compute_region_key project s q = Inr region"
    using compute_region_key_total [OF assms(1)] by blast
  with False assms(2) pca_isHit_eq [of project s q region K nv ds dev] show ?thesis by simp
qed

lemma pca_do_read:
  assumes "pca_sound project s" and "nv < K \<or> K \<le> length ds"
  shows "\<exists>b s'. pca_isHit project q K (Some ds) nv dev s = Inr (b, s') \<and> pca_sound project s' \<and> same_config s s'"
proof -
  have ok: "inputs_ok project s" "region_inv s" "thetas_ok s" "pca_dim s \<le> key_cap"
    using assms(1) by (simp_all add: pca_sound_def inputs_ok_def pca_config_ok_def)
  obtain b s' where hit: "pca_isHit project q K (Some ds) nv dev s = Inr (b, s')"
    using pca_isHit_total [OF ok(1) assms(2)] by blast
  from hit have "thetas_ok s' \<and> same_config s s'"
  proof (cases rule: pca_isHit_states)
    case (2 region)
    then show ?thesis
      using ok(3) by (auto intro!: thetas_ok_theta_at thetas_ok_lazy_init
          intro: same_config_trans [OF same_config_steps(1) same_config_steps(2)])
  qed (simp add: ok)
  with hit region_inv_isHit [OF ok(2,4) hit] ok(1) show ?thesis
    by (auto simp: pca_sound_def same_config_inputs)
qed

lemma pca_update_theta_eq:
  assumes "compute_region_key project s q = Inr region"
  shows "pca_update_theta project q K d p s =
    (let th = cell_theta s region K;
         s2 = put_theta region K (if is_uninitialized_theta (pca_metric s) th then d else ema p d th)
                (snd (theta_at region K (lazy_init_region region s)))
     in Inr (s2\<lparr>region_discount_map := um_put region (Fin 1) (region_discount_map s2)\<rparr>))"
  using assms by (simp add: pca_update_theta_def split_beta Let_def theta_at_value)

lemma pca_do_learn:
  assumes "pca_sound project s" and "theta_ok d" and "theta_ok p" and "theta_ok (fp_sub binary64 (Fin 1) p)"
  shows "\<exists>s'. pca_update_theta project q K d p s = Inr s' \<and> pca_sound project s' \<and> same_config s s'"
proof -
  have ok: "inputs_ok project s" "region_inv s" "thetas_ok s" "pca_dim s \<le> key_cap"
    using assms(1) by (simp_all add: pca_sound_def inputs_ok_def pca_config_ok_def)
  obtain region where region: "compute_region_key project s q = Inr region"
    using compute_region_key_total [OF ok(1)] by blast
  let ?s1 = "snd (theta_at region K (lazy_init_region region s))"
  define th where "th = (if is_uninitialized_theta (pca_metric s) (cell_theta s region K) then d
    else ema p d (cell_theta s region K))"
  let ?s2 = "put_theta region K th ?s1"
  have "theta_ok th"
    unfolding th_def ema_def by (simp add: assms(2-4) theta_ok_cell_theta [OF ok(3)] theta_ok_add theta_ok_mul)
  then have "thetas_ok ?s2" by (intro thetas_ok_put_theta thetas_ok_theta_at thetas_ok_lazy_init ok(3))
  moreover have "same_config s ?s2"
    by (rule same_config_trans [OF same_config_trans [OF same_config_steps(1) same_config_steps(2)] same_config_steps(4)])
  moreover define s' where "s' = ?s2\<lparr>region_discount_map := um_put region (Fin 1) (region_discount_map ?s2)\<rparr>"
  ultimately have "thetas_ok s'" "same_config s s'" by (simp_all add: same_config_def)
  moreover have run: "pca_update_theta project q K d p s = Inr s'"
    unfolding pca_update_theta_eq [OF region] Let_def th_def [symmetric] s'_def by (rule refl)
  ultimately show ?thesis using region_inv_update_theta [OF ok(2,4) run] ok(1)
    by (auto simp: pca_sound_def same_config_inputs)
qed

lemma tighten_total:
  assumes "inputs_ok project s" and "radius_fits s" and "region_inv s"
  obtains n s' where "tighten_theta_for_vector project vec alpha s = Inr (n, s')" and "region_inv s'" and "same_config s s'"
    and "s' = s \<or> (\<exists>keys. s' = snd (tighten_list alpha keys (0, s)))"
proof (cases "vec = None \<or> fp_le (Fin 1) alpha \<or> fp_le alpha (Fin 0)")
  case True
  then show ?thesis
    using assms(3) by (intro that [of 0 s]) (auto simp: tighten_theta_for_vector_def split: option.splits)
next
  case False
  then obtain v where v: "vec = Some v" and guard: "\<not> (fp_le (Fin 1) alpha \<or> fp_le alpha (Fin 0))" by auto
  obtain key where key: "compute_region_key project s v = Inr key"
    using compute_region_key_total [OF assms(1)] by blast
  obtain n s' where s': "tighten_list alpha (write_ball s key) (0, s) = (n, s')" by fastforce
  have run: "tighten_theta_for_vector project vec alpha s = Inr (n, s')"
    using tighten_theta_for_vector_cases [OF key guard] write_safe_radius [OF assms(2)] by (simp add: v s')
  have "same_config s s'" using same_config_steps(3) [of "(0, s)" alpha "write_ball s key"] by (simp add: s')
  moreover have "s' = snd (tighten_list alpha (write_ball s key) (0, s))" by (simp add: s')
  ultimately show ?thesis
    using region_inv_tighten [OF assms(3) run] by (intro that [OF run]) blast+
qed

lemma write_keeps_sound:
  assumes "pca_sound project s" and "theta_ok alpha" and "tighten_theta_for_vector project vec alpha s = Inr (n, s')"
  shows "pca_sound project s' \<and> same_config s s'"
proof -
  have ok: "inputs_ok project s" "region_inv s" "thetas_ok s" using assms(1) by (simp_all add: pca_sound_def)
  have inv: "region_inv s'" by (rule region_inv_tighten [OF ok(2) assms(3)])
  show ?thesis
    using assms(3)
  proof (cases rule: tighten_theta_for_vector_Inr)
    case 1
    then show ?thesis using assms(1) by simp
  next
    case (2 v key)
    have "thetas_ok s'" "same_config s s'"
      using thetas_ok_tighten_list [of "(0, s)" alpha "write_ball s key"] ok(3) assms(2)
        same_config_steps(3) [of "(0, s)" alpha "write_ball s key"] 2(5) by simp_all
    then show ?thesis using inv ok(1) by (simp add: pca_sound_def same_config_inputs)
  qed
qed

lemma pca_do_write:
  assumes "pca_sound project s" and "radius_fits s" and "theta_ok alpha"
  shows "\<exists>n s'. tighten_theta_for_vector project vec alpha s = Inr (n, s') \<and> pca_sound project s' \<and> same_config s s'"
proof -
  have ok: "inputs_ok project s" "region_inv s" using assms(1) by (simp_all add: pca_sound_def)
  obtain n s' where s': "tighten_theta_for_vector project vec alpha s = Inr (n, s')"
    by (rule tighten_total [OF ok(1) assms(2) ok(2)])
  then show ?thesis using write_keeps_sound [OF assms(1,3) s'] by blast
qed

lemma pca_do_invalidate:
  assumes "pca_sound project s"
  shows "\<exists>s'. invalidate_theta project vec s = Inr s' \<and> pca_sound project s' \<and> same_config s s'"
proof -
  have ok: "inputs_ok project s" "region_inv s" "thetas_ok s"
    using assms by (simp_all add: pca_sound_def)
  obtain s' where run: "invalidate_theta project vec s = Inr s'"
    and s': "s' = s \<or> (\<exists>k e d. map_of (region_theta_map s) k = Some e \<and> s' =
      s\<lparr>region_theta_map := um_put k (reset_theta_entry (pca_metric s) e) (region_theta_map s),
        region_discount_map := um_put k d (region_discount_map s)\<rparr>)"
  proof (cases vec)
    case None
    then show ?thesis by (intro that [of s]) (simp_all add: invalidate_theta_def)
  next
    case (Some v)
    obtain key where key: "compute_region_key project s v = Inr key"
      using compute_region_key_total [OF ok(1)] by blast
    then show ?thesis
      using Some by (cases "map_of (region_theta_map s) key") (auto simp: invalidate_theta_def intro!: that)
  qed
  from s' have "thetas_ok s'" "same_config s s'"
    using ok(3) by (auto simp: same_config_def intro!: thetas_ok_put entry_ok_reset dest: thetas_ok_entry)
  with run region_inv_invalidate [OF ok(2) run] ok(1) show ?thesis
    by (auto simp: pca_sound_def same_config_inputs)
qed

lemma pca_do_total:
  assumes "pca_sound project s" and fits: "radius_fits s" and "pca_op_ok op"
  shows "\<exists>r s'. pca_do project op s = Inr (r, s') \<and> pca_sound project s' \<and> same_config s s'"
proof (cases op)
  case (Read_cell q K ds nv dev)
  then obtain b s' where "pca_isHit project q K (Some ds) nv dev s = Inr (b, s')" "pca_sound project s'" "same_config s s'"
    using pca_do_read [OF assms(1), of nv K ds q dev] assms(3) by auto
  then show ?thesis by (simp add: Read_cell)
next
  case (Learn q K d p)
  then obtain s' where "pca_update_theta project q K d p s = Inr s'" "pca_sound project s'" "same_config s s'"
    using pca_do_learn [OF assms(1), of d p q K] assms(3) by auto
  then show ?thesis by (simp add: Learn)
next
  case (Write_vec v alpha)
  then obtain n s' where "tighten_theta_for_vector project v alpha s = Inr (n, s')" "pca_sound project s'" "same_config s s'"
    using pca_do_write [OF assms(1) fits, of alpha v] assms(3) by auto
  then show ?thesis by (simp add: Write_vec)
next
  case (Invalidate v)
  obtain s' where "invalidate_theta project v s = Inr s'" "pca_sound project s'" "same_config s s'"
    using pca_do_invalidate [OF assms(1), of v] by blast
  then show ?thesis by (simp add: Invalidate)
qed

lemma pca_run_total:
  assumes "pca_sound project s" and "radius_fits s" and "list_all pca_op_ok ops"
  shows "\<exists>rs s'. pca_run project ops s = Inr (rs, s') \<and> pca_sound project s' \<and> same_config s s'"
  using assms
proof (induction ops arbitrary: s)
  case (Cons op ops)
  then obtain r s1 where s1: "pca_do project op s = Inr (r, s1)" "pca_sound project s1" "same_config s s1"
    using pca_do_total [of project s op] by auto
  moreover have "radius_fits s1" using Cons.prems(2) s1(3) by (simp add: same_config_radius)
  ultimately obtain rs s' where "pca_run project ops s1 = Inr (rs, s')" "pca_sound project s'" "same_config s1 s'"
    using Cons.IH [of s1] Cons.prems(3) by auto
  with s1 show ?case by (auto intro: same_config_trans)
qed simp

section \<open>A concrete instance\<close>

text \<open>
  One PCA dimension with range \<open>0..16\<close> and 16 buckets; vectors are their own projection. The
  witnesses below evaluate the operations on it.
\<close>

definition demo_project :: "rat \<Rightarrow> fp list" where
  "demo_project v = [Fin v]"

definition demo_pca :: "metric \<Rightarrow> (region_key \<times> theta_entry) list \<Rightarrow> pca_utils" where
  "demo_pca m cells = \<lparr>pca_dim = 1, buckets_per_dim = 16, pca_metric = m,
     region_theta_map = cells, region_discount_map = [], region_insertion_order = map fst cells,
     max_regions = 2, write_l1_radius = 1, pca_min = [Fin 0], pca_max = [Fin 16]\<rparr>"

lemma demo_pca_fields [simp]:
  "region_theta_map (demo_pca m cells) = cells" "pca_metric (demo_pca m cells) = m"
  "region_discount_map (demo_pca m cells) = []" "max_regions (demo_pca m cells) = 2"
  by (simp_all add: demo_pca_def)

definition demo_key :: "u8 \<Rightarrow> region_key" where
  "demo_key b = key_set (key_new 1) 0 b"

lemma demo_key_wf: "key_wf (demo_key b) \<and> key_size (demo_key b) = 1 \<and> key_get (demo_key b) 0 = b"
  using key_wf_new [of 1] by (simp add: demo_key_def key_wf_set key_get_set key_cap_def)

lemma demo_range: "range_ok (Fin 0) (Fin 16)"
  by (simp add: range_ok_def fp_sub_def)

lemma demo_inputs: "inputs_ok demo_project (demo_pca m cells)"
  using demo_range
  by (simp add: inputs_ok_def pca_config_ok_def demo_pca_def demo_project_def key_cap_def)

lemma demo_fits: "radius_fits (demo_pca m cells)"
  by (simp add: radius_fits_def demo_pca_def)

lemma demo_inv:
  assumes "map fst cells = map demo_key bs" and "distinct bs" and "length bs \<le> 2"
  shows "region_inv (demo_pca m cells)"
proof -
  have "inj demo_key" by (rule injI) (metis demo_key_wf)
  then have "distinct (map demo_key bs)" using assms(2) by (simp add: distinct_map inj_on_def inj_def)
  moreover have "length cells = length bs" using arg_cong [OF assms(1), of length] by simp
  moreover have "\<forall>k \<in> set (map demo_key bs). key_wf k \<and> key_size k = 1" using demo_key_wf by simp
  ultimately show ?thesis using assms(3) by (simp add: region_inv_def demo_pca_def assms(1) del: set_map)
qed

lemma demo_bucket:
  assumes "n < 16"
  shows "bucket_index 16 (Fin (of_nat n)) (Fin 0) (Fin 16) = Inr n"
proof -
  have n: "\<bar>int n\<bar> < 2 ^ 24" using assms by simp
  have sub: "fround binary32 (of_nat n) = Fin (of_nat n)"
    using fround32_dyadic [OF n, of 0] by simp
  moreover have "fround binary32 (of_nat n / 16) = Fin (of_nat n / 16)"
    using fround32_dyadic [OF n, of 4] by simp
  moreover have "(of_nat n :: rat) / 16 \<le> 1" using assms by simp
  moreover have "(of_nat n :: rat) < 2 ^ 64" using assms by simp
  ultimately show ?thesis
    using assms by (simp add: bucket_index_def fp_sub_def fp_eq_def clamp01_def fp_lt_def
        less_fp_def fp_of_nat_def size_pred_def)
qed

lemma demo_key_of:
  assumes "n < 16"
  shows "compute_region_key demo_project (demo_pca m cells) (of_nat n) = Inr (demo_key (of_nat n))"
  using demo_bucket [OF assms]
  by (simp add: compute_region_key_def demo_project_def demo_pca_def demo_key_def)

lemma demo_sound:
  assumes "map fst cells = map demo_key bs" and "distinct bs" and "length bs \<le> 2"
    and "\<forall>ce \<in> set cells. \<forall>kt \<in> set (snd ce). theta_ok (snd kt)"
  shows "pca_sound demo_project (demo_pca m cells)"
proof -
  have "thetas_ok (demo_pca m cells)" using assms(4) by (simp add: thetas_ok_def demo_pca_def)
  then show ?thesis using demo_inputs demo_inv [OF assms(1-3)] by (simp add: pca_sound_def)
qed

lemma demo_ball:
  "in_l1_ball (demo_pca m cells) (demo_key a) (demo_key b) \<longleftrightarrow> unat b < 16 \<and> \<bar>uint b - uint a\<bar> \<le> 1"
  using demo_key_wf [of a] demo_key_wf [of b]
  by (auto simp: in_l1_ball_def key_l1_def demo_pca_def)

lemma small_theta_live:
  assumes "m \<noteq> COSINE" and "r < 2 ^ 53 - 1"
  shows "\<not> is_uninitialized_theta m (Fin r)"
proof -
  have "(1::rat) \<le> 2 powi 970" using powi2_mono [of 0 970] by simp
  then have "r < (2 ^ 53 - 1) * 2 powi 970"
    using assms(2) mult_left_mono [of 1 "2 powi 970 :: rat" "2 ^ 53 - 1"] by simp
  then show ?thesis using assms(1) by (simp add: is_uninitialized_theta_def half_max_double fp_le_def)
qed

section \<open>Properties\<close>

text \<open>C22: Safety of every run. On a sound configuration with a write radius of at most \<open>2 ^ 31 - 256\<close> no sequence of reads, relearnings, writes and
  invalidations runs into undefined behaviour; the region maps and the eviction queue stay consistent,
  at most \<open>max_regions\<close> cells are kept, and no threshold becomes negative.\<close>

theorem pca_runs_sound:
  assumes "pca_sound project s" and "radius_fits s" and "list_all pca_op_ok ops"
  shows "\<exists>rs s'. pca_run project ops s = Inr (rs, s') \<and> region_inv s' \<and> thetas_ok s' \<and>
    get_number_of_active_regions s' \<le> max 1 (max_regions s)"
proof -
  obtain rs s' where "pca_run project ops s = Inr (rs, s')" "pca_sound project s'" "same_config s s'"
    using pca_run_total [OF assms] by blast
  then show ?thesis
    by (auto simp: pca_sound_def get_number_of_active_regions_def same_config_def region_inv_def)
qed

theorem pca_runs_sound_witness:
  "\<exists>rs s'. pca_run demo_project
      [Read_cell 3 5 [Fin 1, Fin 2, Fin 3, Fin 4, Fin 5] 5 (Fin 0), Learn 3 5 (Fin 5) (Fin 1),
       Write_vec (Some 4) (Fin (1 / 2)), Invalidate (Some 3)] (demo_pca L2 []) = Inr (rs, s') \<and>
    region_inv s' \<and> thetas_ok s' \<and> get_number_of_active_regions s' \<le> 2"
proof -
  have sound: "pca_sound demo_project (demo_pca L2 [])"
    by (rule demo_sound [of _ "[]"]) simp_all
  have ops: "list_all pca_op_ok
      [Read_cell 3 5 [Fin 1, Fin 2, Fin 3, Fin 4, Fin 5] 5 (Fin 0), Learn (3::rat) 5 (Fin 5) (Fin 1),
       Write_vec (Some 4) (Fin (1 / 2)), Invalidate (Some 3)]"
    using fround64_dyadic [of 1 1] by (simp add: fp_sub_def)
  have "max 1 (max_regions (demo_pca L2 [])) = 2" by (simp add: demo_pca_def)
  from pca_runs_sound [OF sound demo_fits ops, unfolded this] show ?thesis .
qed

text \<open>C21: Write path. With a write radius of at most \<open>2 ^ 31 - 256\<close>, for which no \<open>int\<close> overflows on the walk
  over the ball, a write at a vector tightens, by the factor \<open>alpha\<close>, the live thresholds of exactly
  the known cells within L1 distance \<open>write_l1_radius\<close> of the vector's cell (inside the bucket grid) that
  are not already discounted as much; it records \<open>alpha\<close> as their penalty, leaves every other cell alone
  and returns the number of cells tightened.\<close>

theorem write_tightens_exactly_ball:
  assumes "inputs_ok project s" and "compute_region_key project s v = Inr key"
    and "fp_lt (Fin 0) alpha" and "fp_lt alpha (Fin 1)" and "radius_fits s"
  shows "\<exists>n s'. tighten_theta_for_vector project (Some v) alpha s = Inr (n, s') \<and>
    n = card {k. in_l1_ball s key k \<and> tightenable alpha s k} \<and>
    (\<forall>k. map_of (region_theta_map s') k =
       (if in_l1_ball s key k \<and> tightenable alpha s k
        then map_option (tighten_entry (pca_metric s) alpha) (map_of (region_theta_map s) k)
        else map_of (region_theta_map s) k)) \<and>
    (\<forall>k. map_of (region_discount_map s') k =
       (if in_l1_ball s key k \<and> tightenable alpha s k then Some alpha
        else map_of (region_discount_map s) k))"
proof -
  have config: "pca_config_ok s" "pca_dim s \<le> key_cap" using assms(1) by (simp_all add: inputs_ok_def pca_config_ok_def)
  have wf: "key_wf key" using compute_region_key_Inr(1) [OF assms(2) config(2)] .
  obtain n s' where s': "tighten_list alpha (write_ball s key) (0, s) = (n, s')" by fastforce
  note mem = write_ball_mem(1) [OF wf config(1)] and dist = write_ball_mem(2) [OF wf config(1)]
  have "n = length (filter (tightenable alpha s) (write_ball s key))"
    using tighten_list_count [OF dist, of alpha 0 s] by (simp add: s')
  also have "\<dots> = card (set (filter (tightenable alpha s) (write_ball s key)))"
    by (rule distinct_card [symmetric]) (rule distinct_filter [OF dist])
  also have "set (filter (tightenable alpha s) (write_ball s key)) = {k. in_l1_ball s key k \<and> tightenable alpha s k}"
    by (auto simp: mem)
  finally show ?thesis
    using tighten_theta_for_vector_eq [OF assms(2) write_safe_radius [OF assms(5)] assms(3,4)]
      tighten_list_theta [OF dist, of alpha 0 s] tighten_list_discount [OF dist, of alpha 0 s]
    by (simp add: s' mem)
qed

definition demo_cells :: "(region_key \<times> theta_entry) list" where
  "demo_cells = [(demo_key 3, [(5, Fin 8)]), (demo_key 6, [(5, Fin 8)])]"

lemma demo_tightenable:
  assumes "k = demo_key 3 \<or> k = demo_key 6"
  shows "map_of demo_cells k = Some [(5, Fin 8)]"
    and "tightenable (Fin (1 / 2)) (demo_pca L2 demo_cells) k"
proof -
  have "demo_key 6 \<noteq> demo_key 3" using demo_key_wf [of 6] demo_key_wf [of 3] by auto
  then show map: "map_of demo_cells k = Some [(5, Fin 8)]" using assms by (auto simp: demo_cells_def)
  then show "tightenable (Fin (1 / 2)) (demo_pca L2 demo_cells) k"
    by (simp add: tightenable_def demo_pca_def discount_of_def entry_has_live_theta_def small_theta_live fp_le_def)
qed

lemma demo_half: "fp_lt (Fin 0) (Fin (1 / 2))" "fp_lt (Fin (1 / 2)) (Fin 1)"
  by (simp_all add: fp_lt_def)

lemma demo_key_4: "compute_region_key demo_project (demo_pca L2 demo_cells) 4 = Inr (demo_key 4)"
  using demo_key_of [of 4] by simp

lemma demo_tight: "tighten_entry L2 (Fin (1 / 2)) [(5, Fin 8)] = [(5, Fin 4)]"
  by (simp add: tighten_entry_def small_theta_live)

lemma demo_written:
  "\<exists>n s'. tighten_theta_for_vector demo_project (Some 4) (Fin (1 / 2)) (demo_pca L2 demo_cells) = Inr (n, s') \<and>
    cell_theta s' (demo_key 3) 5 = Fin 4 \<and> same_config (demo_pca L2 demo_cells) s'"
proof -
  let ?s = "demo_pca L2 demo_cells" and ?a = "Fin (1 / 2)"
  have config: "pca_config_ok ?s" using demo_inputs [of L2 demo_cells] by (simp add: inputs_ok_def)
  obtain n s' where s': "tighten_list ?a (write_ball ?s (demo_key 4)) (0, ?s) = (n, s')" by fastforce
  have wf: "key_wf (demo_key 4)" using demo_key_wf by blast
  have mem: "demo_key 3 \<in> set (write_ball ?s (demo_key 4))"
    using write_ball_mem(1) [OF wf config] by (simp add: demo_ball)
  have "map_of (region_theta_map s') (demo_key 3) = Some [(5, Fin 4)]"
    using tighten_list_theta [OF write_ball_mem(2) [OF wf config], of ?a 0 ?s "demo_key 3"]
      demo_tightenable [of "demo_key 3"] mem demo_tight by (simp add: s')
  then have "cell_theta s' (demo_key 3) 5 = Fin 4" by (simp add: cell_theta_def)
  then show ?thesis
    using tighten_theta_for_vector_eq [OF demo_key_4 write_safe_radius [OF demo_fits] demo_half] s'
      same_config_steps(3) [of "(0, ?s)" ?a "write_ball ?s (demo_key 4)"] by auto
qed

theorem write_tightens_exactly_ball_witness:
  "\<exists>n s'. tighten_theta_for_vector demo_project (Some 4) (Fin (1 / 2)) (demo_pca L2 demo_cells) = Inr (n, s') \<and>
    map_of (region_theta_map s') (demo_key 3) = Some [(5, Fin 4)] \<and>
    map_of (region_theta_map s') (demo_key 6) = Some [(5, Fin 8)]"
proof -
  have key: "compute_region_key demo_project (demo_pca L2 demo_cells) 4 = Inr (demo_key 4)"
    using demo_key_of [of 4] by simp
  have tight: "tighten_entry L2 (Fin (1 / 2)) [(5, Fin 8)] = [(5, Fin 4)]"
    by (simp add: tighten_entry_def small_theta_live)
  show ?thesis
    using write_tightens_exactly_ball [OF demo_inputs key demo_half demo_fits]
      demo_tightenable [of "demo_key 3"] demo_tightenable [of "demo_key 6"] tight
    by (auto simp: demo_ball)
qed

text \<open>C25: Writes saturate. A second write at the same vector with the same discount changes nothing, so
  a burst of updates in one cell cannot drive its thresholds to zero.\<close>

theorem write_saturates:
  assumes "inputs_ok project s" and "compute_region_key project s v = Inr key"
    and "fp_lt (Fin 0) alpha" and "fp_lt alpha (Fin 1)"
    and "tighten_theta_for_vector project (Some v) alpha s = Inr (n, s')"
  shows "tighten_theta_for_vector project (Some v) alpha s' = Inr (0, s')"
proof -
  have config: "pca_config_ok s" "pca_dim s \<le> key_cap" using assms(1) by (simp_all add: inputs_ok_def pca_config_ok_def)
  have guard: "\<not> (fp_le (Fin 1) alpha \<or> fp_le alpha (Fin 0))" using assms(3,4) fp_le_not_lt by blast
  note run = tighten_theta_for_vector_cases [OF assms(2) guard]
  have s': "tighten_list alpha (write_ball s key) (0, s) = (n, s')" and safe: "write_safe s key"
    using run assms(5) by (simp_all split: if_splits)
  have same: "same_config s s'"
    using same_config_steps(3) [of "(0, s)" alpha "write_ball s key"] by (simp add: s')
  note dist = write_ball_mem(2) [OF compute_region_key_Inr(1) [OF assms(2) config(2)] config(1)]
  have idle: "\<not> tightenable alpha s' k" if "k \<in> set (write_ball s key)" for k
  proof (cases "tightenable alpha s k")
    case True
    then have "discount_of s' k = alpha"
      using tighten_list_discount [OF dist, of alpha 0 s k] that by (simp add: s' discount_of_def)
    then show ?thesis using assms(3) by (auto simp: tightenable_def fp_le_def fp_lt_def)
  next
    case False
    then have "map_of (region_theta_map s') k = map_of (region_theta_map s) k"
      "map_of (region_discount_map s') k = map_of (region_discount_map s) k"
      using tighten_list_theta [OF dist, of alpha 0 s k] tighten_list_discount [OF dist, of alpha 0 s k]
      by (simp_all add: s')
    moreover have "pca_metric s' = pca_metric s" using same by (simp add: same_config_def)
    ultimately have "tightenable alpha s' k = tightenable alpha s k"
      unfolding tightenable_def discount_of_def by (simp split: option.splits)
    with False show ?thesis by simp
  qed
  have "write_ball s' key = write_ball s key" "write_safe s' key"
    using same safe by (simp_all add: write_ball_def write_safe_def same_config_def)
  then show ?thesis
    using tighten_theta_for_vector_eq [of project s' v key, OF _ _ assms(3,4)] assms(2)
      same_config_key [OF same, of project v] tighten_list_skip [of "write_ball s key" alpha s' 0] idle by simp
qed



theorem write_saturates_witness:
  "\<exists>n s'. tighten_theta_for_vector demo_project (Some 4) (Fin (1 / 2)) (demo_pca L2 demo_cells) = Inr (n, s') \<and>
    tighten_theta_for_vector demo_project (Some 4) (Fin (1 / 2)) s' = Inr (0, s')"
proof -
  have key: "compute_region_key demo_project (demo_pca L2 demo_cells) 4 = Inr (demo_key 4)"
    using demo_key_of [of 4] by simp
  from tighten_theta_for_vector_eq [OF key write_safe_radius [OF demo_fits] demo_half]
  obtain n s' where "tighten_theta_for_vector demo_project (Some 4) (Fin (1 / 2)) (demo_pca L2 demo_cells) = Inr (n, s')"
    by (metis surj_pair)
  with write_saturates [OF demo_inputs key demo_half this] show ?thesis by blast
qed

subsection \<open>Reads\<close>

text \<open>A read leaves the thresholds every later read sees as they were, though it may create the cell.\<close>

lemma cell_theta_touch:
  "cell_theta (snd (theta_at region k (lazy_init_region region s))) region k' =
     (if k' = k then cell_theta s region k else cell_theta (lazy_init_region region s) region k')"
  by (auto simp: cell_theta_def theta_at_def um_at_def lazy_init_entry Let_def update_conv'
      fresh_theta_def map_of_reset_entry split: option.splits)

lemma cell_theta_put [simp]: "cell_theta (put_theta region k th s) region k = th"
  by (auto simp: cell_theta_def put_theta_def um_at_def Let_def update_conv' split: option.splits)

lemma cell_theta_frame [simp]: "cell_theta (s\<lparr>region_discount_map := d\<rparr>) region k = cell_theta s region k"
  by (simp add: cell_theta_def split: option.split)

lemma tolerance_factor:
  assumes "0 \<le> c" and "c \<le> 1"
  obtains e where "fp_add binary64 (Fin 1) (Fin c) = Fin e" and "1 \<le> e"
proof -
  have "Fin 1 \<le> fround binary64 (1 + c)" using assms(1) by (intro f64.fround_ge_val) simp_all
  moreover have "fround binary64 (1 + c) \<le> Fin 2" using assms(2) by (intro f64.fround_le_val) simp_all
  ultimately show ?thesis using that by (cases "fround binary64 (1 + c)") simp_all
qed

lemma within_tolerance_mono:
  assumes "0 \<le> c" and "c \<le> 1" and "theta_ok th" and "th \<le> th'"
    and "within_tolerance (Fin c) th x" and "th' \<noteq> NaN"
  shows "within_tolerance (Fin c) th' x"
proof -
  obtain e where e: "fp_add binary64 (Fin 1) (Fin c) = Fin e" "1 \<le> e" using tolerance_factor assms(1,2) .
  have "fp_mul binary64 (Fin e) th \<le> fp_mul binary64 (Fin e) th' \<and> fp_mul binary64 (Fin e) th' \<noteq> NaN"
    using e(2) assms(3,4,6) by (cases th; cases th') (auto simp: signed_inf_def mult_left_mono intro!: f64.fround_mono)
  then show ?thesis using assms(5) unfolding within_tolerance_def e(1) by (auto simp: fp_le_def)
qed

text \<open>C26: Relearning. A read that misses in a cell without a threshold, followed by \<open>update_theta\<close> with the
  distance \<open>d\<close> the backend reported, makes the next read in that cell a hit exactly when its K-th
  distance does not exceed the (rounded) tolerance on \<open>d\<close>; in particular an equally good answer hits.\<close>

theorem miss_teaches_cell:
  assumes "inputs_ok project s" and "0 < K" and "K \<le> nv" and "K \<le> length ds"
    and "compute_region_key project s q = Inr region"
    and "is_uninitialized_theta (pca_metric s) (cell_theta s region K)"
    and "\<not> is_uninitialized_theta (pca_metric s) (Fin d)" and "0 \<le> d" and "fp_val binary64 (Fin d)"
    and "0 \<le> c" and "c \<le> 1"
  shows "\<exists>s1 s2 s3 hit. pca_isHit project q K (Some ds) nv (Fin c) s = Inr (False, s1) \<and>
    pca_update_theta project q K (Fin d) p s1 = Inr s2 \<and>
    pca_isHit project q K (Some ds) nv (Fin c) s2 = Inr (hit, s3) \<and>
    (hit \<longleftrightarrow> within_tolerance (Fin c) (Fin d) (ds ! (K - 1))) \<and>
    (ds ! (K - 1) = Fin d \<longrightarrow> hit)"
proof -
  note len = assms(4)
  let ?s1 = "snd (theta_at region K (lazy_init_region region s))"
  have first: "pca_isHit project q K (Some ds) nv (Fin c) s = Inr (False, ?s1)"
    using pca_isHit_eq [OF assms(5,3,2) len, of "Fin c"] assms(6) by simp
  have same1: "same_config s ?s1"
    by (rule same_config_trans [OF same_config_steps(1) same_config_steps(2)])
  then have key1: "compute_region_key project ?s1 q = Inr region" using same_config_key assms(5) by metis
  have "is_uninitialized_theta (pca_metric ?s1) (cell_theta ?s1 region K)"
    using assms(6) same1 by (simp add: cell_theta_touch same_config_def)
  then obtain s2 where learn: "pca_update_theta project q K (Fin d) p ?s1 = Inr s2"
    and th2: "cell_theta s2 region K = Fin d" and same2: "same_config ?s1 s2"
  proof (intro that)
    let ?t = "put_theta region K (Fin d) (snd (theta_at region K (lazy_init_region region ?s1)))"
    assume un: "is_uninitialized_theta (pca_metric ?s1) (cell_theta ?s1 region K)"
    show "pca_update_theta project q K (Fin d) p ?s1 =
        Inr (?t\<lparr>region_discount_map := um_put region (Fin 1) (region_discount_map ?t)\<rparr>)"
      unfolding pca_update_theta_eq [OF key1] Let_def using un by simp
    show "cell_theta (?t\<lparr>region_discount_map := um_put region (Fin 1) (region_discount_map ?t)\<rparr>) region K = Fin d"
      by simp
    have "same_config ?s1 ?t"
      by (rule same_config_trans [OF same_config_trans [OF same_config_steps(1) same_config_steps(2)] same_config_steps(4)])
    then show "same_config ?s1 (?t\<lparr>region_discount_map := um_put region (Fin 1) (region_discount_map ?t)\<rparr>)"
      by (simp add: same_config_def)
  qed
  have key2: "compute_region_key project s2 q = Inr region"
    using same_config_key [OF same2] key1 by metis
  have m2: "pca_metric s2 = pca_metric s" using same1 same2 by (simp add: same_config_def)
  have second: "pca_isHit project q K (Some ds) nv (Fin c) s2 =
      Inr (within_tolerance (Fin c) (Fin d) (ds ! (K - 1)), snd (theta_at region K (lazy_init_region region s2)))"
    using pca_isHit_eq [OF key2 assms(3,2) len, of "Fin c"] assms(7) by (simp add: th2 m2)
  obtain e where e: "fp_add binary64 (Fin 1) (Fin c) = Fin e" "1 \<le> e"
    using tolerance_factor assms(10,11) .
  have "d \<le> e * d" using e(2) assms(8) mult_right_mono [of 1 e d] by simp
  then have "Fin d \<le> fround binary64 (e * d)" by (intro f64.fround_ge_val assms(9))
  then have "within_tolerance (Fin c) (Fin d) (Fin d)"
    unfolding within_tolerance_def e(1) by (simp add: fp_le_def)
  with first learn second show ?thesis by fastforce
qed

lemma fp_mul_NaN: "fp_mul F NaN x = NaN" "fp_mul F x NaN = NaN"
  by (cases x; simp)+

lemma map_of_tighten_entry:
  "map_of (tighten_entry m alpha e) k =
     map_option (\<lambda>th. if is_uninitialized_theta m th then th else fp_mul binary64 th alpha) (map_of e k)"
  by (simp add: tighten_entry_def map_of_map_snd)

lemma write_theta_step:
  assumes "inputs_ok project s" and "tighten_theta_for_vector project v alpha s = Inr (n, s')"
  shows "cell_theta s' region K = cell_theta s region K \<or>
    \<not> is_uninitialized_theta (pca_metric s) (cell_theta s region K) \<and>
    cell_theta s' region K = fp_mul binary64 (cell_theta s region K) alpha \<and>
    \<not> fp_le (Fin 1) alpha \<and> \<not> fp_le alpha (Fin 0)"
  using assms(2)
proof (cases rule: tighten_theta_for_vector_Inr)
  case 1
  then show ?thesis by simp
next
  case (2 w key)
  have config: "pca_config_ok s" "pca_dim s \<le> key_cap" using assms(1) by (simp_all add: inputs_ok_def pca_config_ok_def)
  note dist = write_ball_mem(2) [OF compute_region_key_Inr(1) [OF 2(3) config(2)] config(1)]
  from 2(5) have map: "map_of (region_theta_map s') region =
      (if region \<in> set (write_ball s key) \<and> tightenable alpha s region
       then map_option (tighten_entry (pca_metric s) alpha) (map_of (region_theta_map s) region)
       else map_of (region_theta_map s) region)"
    and m: "pca_metric s' = pca_metric s"
    using tighten_list_theta [OF dist, of alpha 0 s region] tighten_list_frame(3) [of alpha "write_ball s key" "(0, s)"]
    by simp_all
  show ?thesis
  proof (cases "map_of (region_theta_map s) region")
    case None
    then show ?thesis using map m by (simp add: cell_theta_def)
  next
    case (Some e)
    then show ?thesis
      using map 2(2) by (cases "map_of e K") (auto simp: cell_theta_def map_of_tighten_entry)
  qed
qed

theorem miss_teaches_cell_witness:
  "\<exists>s1 s2 s3. pca_isHit demo_project 3 1 (Some [Fin 5]) 1 (Fin 0) (demo_pca L2 []) = Inr (False, s1) \<and>
    pca_update_theta demo_project 3 1 (Fin 5) (Fin 1) s1 = Inr s2 \<and>
    pca_isHit demo_project 3 1 (Some [Fin 5]) 1 (Fin 0) s2 = Inr (True, s3)"
proof -
  have key: "compute_region_key demo_project (demo_pca L2 []) 3 = Inr (demo_key 3)"
    using demo_key_of [of 3] by simp
  have metric: "pca_metric (demo_pca L2 []) = L2" by (simp add: demo_pca_def)
  have "cell_theta (demo_pca L2 []) (demo_key 3) 1 = fp_max binary64"
    by (simp add: cell_theta_def demo_pca_def fresh_theta_def listed_K_def uninitialized_theta_def)
  moreover have "(2 ^ 53 - 1) * 2 powi 970 \<le> ((2 ^ 53 - 1) * 2 powi 971 :: rat)"
    using powi2_mono [of 970 971] by (intro mult_left_mono) simp_all
  then have "is_uninitialized_theta L2 (fp_max binary64)"
    by (simp add: is_uninitialized_theta_def half_max_double fp_le_def) (simp add: fp_max_def binary64_def)
  ultimately have un: "is_uninitialized_theta (pca_metric (demo_pca L2 [])) (cell_theta (demo_pca L2 []) (demo_key 3) 1)"
    by (simp add: metric)
  have live: "\<not> is_uninitialized_theta (pca_metric (demo_pca L2 [])) (Fin 5)"
    by (simp add: metric small_theta_live)
  show ?thesis
    using miss_teaches_cell [OF demo_inputs _ _ _ key un live, of 1 "[Fin 5]" 0 "Fin 1"] by auto
qed

text \<open>C23: Writes only make reads stricter. With non-negative thresholds, whatever a read accepts after a
  write it also accepted before: tightening never turns a miss into a hit.\<close>

theorem write_adds_no_hit:
  assumes "pca_sound project s" and "theta_ok alpha" and "0 \<le> c" and "c \<le> 1" and "K \<le> length ds"
    and "tighten_theta_for_vector project v alpha s = Inr (n, s')"
    and "pca_isHit project q K (Some ds) nv (Fin c) s' = Inr (True, t')"
  shows "\<exists>t. pca_isHit project q K (Some ds) nv (Fin c) s = Inr (True, t)"
proof -
  have guards: "0 < K" "K \<le> nv" using assms(7) by (auto simp: pca_isHit_def split: if_splits)
  note len = assms(5)
  have inputs: "inputs_ok project s" and ok: "thetas_ok s" using assms(1) by (simp_all add: pca_sound_def)
  have same: "same_config s s'" and ok': "thetas_ok s'"
    using write_keeps_sound [OF assms(1,2,6)] by (auto simp: pca_sound_def)
  obtain region where key: "compute_region_key project s q = Inr region"
    using compute_region_key_total [OF inputs] by blast
  then have key': "compute_region_key project s' q = Inr region" using same_config_key [OF same] by metis
  let ?th = "cell_theta s region K" and ?th' = "cell_theta s' region K"
  have m: "pca_metric s' = pca_metric s" using same by (simp add: same_config_def)
  have hit': "\<not> is_uninitialized_theta (pca_metric s) ?th'" "within_tolerance (Fin c) ?th' (ds ! (K - 1))"
    using assms(7) pca_isHit_eq [OF key' guards(2,1) len, of "Fin c"] by (simp_all add: m)
  have step: "?th' = ?th \<or> \<not> is_uninitialized_theta (pca_metric s) ?th \<and> ?th' = fp_mul binary64 ?th alpha \<and>
      \<not> fp_le (Fin 1) alpha \<and> \<not> fp_le alpha (Fin 0)"
    by (rule write_theta_step [OF inputs assms(6)])
  have nan: "?th' \<noteq> NaN" using hit'(2) fp_mul_NaN by (auto simp: within_tolerance_def fp_le_def)
  then have "?th \<noteq> NaN" and "?th' = ?th \<or> alpha \<noteq> NaN" using step fp_mul_NaN by auto
  moreover from this have "?th' \<le> ?th"
    using step fp_mul_shrinks [OF theta_ok_cell_theta [OF ok]] by (auto simp: fp_le_def fp_lt_def)
  ultimately have "within_tolerance (Fin c) ?th (ds ! (K - 1))"
    using within_tolerance_mono [OF assms(3,4) theta_ok_cell_theta [OF ok'] _ hit'(2)] by blast
  moreover have "\<not> is_uninitialized_theta (pca_metric s) ?th" using step hit'(1) by auto
  ultimately show ?thesis
    using pca_isHit_eq [OF key guards(2,1) len, of "Fin c"] by simp
qed

theorem write_adds_no_hit_witness:
  "\<exists>n s' t t'. tighten_theta_for_vector demo_project (Some 4) (Fin (1 / 2)) (demo_pca L2 demo_cells) = Inr (n, s') \<and>
    pca_isHit demo_project 3 5 (Some (replicate 5 (Fin 4))) 5 (Fin 0) s' = Inr (True, t') \<and>
    pca_isHit demo_project 3 5 (Some (replicate 5 (Fin 4))) 5 (Fin 0) (demo_pca L2 demo_cells) = Inr (True, t)"
proof -
  obtain n s' where wr: "tighten_theta_for_vector demo_project (Some 4) (Fin (1 / 2)) (demo_pca L2 demo_cells) = Inr (n, s')"
    and cell: "cell_theta s' (demo_key 3) 5 = Fin 4" and same: "same_config (demo_pca L2 demo_cells) s'"
    using demo_written by blast
  have key: "compute_region_key demo_project s' 3 = Inr (demo_key 3)"
    using demo_key_of [of 3] same_config_key [OF same, of demo_project 3] by simp
  have "pca_metric s' = L2" using same by (simp add: same_config_def demo_pca_def)
  then have hit: "pca_isHit demo_project 3 5 (Some (replicate 5 (Fin 4))) 5 (Fin 0) s' =
      Inr (True, snd (theta_at (demo_key 3) 5 (lazy_init_region (demo_key 3) s')))"
    using pca_isHit_eq [OF key, of 5 5 "replicate 5 (Fin 4)" "Fin 0"] cell
    by (simp add: small_theta_live within_tolerance_def fp_le_def)
  have "pca_sound demo_project (demo_pca L2 demo_cells)"
    by (rule demo_sound [of _ "[3, 6]"]) (simp_all add: demo_cells_def)
  moreover have "theta_ok (Fin (1 / 2))" using fround64_dyadic [of 1 1] by simp
  ultimately have "\<exists>t. pca_isHit demo_project 3 5 (Some (replicate 5 (Fin 4))) 5 (Fin 0) (demo_pca L2 demo_cells) = Inr (True, t)"
    using write_adds_no_hit [OF _ _ _ _ _ wr hit] by simp
  with wr hit show ?thesis by blast
qed

text \<open>C34: Bucketing. On a usable range the bucket code of a coordinate exists, lies inside the grid, and
  never decreases as the coordinate grows, so cells are intervals of the projected axis.\<close>

theorem bucket_codes_monotone:
  assumes "range_ok minv maxv" and "0 < B" and "B \<le> 256" and "v \<le> v'"
  shows "\<exists>t t'. bucket_index B (Fin v) minv maxv = Inr t \<and> bucket_index B (Fin v') minv maxv = Inr t' \<and>
    t \<le> t' \<and> t' < B"
  using bucket_index_total [OF assms(1-3)] bucket_index_mono [OF assms] by metis

theorem bucket_codes_monotone_witness:
  "\<exists>t t'. bucket_index 16 (Fin 3) (Fin 0) (Fin 16) = Inr t \<and> bucket_index 16 (Fin 40) (Fin 0) (Fin 16) = Inr t' \<and>
    t \<le> t' \<and> t' < 16"
  using bucket_codes_monotone [OF demo_range, of 16 3 40] by simp

text \<open>C37: Only \<open>K = 1, 5, 10, 100\<close> start as certain misses. For any other \<open>K\<close> the subscript creates a
  threshold of 0, which is not the uninitialised value: in a cell no query ever reached, an answer with
  K-th distance at most 0 is already a hit, whatever the cell's true threshold would be.\<close>

theorem unlisted_K_hits_unseen_cell:
  assumes "compute_region_key project s q = Inr region" and "map_of (region_theta_map s) region = None"
    and "\<not> listed_K K" and "0 < K" and "K \<le> nv" and "K \<le> length ds" and "pca_metric s \<noteq> COSINE"
    and "fp_le (ds ! (K - 1)) (Fin 0)" and "0 \<le> c" and "c \<le> 1"
  shows "\<exists>s'. pca_isHit project q K (Some ds) nv (Fin c) s = Inr (True, s')"
proof -
  obtain e where e: "fp_add binary64 (Fin 1) (Fin c) = Fin e" using tolerance_factor assms(9,10) .
  have "cell_theta s region K = Fin 0" using assms(2,3) by (simp add: cell_theta_def fresh_theta_def)
  moreover have "within_tolerance (Fin c) (Fin 0) (ds ! (K - 1))"
    using assms(8) unfolding within_tolerance_def e by simp
  ultimately show ?thesis
    using pca_isHit_eq [OF assms(1,5,4), of ds "Fin c"] assms(6,7) small_theta_live [of "pca_metric s" 0] by simp
qed

theorem unlisted_K_hits_unseen_cell_witness:
  "\<exists>s'. pca_isHit demo_project 3 2 (Some [Fin (- 7), Fin (- 5)]) 2 (Fin 0) (demo_pca INNER_PRODUCT []) = Inr (True, s')"
proof -
  have "compute_region_key demo_project (demo_pca INNER_PRODUCT []) 3 = Inr (demo_key 3)"
    using demo_key_of [of 3] by simp
  from unlisted_K_hits_unseen_cell [OF this, of 2 2 "[Fin (- 7), Fin (- 5)]" 0] show ?thesis
    by (simp add: listed_K_def fp_le_def)
qed

text \<open>C35: Reads are not atomic. \<open>isHit\<close> creates the cell under the lock, releases it, and looks the cell up
  under the lock again; when another thread's read evicts the cell in between, the lookup recreates it
  outside the eviction queue, and the map exceeds \<open>max_regions\<close> for good.\<close>

theorem interleaved_reads_leak_a_cell:
  assumes "region_inv s" and "max_regions s = 1" and "a \<noteq> b"
    and "set (map fst (region_theta_map s)) \<inter> {a, b} = {}"
    and "key_wf a" and "key_size a = pca_dim s" and "key_wf b" and "key_size b = pca_dim s"
  shows "let s' = snd (theta_at a K (lazy_init_region b (lazy_init_region a s)))
    in get_number_of_active_regions s' = 2 \<and> a \<notin> set (region_insertion_order s') \<and> \<not> region_inv s'"
proof -
  let ?sa = "lazy_init_region a s" and ?sb = "lazy_init_region b (lazy_init_region a s)"
  let ?s' = "snd (theta_at a K ?sb)"
  note ia = region_inv_lazy_init [OF assms(1,5,6)]
  have sizes: "pca_dim ?sa = pca_dim s" "max_regions ?sa = 1" "max_regions ?sb = 1"
    using assms(2) by (simp_all add: region_frame)
  have ib: "region_inv ?sb" "b \<in> set (map fst (region_theta_map ?sb))"
    using region_inv_lazy_init [OF ia(1) assms(7)] assms(8) sizes(1) by simp_all
  have one: "length (region_theta_map ?sb) = 1"
    using ib sizes(3) by (cases "region_theta_map ?sb") (auto simp: region_inv_def)
  then have keys: "map fst (region_theta_map ?sb) = [b]"
    using ib(2) by (cases "region_theta_map ?sb") auto
  have order: "region_insertion_order ?sb = [b]"
    using region_inv_length_order [OF ib(1)] one ib(1) keys
    by (cases "region_insertion_order ?sb") (auto simp: region_inv_def)
  have "a \<notin> set (map fst (region_theta_map ?sb))" using keys assms(3) by simp
  then have none: "map_of (region_theta_map ?sb) a = None" by (simp only: map_of_None_keys not_False_eq_True)
  then have "length (region_theta_map ?s') = 2"
    using one keys assms(3) by (simp add: theta_at_def um_at_def Let_def split_beta um_length_put update_keys)
  moreover have "region_insertion_order ?s' = [b]" using order by (simp add: region_frame)
  ultimately have "get_number_of_active_regions ?s' = 2 \<and> a \<notin> set (region_insertion_order ?s') \<and> \<not> region_inv ?s'"
    using assms(3) region_inv_length_order [of ?s'] by (auto simp: get_number_of_active_regions_def)
  then show ?thesis by (simp add: Let_def)
qed

theorem interleaved_reads_leak_a_cell_witness:
  "let s' = snd (theta_at (demo_key 3) 5 (lazy_init_region (demo_key 9)
       (lazy_init_region (demo_key 3) (demo_pca L2 [] \<lparr>max_regions := 1\<rparr>))))
    in get_number_of_active_regions s' = 2 \<and> demo_key 3 \<notin> set (region_insertion_order s') \<and> \<not> region_inv s'"
proof -
  let ?s = "demo_pca L2 [] \<lparr>max_regions := 1\<rparr>"
  have inv: "region_inv ?s" by (simp add: region_inv_def demo_pca_def)
  have ne: "demo_key 3 \<noteq> demo_key 9" using demo_key_wf [of 3] demo_key_wf [of 9] by auto
  have dim: "pca_dim ?s = 1" "max_regions ?s = 1" "set (map fst (region_theta_map ?s)) \<inter> {demo_key 3, demo_key 9} = {}"
    by (simp_all add: demo_pca_def)
  show ?thesis
    using interleaved_reads_leak_a_cell [OF inv dim(2) ne dim(3), of 5] demo_key_wf dim(1) by simp
qed

end
