(* ===== verification/QvShards.thy ===== *)
theory QvShards
  imports IndexRuns LruCache HitThresholds
begin

text \<open>
  The manager of the mini-indexes (\<open>include/qvcache/qvcache.h\<close>), first part: its state, the creation of a mini-index,
  the tasks of the insert pool, the slots of a shard and how room is made. A member function is a definition that
  passes the state on. The backend, the distance and the projection on the principal components come in a
  record \<open>environment\<close>; so do the orders in which the code iterates hash containers and in which pool tasks finish,
  which nothing fixes. Vectors are values (copies into aligned buffers are left out), log output and timing too.
  The entries of \<open>memory_indices\<close> are never null.
\<close>

section \<open>Environment and state\<close>

text \<open>A submitted insertion: shard, backend ids, and what the threshold update needs (\<open>None\<close> for a null query).\<close>

record 'v pool_task =
  tk_shard :: nat
  tk_ids :: "u32 list"
  tk_K :: nat
  tk_distance :: fp
  tk_query :: "'v option"

record ('v, 'b) environment =
  en_space :: "'v space"
  en_project :: "'v \<Rightarrow> fp list"
  en_search :: "'b \<Rightarrow> 'v \<Rightarrow> nat \<Rightarrow> (u32 list \<times> fp list) result"
  en_fetch :: "'b \<Rightarrow> u32 list \<Rightarrow> 'v list result"
  en_supports_updates :: "'b \<Rightarrow> bool"
  en_insert :: "u32 \<Rightarrow> 'v option \<Rightarrow> 'b \<Rightarrow> 'b result"
  en_remove :: "u32 \<Rightarrow> 'b \<Rightarrow> 'b result"
  en_ord :: "nat list \<Rightarrow> nat list"
  en_merge_ord :: "(u32 \<times> fp \<times> nat) list \<Rightarrow> (u32 \<times> fp \<times> nat) list"
  en_count_ord :: "(nat \<times> nat) list \<Rightarrow> (nat \<times> nat) list"
  en_task_ord :: "'v pool_task list \<Rightarrow> 'v pool_task list"

record qv_config =
  qf_dim :: nat
  qf_aligned_dim :: nat
  qf_points_per_index :: nat
  qf_number_of_mini_indexes :: nat
  qf_search_threads :: nat
  qf_p :: fp
  qf_deviation_factor :: fp
  qf_memory_L :: nat
  qf_use_regional_theta :: bool
  qf_lazy_theta_updates :: bool
  qf_use_reconstructed_vectors :: bool
  qf_max_search_threads :: nat
  qf_metric :: metric

datatype search_strategy = SEQUENTIAL | PARALLEL

record ('v, 'b) qvcache =
  qc_config :: qv_config
  qc_backend :: "'b option"
  qc_memory_indices :: "'v vindex list"
  qc_active_insert_index_id :: nat
  qc_lru :: "nat lru_cache"
  qc_tasks :: "'v pool_task list"
  qc_theta_map :: "(nat \<times> fp) list"
  qc_pca :: "pca_utils option"
  qc_eviction_in_progress :: bool
  qc_write_theta_discount :: fp
  qc_deleted_ids :: "u32 list"
  qc_admit_fifo :: "u32 list"
  qc_admit_set :: "u32 list"
  qc_point_evictions :: u64
  qc_region_invalidations :: u64
  qc_strategy :: search_strategy

section \<open>A new mini-index\<close>

definition make_index_write_params :: "qv_config \<Rightarrow> write_params" where
  "make_index_write_params qf =
     \<lparr>wp_search_list_size = qf_memory_L qf, wp_max_degree = qf_aligned_dim qf, wp_max_occlusion_size = 750,
      wp_alpha = f32 (6 / 5), wp_saturate_graph = False, wp_num_threads = 4\<rparr>"

definition memory_index_config :: "qv_config \<Rightarrow> nat \<Rightarrow> index_config" where
  "memory_index_config qf max_points =
     \<lparr>cf_metric = qf_metric qf, cf_dimension = qf_dim qf, cf_max_points = max_points, cf_num_frozen_pts = 0,
      cf_dynamic_index = True, cf_enable_tags = True, cf_pq_dist_build = False, cf_concurrent_consolidate = True,
      cf_write_params = Some (make_index_write_params qf),
      cf_search_params = Some \<lparr>sr_initial_search_list_size = qf_memory_L qf,
                               sr_num_search_threads = qf_search_threads qf\<rparr>\<rparr>"

text \<open>\<open>set_start_points_at_random(0)\<close> scales the random directions by 0: every start point is the zero vector.\<close>

definition create_memory_index :: "'v space \<Rightarrow> qv_config \<Rightarrow> nat \<Rightarrow> 'v vindex result" where
  "create_memory_index sp qf max_points =
     rbind (config_build (memory_index_config qf max_points)) (\<lambda>cf.
     rbind (create_instance sp cf) (\<lambda>index.
       set_start_points sp (replicate (vx_num_frozen_pts index) (sp_zero sp)) index))"

section \<open>Access to the parts\<close>

definition index_at :: "nat \<Rightarrow> ('v, 'b) qvcache \<Rightarrow> 'v vindex result" where
  "index_at i c =
     (if i < length (qc_memory_indices c) then Inr (qc_memory_indices c ! i)
      else Inl (Undefined ''memory_indices out of range''))"

definition put_index :: "nat \<Rightarrow> 'v vindex \<Rightarrow> ('v, 'b) qvcache \<Rightarrow> ('v, 'b) qvcache" where
  "put_index i index c = c\<lparr>qc_memory_indices := (qc_memory_indices c)[i := index]\<rparr>"

definition touch_shard :: "nat \<Rightarrow> ('v, 'b) qvcache \<Rightarrow> ('v, 'b) qvcache result" where
  "touch_shard i c = rbind (lru_access i (qc_lru c)) (\<lambda>(_, l). Inr (c\<lparr>qc_lru := l\<rparr>))"

definition get_number_of_vectors_in_memory_index :: "('v, 'b) qvcache \<Rightarrow> nat" where
  "get_number_of_vectors_in_memory_index c = sum_list (map get_number_of_active_vectors (qc_memory_indices c))"

definition get_number_of_max_points_in_memory_index :: "('v, 'b) qvcache \<Rightarrow> nat" where
  "get_number_of_max_points_in_memory_index c =
     qf_points_per_index (qc_config c) * qf_number_of_mini_indexes (qc_config c)"

definition backend_of :: "('v, 'b) qvcache \<Rightarrow> 'b result" where
  "backend_of c = (case qc_backend c of None \<Rightarrow> Inl (Undefined ''null backend'') | Some b \<Rightarrow> Inr b)"

section \<open>Thresholds\<close>

definition update_theta ::
  "('v, 'b) environment \<Rightarrow> 'v \<Rightarrow> nat \<Rightarrow> fp \<Rightarrow> ('v, 'b) qvcache \<Rightarrow> ('v, 'b) qvcache result" where
  "update_theta env query K query_distance c =
     (if qf_use_regional_theta (qc_config c)
      then case qc_pca c of
             None \<Rightarrow> Inl (Undefined ''null pca_utils'')
           | Some s \<Rightarrow> rbind (pca_update_theta (en_project env) query K query_distance (qf_p (qc_config c)) s)
                         (\<lambda>s'. Inr (c\<lparr>qc_pca := Some s'\<rparr>))
      else let (current_theta, m) = um_at (Fin 0) K (qc_theta_map c)
           in Inr (c\<lparr>qc_theta_map := um_put K
                (if is_uninitialized_theta (qf_metric (qc_config c)) current_theta then query_distance
                 else ema (qf_p (qc_config c)) query_distance current_theta) m\<rparr>))"

definition reset_global_theta_map :: "('v, 'b) qvcache \<Rightarrow> ('v, 'b) qvcache" where
  "reset_global_theta_map c =
     c\<lparr>qc_theta_map := map (\<lambda>(K, _). (K, uninitialized_theta (qf_metric (qc_config c)))) (qc_theta_map c)\<rparr>"

definition stale_write_regions ::
  "('v, 'b) environment \<Rightarrow> 'v option \<Rightarrow> ('v, 'b) qvcache \<Rightarrow> ('v, 'b) qvcache result" where
  "stale_write_regions env vec c =
     (case (vec, qf_use_regional_theta (qc_config c), qc_pca c) of
        (Some v, True, Some s) \<Rightarrow>
          rbind (tighten_theta_for_vector (en_project env) (Some v) (qc_write_theta_discount c) s) (\<lambda>(n, s').
            Inr (c\<lparr>qc_pca := Some s', qc_region_invalidations := qc_region_invalidations c + of_nat n\<rparr>))
      | _ \<Rightarrow> Inr c)"

section \<open>Tasks of the insert pool\<close>

text \<open>The \<open>1 + id\<close> wraps on \<open>uint32_t\<close>. The vectors of the ids are fetched first.\<close>

definition insert_fetched ::
  "'v space \<Rightarrow> u32 list \<Rightarrow> 'v list \<Rightarrow> nat \<Rightarrow> nat \<times> 'v vindex \<Rightarrow> (nat \<times> 'v vindex) result" where
  "insert_fetched sp to_be_inserted vectors i st =
     (if i < length vectors
      then rbind (insert_point sp (vectors ! i) (1 + to_be_inserted ! i) (snd st)) (\<lambda>(ret, index).
             Inr (if ret = 0 then fst st + 1 else fst st, index))
      else Inl (Undefined ''vectors out of range''))"

text \<open>\<open>memory_index_insert_sync\<close> and \<open>memory_index_insert_reconstructed_sync\<close>, which differ in the copies only.\<close>

definition memory_index_insert_sync ::
  "('v, 'b) environment \<Rightarrow> nat \<Rightarrow> u32 list \<Rightarrow> ('v, 'b) qvcache \<Rightarrow> ('v, 'b) qvcache result" where
  "memory_index_insert_sync env shard to_be_inserted c =
     rbind (backend_of c) (\<lambda>b.
     rbind (en_fetch env b to_be_inserted) (\<lambda>vectors.
     rbind (index_at shard c) (\<lambda>index.
     rbind (rfold (insert_fetched (en_space env) to_be_inserted vectors) [0..<length to_be_inserted] (0, index))
       (\<lambda>(successful_inserts, index'). Inr (put_index shard index' c)))))"

definition run_task :: "('v, 'b) environment \<Rightarrow> 'v pool_task \<Rightarrow> ('v, 'b) qvcache \<Rightarrow> ('v, 'b) qvcache result" where
  "run_task env t c =
     rbind (memory_index_insert_sync env (tk_shard t) (tk_ids t) c) (\<lambda>c1.
       case tk_query t of
         Some query \<Rightarrow>
           if qf_lazy_theta_updates (qc_config c1) then update_theta env query (tk_K t) (tk_distance t) c1 else Inr c1
       | None \<Rightarrow> Inr c1)"

text \<open>\<open>wait_idle\<close>: every submitted task is run, in the order the workers finish them.\<close>

definition wait_idle :: "('v, 'b) environment \<Rightarrow> ('v, 'b) qvcache \<Rightarrow> ('v, 'b) qvcache result" where
  "wait_idle env c = rfold (run_task env) (en_task_ord env (qc_tasks c)) (c\<lparr>qc_tasks := []\<rparr>)"

section \<open>Slots of a shard\<close>

definition shard_has_capacity :: "nat \<Rightarrow> ('v, 'b) qvcache \<Rightarrow> bool" where
  "shard_has_capacity i c \<longleftrightarrow> i < length (qc_memory_indices c) \<and>
     get_number_of_active_vectors (qc_memory_indices c ! i) < qf_points_per_index (qc_config c)"

definition shard_has_insert_slots :: "nat \<Rightarrow> ('v, 'b) qvcache \<Rightarrow> bool" where
  "shard_has_insert_slots i c \<longleftrightarrow> i < length (qc_memory_indices c) \<and>
     get_number_of_active_vectors (qc_memory_indices c ! i) +
     get_number_of_lazy_deleted_points (qc_memory_indices c ! i) < qf_points_per_index (qc_config c)"

definition note_admitted_tag :: "u32 \<Rightarrow> ('v, 'b) qvcache \<Rightarrow> ('v, 'b) qvcache" where
  "note_admitted_tag mem_tag c =
     (if mem_tag \<in> set (qc_admit_set c) then c
      else c\<lparr>qc_admit_set := mem_tag # qc_admit_set c, qc_admit_fifo := qc_admit_fifo c @ [mem_tag]\<rparr>)"

definition forget_admitted_tag :: "u32 \<Rightarrow> ('v, 'b) qvcache \<Rightarrow> ('v, 'b) qvcache" where
  "forget_admitted_tag mem_tag c = c\<lparr>qc_admit_set := removeAll mem_tag (qc_admit_set c)\<rparr>"

text \<open>No other consolidation of the same index runs here, so its lock is free.\<close>

definition consolidate_shard :: "('v, 'b) environment \<Rightarrow> nat \<Rightarrow> ('v, 'b) qvcache \<Rightarrow> ('v, 'b) qvcache result" where
  "consolidate_shard env i c =
     (if i \<ge> length (qc_memory_indices c) then Inr c
      else if get_number_of_lazy_deleted_points (qc_memory_indices c ! i) = 0 then Inr c
      else rbind (consolidate_deletes (en_ord env) (en_space env) (make_index_write_params (qc_config c)) True
                    (qc_memory_indices c ! i))
             (\<lambda>(report, index). Inr (put_index i index c)))"

definition consolidate_dirty_shards :: "('v, 'b) environment \<Rightarrow> ('v, 'b) qvcache \<Rightarrow> ('v, 'b) qvcache result" where
  "consolidate_dirty_shards env c = rfold (consolidate_shard env) [0..<length (qc_memory_indices c)] c"

definition reclaim_insert_slots :: "('v, 'b) environment \<Rightarrow> nat \<Rightarrow> ('v, 'b) qvcache \<Rightarrow> ('v, 'b) qvcache result" where
  "reclaim_insert_slots env i c =
     (if shard_has_capacity i c \<and> \<not> shard_has_insert_slots i c
      then rbind (wait_idle env c) (consolidate_shard env i) else Inr c)"

section \<open>Eviction\<close>

text \<open>The loop over the queue: victims so far, rest of the queue, rest of the set.\<close>

fun pop_victims :: "nat \<Rightarrow> u32 list \<Rightarrow> u32 list \<Rightarrow> u32 list \<Rightarrow> u32 list \<times> u32 list \<times> u32 list" where
  "pop_victims n [] adm victims = (victims, [], adm)"
| "pop_victims n (tag # fifo) adm victims =
     (if length victims < n
      then if tag \<in> set adm then pop_victims n fifo (removeAll tag adm) (victims @ [tag])
           else pop_victims n fifo adm victims
      else (victims, tag # fifo, adm))"

definition lazy_delete_victim :: "u32 \<Rightarrow> bool \<times> 'v vindex \<Rightarrow> bool \<times> 'v vindex" where
  "lazy_delete_victim tag st = (let (r, index) = lazy_delete tag (snd st) in (if r = 0 then True else fst st, index))"

definition evict_from_shard ::
  "('v, 'b) environment \<Rightarrow> u32 list \<Rightarrow> nat \<Rightarrow> ('v, 'b) qvcache \<Rightarrow> ('v, 'b) qvcache result" where
  "evict_from_shard env victims i c =
     rbind (index_at i c) (\<lambda>index.
       let (dirty, index') = fold lazy_delete_victim victims (False, index); c1 = put_index i index' c
       in if dirty then consolidate_shard env i c1 else Inr c1)"

definition evict_oldest_points ::
  "('v, 'b) environment \<Rightarrow> nat \<Rightarrow> ('v, 'b) qvcache \<Rightarrow> (nat \<times> ('v, 'b) qvcache) result" where
  "evict_oldest_points env n c =
     (if n = 0 then Inr (0, c)
      else rbind (wait_idle env c) (\<lambda>c1.
        let (victims, fifo, adm) = pop_victims n (qc_admit_fifo c1) (qc_admit_set c1) [];
            c2 = c1\<lparr>qc_admit_fifo := fifo, qc_admit_set := adm\<rparr>
        in if victims = [] then Inr (0, c2)
           else rbind (rfold (evict_from_shard env victims) [0..<length (qc_memory_indices c2)] c2) (\<lambda>c3.
                  Inr (length victims,
                       c3\<lparr>qc_point_evictions := qc_point_evictions c3 + of_nat (length victims)\<rparr>))))"

text \<open>The loop keeps the first shard of least load among those with slots; \<open>None\<close> is the largest \<open>size_t\<close>.\<close>

definition better_shard :: "('v, 'b) qvcache \<Rightarrow> nat \<Rightarrow> (nat \<times> nat) option \<Rightarrow> (nat \<times> nat) option" where
  "better_shard c i best =
     (if \<not> shard_has_insert_slots i c then best
      else let load = get_number_of_active_vectors (qc_memory_indices c ! i)
           in if (case best of None \<Rightarrow> True | Some (_, best_load) \<Rightarrow> load < best_load) then Some (i, load) else best)"

definition find_shard_with_capacity :: "('v, 'b) qvcache \<Rightarrow> nat option" where
  "find_shard_with_capacity c =
     map_option fst (fold (better_shard c) [0..<length (qc_memory_indices c)] None)"

definition make_room_for_admit ::
  "('v, 'b) environment \<Rightarrow> nat \<Rightarrow> ('v, 'b) qvcache \<Rightarrow> (nat option \<times> ('v, 'b) qvcache) result" where
  "make_room_for_admit env n_needed c =
     rbind (wait_idle env c) (\<lambda>c1.
     rbind (consolidate_dirty_shards env c1) (\<lambda>c2.
       case find_shard_with_capacity c2 of
         Some chosen \<Rightarrow> Inr (Some chosen, c2)
       | None \<Rightarrow> rbind (evict_oldest_points env n_needed c2) (\<lambda>(_, c3).
                   Inr (find_shard_with_capacity c3, c3))))"

definition invalidate_thetas_for_shard :: "nat \<Rightarrow> ('v, 'b) qvcache \<Rightarrow> ('v, 'b) qvcache" where
  "invalidate_thetas_for_shard shard c =
     (if \<not> qf_use_regional_theta (qc_config c) \<or> qc_pca c = None then reset_global_theta_map c else c)"

definition fresh_shard :: "('v, 'b) environment \<Rightarrow> nat \<Rightarrow> ('v, 'b) qvcache \<Rightarrow> ('v, 'b) qvcache result" where
  "fresh_shard env ident c =
     rbind (create_memory_index (en_space env) (qc_config c) (qf_points_per_index (qc_config c))) (\<lambda>index.
       if ident < length (qc_memory_indices c) then Inr (put_index ident index c)
       else Inl (Undefined ''memory_indices out of range''))"

definition replace_shard :: "('v, 'b) environment \<Rightarrow> nat \<Rightarrow> ('v, 'b) qvcache \<Rightarrow> ('v, 'b) qvcache result" where
  "replace_shard env ident c = fresh_shard env ident (invalidate_thetas_for_shard ident c)"

definition evict_one_shard_sync ::
  "('v, 'b) environment \<Rightarrow> ('v, 'b) qvcache \<Rightarrow> (nat option \<times> ('v, 'b) qvcache) result" where
  "evict_one_shard_sync env c =
     rbind (wait_idle env c) (\<lambda>c1.
       case lru_get_lru_tags 1 (qc_lru c1) of
         [] \<Rightarrow> Inr (None, c1)
       | ident # _ \<Rightarrow> rbind (replace_shard env ident c1) (\<lambda>c2. rbind (touch_shard ident c2) (\<lambda>c3.
                     Inr (Some ident, c3\<lparr>qc_active_insert_index_id := ident\<rparr>))))"

definition touch_missing :: "nat \<Rightarrow> ('v, 'b) qvcache \<Rightarrow> ('v, 'b) qvcache result" where
  "touch_missing i c = (if lru_contains (qc_lru c) i then Inr c else touch_shard i c)"

definition perform_eviction :: "('v, 'b) environment \<Rightarrow> ('v, 'b) qvcache \<Rightarrow> ('v, 'b) qvcache result" where
  "perform_eviction env c =
     (let current_lru_order = lru_get_all_tags (qc_lru c);
          rotate = (\<lambda>replaced_id touch_lru.
            rbind (fresh_shard env replaced_id c) (\<lambda>c1.
            let c2 = c1\<lparr>qc_active_insert_index_id := replaced_id\<rparr> in
            rbind (if touch_lru then touch_shard replaced_id c2 else Inr c2) (\<lambda>c3.
            rbind (rfold touch_missing [0..<qf_number_of_mini_indexes (qc_config c3)] c3) (\<lambda>c4.
              Inr (c4\<lparr>qc_eviction_in_progress := False\<rparr>)))))
      in case lru_get_lru_tags 1 (qc_lru c) of
           [] \<Rightarrow> rotate ((qc_active_insert_index_id c + 1) mod qf_number_of_mini_indexes (qc_config c)) False
         | replaced_id # _ \<Rightarrow>
             if length current_lru_order = 1 then Inr (c\<lparr>qc_eviction_in_progress := False\<rparr>)
             else rotate replaced_id True)"

definition ensure_admit_shard ::
  "('v, 'b) environment \<Rightarrow> ('v, 'b) qvcache \<Rightarrow> (nat \<times> ('v, 'b) qvcache) result" where
  "ensure_admit_shard env c =
     (let shard = qc_active_insert_index_id c in
      rbind (reclaim_insert_slots env shard c) (\<lambda>c1.
        if shard_has_insert_slots shard c1 then Inr (shard, c1)
        else rbind (rfold (\<lambda>i c. if i \<noteq> shard then reclaim_insert_slots env i c else Inr c)
                      [0..<length (qc_memory_indices c1)] c1) (\<lambda>c2.
          case find_shard_with_capacity c2 of
            Some spare \<Rightarrow> rbind (touch_shard spare (c2\<lparr>qc_active_insert_index_id := spare\<rparr>)) (\<lambda>c3. Inr (spare, c3))
          | None \<Rightarrow>
              rbind (wait_idle env c2) (\<lambda>c3.
              rbind (if qc_eviction_in_progress c3 then Inr c3
                     else perform_eviction env (c3\<lparr>qc_eviction_in_progress := True\<rparr>)) (\<lambda>c4.
                Inr (qc_active_insert_index_id c4, c4))))))"

definition assign_write_shard ::
  "('v, 'b) environment \<Rightarrow> nat \<Rightarrow> ('v, 'b) qvcache \<Rightarrow> (nat option \<times> ('v, 'b) qvcache) result" where
  "assign_write_shard env n_admit c =
     (let shard = qc_active_insert_index_id c in
      rbind (reclaim_insert_slots env shard c) (\<lambda>c1.
        if shard_has_insert_slots shard c1 then Inr (Some shard, c1) else make_room_for_admit env n_admit c1))"

end
