(* ===== verification/QvShardLaws.thy ===== *)
theory QvShardLaws
  imports QvShards
begin

text \<open>
  What the operations on the shards keep: every shard stays an index in good order of the configured size, the
  recency list stays a permutation of the shards. The manager relies on a mini-index as a dictionary with put and
  delete; that interface is a locale, interpreted on the model of the DiskANN index.
\<close>

section \<open>The interface of a mini-index\<close>

locale tagged_store =
  fixes ok :: "'s \<Rightarrow> bool" and dict :: "'s \<Rightarrow> 't \<rightharpoonup> 'v" and put :: "'v \<Rightarrow> 't \<Rightarrow> 's \<Rightarrow> (int \<times> 's) result"
    and del :: "'t \<Rightarrow> 's \<Rightarrow> int \<times> 's" and stored :: "'v \<Rightarrow> 'v" and valid :: "'t \<Rightarrow> bool"
  assumes put_law: "ok s \<Longrightarrow> valid t \<Longrightarrow> \<exists>r s'. put v t s = Inr (r, s') \<and> ok s' \<and>
      (r = 0 \<and> dict s t = None \<and> dict s' = (dict s)(t \<mapsto> stored v) \<or> r = - 1 \<and> s' = s)"
    and del_law: "ok s \<Longrightarrow> del t s = (r, s') \<Longrightarrow>
      ok s' \<and> dict s' = (dict s)(t := None) \<and> r = (if dict s t = None then - 1 else 0)"
begin

lemma put_all:
  assumes "ok s" and "\<forall>i \<in> set js. valid (tag i)"
  shows "\<exists>n s'. rfold (\<lambda>i st. rbind (put (val i) (tag i) (snd st)) (\<lambda>(r, s).
      Inr (if r = 0 then fst st + 1 else fst st, s))) js (k, s) = Inr (n, s') \<and> ok s' \<and>
    dict s \<subseteq>\<^sub>m dict s' \<and> dom (dict s') \<subseteq> dom (dict s) \<union> tag ` set js"
  using assms
proof (induction js arbitrary: k s)
  case (Cons i js)
  have "ok s" and "valid (tag i)" using Cons.prems by simp_all
  then obtain r s1 where s1: "put (val i) (tag i) s = Inr (r, s1)" "ok s1"
    "r = 0 \<and> dict s (tag i) = None \<and> dict s1 = (dict s)(tag i \<mapsto> stored (val i)) \<or> r = - 1 \<and> s1 = s"
    using put_law [of s "tag i" "val i"] by blast
  then have le: "dict s \<subseteq>\<^sub>m dict s1" "dom (dict s1) \<subseteq> insert (tag i) (dom (dict s))"
    by (auto simp: map_le_def)
  have "\<forall>i \<in> set js. valid (tag i)" using Cons.prems(2) by simp
  from Cons.IH [OF s1(2) this, of "if r = 0 then k + 1 else k"] obtain n s' where
    "rfold (\<lambda>i st. rbind (put (val i) (tag i) (snd st)) (\<lambda>(r, s).
      Inr (if r = 0 then fst st + 1 else fst st, s))) js (if r = 0 then k + 1 else k, s1) = Inr (n, s')"
    "ok s'" "dict s1 \<subseteq>\<^sub>m dict s'" "dom (dict s') \<subseteq> dom (dict s1) \<union> tag ` set js" by blast
  moreover from this(3) le(1) have "dict s \<subseteq>\<^sub>m dict s'" by (rule map_le_trans [rotated])
  ultimately show ?case using s1(1) le(2) by (auto intro!: exI [of _ n] exI [of _ s'])
qed simp

lemma del_all:
  assumes "ok s" and "fold (\<lambda>t st. let (r, s) = del t (snd st) in (if r = 0 then True else fst st, s)) ts (b, s) = (b', s')"
  shows "ok s'" and "dict s' = dict s |` (- set ts)" and "b' \<longleftrightarrow> b \<or> (\<exists>t \<in> set ts. dict s t \<noteq> None)"
    and "\<forall>t \<in> set ts. dict s t = None \<Longrightarrow> dict s' = dict s"
proof -
  have "ok s' \<and> dict s' = dict s |` (- set ts) \<and> (b' \<longleftrightarrow> b \<or> (\<exists>t \<in> set ts. dict s t \<noteq> None))"
    using assms
  proof (induction ts arbitrary: b s)
    case (Cons t ts)
    obtain r s1 where s1: "del t s = (r, s1)" by fastforce
    note law = del_law [OF Cons.prems(1) s1]
    have "fold (\<lambda>t st. let (r, s) = del t (snd st) in (if r = 0 then True else fst st, s)) ts
        (if r = 0 then True else b, s1) = (b', s')" using Cons.prems(2) s1 by (cases "r = 0") simp_all
    note IH = Cons.IH [OF conjunct1 [OF law] this]
    have "dict s' = dict s |` (- set (t # ts))"
      unfolding conjunct1 [OF conjunct2 [OF IH]] conjunct1 [OF conjunct2 [OF law]]
      by (simp add: restrict_map_def fun_eq_iff)
    moreover have "b' \<longleftrightarrow> b \<or> (\<exists>u \<in> set (t # ts). dict s u \<noteq> None)"
    proof (cases "dict s t")
      case None
      then have "(dict s)(t := None) = dict s" by (simp add: fun_upd_idem)
      then show ?thesis using IH law None by simp
    next
      case (Some v)
      then show ?thesis using IH law by simp
    qed
    ultimately show ?case using IH by blast
  qed (simp add: restrict_map_def)
  then show "ok s'" "dict s' = dict s |` (- set ts)" "b' \<longleftrightarrow> b \<or> (\<exists>t \<in> set ts. dict s t \<noteq> None)" by blast+
  then show "\<forall>t \<in> set ts. dict s t = None \<Longrightarrow> dict s' = dict s"
    by (auto simp: restrict_map_def fun_eq_iff)
qed

end

section \<open>A shard in good order\<close>

definition qv_config_ok :: "nat \<Rightarrow> qv_config \<Rightarrow> bool" where
  "qv_config_ok D qf \<longleftrightarrow> 0 < qf_dim qf \<and> 0 < qf_aligned_dim qf \<and> qf_aligned_dim qf \<le> D \<and>
     (\<exists>b \<le> D. slack_bound (qf_aligned_dim qf) = Inr b) \<and> 0 < qf_points_per_index qf \<and>
     0 < qf_number_of_mini_indexes qf \<and> 0 < qf_memory_L qf"

definition shard_ok :: "nat \<Rightarrow> qv_config \<Rightarrow> 'v vindex \<Rightarrow> bool" where
  "shard_ok D qf ix \<longleftrightarrow> index_inv D {} ix \<and> vx_max_points ix = qf_points_per_index qf \<and> vx_metric ix = qf_metric qf"

lemma alpha_below_max: "fp_lt (f32 (6 / 5)) FLT_MAX"
proof -
  obtain r where r: "f32 (6 / 5) = Fin r" "r \<le> 2 ^ 1" using fround_between [of "6 / 5" 1] by auto
  have "(2::rat) < (2 ^ 24 - 1) * 2 powi 104" by simp
  then show ?thesis using r by (simp add: fp_lt_def FLT_MAX_def fp_max_def binary32_def)
qed

lemma write_params_ok: "qv_config_ok D qf \<Longrightarrow> ord_ok ord \<Longrightarrow> consolidate_params D ord (make_index_write_params qf)"
  using alpha_below_max by (simp add: qv_config_ok_def consolidate_params_def make_index_write_params_def)

lemma create_memory_index_ok:
  assumes "qv_config_ok D qf" and "0 < max_points"
  obtains ix where "create_memory_index sp qf max_points = Inr ix" and "index_inv D {} ix"
    and "vx_max_points ix = max_points" and "vx_metric ix = qf_metric qf" and "contents ix = Map.empty"
    and "vx_tag_to_location ix = []" and "vx_delete_set ix = []"
proof -
  let ?base = "memory_index_config qf max_points" and ?wp = "make_index_write_params qf"
  let ?cf = "?base\<lparr>cf_num_frozen_pts := 1\<rparr>"
  let ?sr = "\<lparr>sr_initial_search_list_size = qf_memory_L qf, sr_num_search_threads = qf_search_threads qf\<rparr>"
  have cfg: "0 < qf_dim qf" "0 < qf_aligned_dim qf" "qf_aligned_dim qf \<le> D" "0 < qf_memory_L qf"
    using assms(1) by (simp_all add: qv_config_ok_def)
  obtain b where b: "slack_bound (qf_aligned_dim qf) = Inr b" "b \<le> D" using assms(1) by (auto simp: qv_config_ok_def)
  have build: "config_build ?base = Inr ?cf"
    using cfg(4) by (simp add: config_build_def memory_index_config_def Let_def)
  have dyn: "dynamic_config ?cf ?wp ?sr"
    using cfg assms(2) alpha_below_max
    by (simp add: dynamic_config_def memory_index_config_def make_index_write_params_def)
  let ?data = "replicate (cf_max_points ?cf + 1) (sp_zero sp)"
  let ?data' = "?data[cf_max_points ?cf := sp_prep sp (sp_zero sp)]"
  let ?ix = "fresh_index ?cf ?wp ?data"
  have "replicate (vx_num_frozen_pts ?ix) (sp_zero sp) = [sp_zero sp]" by (simp add: fresh_index_def)
  then have "create_memory_index sp qf max_points = set_start_points sp [sp_zero sp] ?ix"
    unfolding create_memory_index_def build rbind_simps create_instance_fresh [OF dyn] by simp
  also have "\<dots> = Inr (fresh_index ?cf ?wp ?data')" by (rule set_start_points_fresh) simp
  finally have "create_memory_index sp qf max_points = Inr (fresh_index ?cf ?wp ?data')" .
  moreover have "index_inv D {} (fresh_index ?cf ?wp ?data')"
  proof (rule fresh_index_inv [OF dyn])
    show "length ?data' = cf_max_points ?cf + 1" by (simp only: length_list_update length_replicate)
  qed (use b cfg(3) in \<open>simp_all add: make_index_write_params_def\<close>)
  ultimately show ?thesis
    by (rule that) (simp_all add: fresh_index_def memory_index_config_def contents_def fun_eq_iff)
qed

lemma insert_shard:
  assumes "shard_ok D qf ix" and "numeric sp" and "tag \<noteq> 0"
  shows "\<exists>r ix'. insert_point sp v tag ix = Inr (r, ix') \<and> shard_ok D qf ix' \<and>
    (r = 0 \<and> contents ix tag = None \<and> contents ix' = (contents ix)(tag \<mapsto> sp_prep sp v) \<or> r = - 1 \<and> ix' = ix)"
proof -
  have inv: "index_inv D {} ix" using assms(1) by (simp add: shard_ok_def)
  obtain r ix' where ins: "insert_point sp v tag ix = Inr (r, ix')"
    using insert_point_outcomes_total [OF inv assms(2,3)] by blast
  show ?thesis
  proof (rule insert_point_cases [OF ins inv assms(2)])
    assume "r = - 1" "ix' = ix"
    then show ?thesis using ins assms(1) by auto
  next
    fix loc assume "r = 0" "vx_max_points ix' = vx_max_points ix" "vx_metric ix' = vx_metric ix" "index_inv D {} ix'"
    then show ?thesis
      using insert_contents(2) [OF ins inv assms(2)] ins assms(1) by (auto simp: dict_step_def shard_ok_def)
  qed
qed

lemma lazy_delete_metric: "vx_metric (snd (lazy_delete tag ix)) = vx_metric ix"
  by (simp add: lazy_delete_def Let_def delete_tag_def split: option.splits)

lemma lazy_delete_shard:
  assumes "shard_ok D qf ix" and "lazy_delete tag ix = (r, ix')"
  shows "shard_ok D qf ix' \<and> contents ix' = (contents ix)(tag := None) \<and> r = (if contents ix tag = None then - 1 else 0)"
proof -
  have inv: "index_inv D {} ix" using assms(1) by (simp add: shard_ok_def)
  have ix': "ix' = snd (lazy_delete tag ix)" using assms(2) by simp
  have "shard_ok D qf ix'"
    using assms(1) lazy_delete_inv [OF inv, of tag] unfolding ix'
    by (simp add: shard_ok_def lazy_delete_fields lazy_delete_metric)
  then show ?thesis
    using delete_contents [OF assms(2) index_invD(1) [OF inv]] by (simp add: dict_step_def)
qed

interpretation shard: tagged_store "\<lambda>ix. numeric sp \<and> shard_ok D qf ix" contents "insert_point sp" lazy_delete
    "sp_prep sp" "\<lambda>t. t \<noteq> 0" for sp D qf
proof
  show "\<exists>r s'. insert_point sp v t s = Inr (r, s') \<and> (numeric sp \<and> shard_ok D qf s') \<and>
      (r = 0 \<and> contents s t = None \<and> contents s' = (contents s)(t \<mapsto> sp_prep sp v) \<or> r = - 1 \<and> s' = s)"
    if "numeric sp \<and> shard_ok D qf s" and "t \<noteq> 0" for s :: "'a vindex" and t v
    using insert_shard [of D qf s sp t v] that by blast
  show "(numeric sp \<and> shard_ok D qf s') \<and> contents s' = (contents s)(t := None) \<and>
      r = (if contents s t = None then - 1 else 0)"
    if "numeric sp \<and> shard_ok D qf s" and "lazy_delete t s = (r, s')" for s :: "'a vindex" and t r s'
    using lazy_delete_shard [of D qf s t r s'] that by blast
qed

end
