(* ===== verification/QvRoom.thy ===== *)
theory QvRoom
  imports QvShardLaws
begin

text \<open>
  The invariant of the manager and how it makes room: tasks, consolidation, the choice of a shard, eviction. Each operation
  returns and keeps the invariant; what it may do to the cached entries is stated beside it: tasks only add
  entries, a consolidation changes none, an eviction of points removes its victims, and an eviction of a shard
  empties the least recently used one.
\<close>

section \<open>The invariant\<close>

text \<open>What the code relies on in its surroundings: containers are iterated once over, tasks run once each, the backend
  answers, a search with \<open>K\<close> entries and a fetch with one vector for each id.\<close>

definition env_ok :: "('v, 'b) environment \<Rightarrow> bool" where
  "env_ok env \<longleftrightarrow> numeric (en_space env) \<and> ord_ok (en_ord env) \<and>
     (\<forall>ts. mset (en_task_ord env ts) = mset ts) \<and> (\<forall>xs. mset (en_merge_ord env xs) = mset xs) \<and>
     (\<forall>xs. mset (en_count_ord env xs) = mset xs) \<and>
     (\<forall>b ids. \<exists>vs. en_fetch env b ids = Inr vs \<and> length vs = length ids) \<and>
     (\<forall>b q K. \<exists>tags ds. en_search env b q K = Inr (tags, ds) \<and> length tags = K \<and> length ds = K) \<and>
     (\<forall>b i v. en_supports_updates env b \<longrightarrow> (\<exists>b'. en_insert env i (Some v) b = Inr b')) \<and>
     (\<forall>b i. en_supports_updates env b \<longrightarrow> (\<exists>b'. en_remove env i b = Inr b'))"

definition pca_ok :: "('v, 'b) environment \<Rightarrow> ('v, 'b) qvcache \<Rightarrow> bool" where
  "pca_ok env c \<longleftrightarrow> (\<forall>s. qc_pca c = Some s \<longrightarrow> writes_ok (en_project env) s \<and> region_inv s) \<and>
     (qf_use_regional_theta (qc_config c) \<longrightarrow> qc_pca c \<noteq> None)"

definition task_ok :: "nat \<Rightarrow> 'v pool_task \<Rightarrow> bool" where
  "task_ok n t \<longleftrightarrow> tk_shard t < n \<and> u32_max \<notin> set (tk_ids t)"

definition lru_ok :: "('v, 'b) qvcache \<Rightarrow> bool" where
  "lru_ok c \<longleftrightarrow> lru_inv (qc_lru c) \<and> lru_capacity (qc_lru c) = length (qc_memory_indices c) \<and>
     set (lru_get_all_tags (qc_lru c)) = {..<length (qc_memory_indices c)} \<and>
     qc_active_insert_index_id c < length (qc_memory_indices c) \<and>
     length (qc_memory_indices c) = qf_number_of_mini_indexes (qc_config c)"

definition qv_inv :: "nat \<Rightarrow> ('v, 'b) environment \<Rightarrow> ('v, 'b) qvcache \<Rightarrow> bool" where
  "qv_inv D env c \<longleftrightarrow> qv_config_ok D (qc_config c) \<and> lru_ok c \<and>
     (\<forall>ix \<in> set (qc_memory_indices c). shard_ok D (qc_config c) ix) \<and>
     (\<forall>t \<in> set (qc_tasks c). task_ok (length (qc_memory_indices c)) t) \<and>
     pca_ok env c \<and> qc_backend c \<noteq> None"

lemma qv_invD:
  assumes "qv_inv D env c"
  shows "qv_config_ok D (qc_config c)" and "lru_ok c"
    and "\<And>i. i < length (qc_memory_indices c) \<Longrightarrow> shard_ok D (qc_config c) (qc_memory_indices c ! i)"
    and "\<And>t. t \<in> set (qc_tasks c) \<Longrightarrow> task_ok (length (qc_memory_indices c)) t"
    and "pca_ok env c" and "qc_backend c \<noteq> None"
  using assms by (simp_all add: qv_inv_def)

lemma lru_ok_updates [simp]:
  "lru_ok (c\<lparr>qc_theta_map := m\<rparr>) = lru_ok c" "lru_ok (c\<lparr>qc_pca := s\<rparr>) = lru_ok c"
  "lru_ok (c\<lparr>qc_tasks := ts\<rparr>) = lru_ok c" "lru_ok (c\<lparr>qc_admit_fifo := f\<rparr>) = lru_ok c"
  "lru_ok (c\<lparr>qc_admit_set := a\<rparr>) = lru_ok c" "lru_ok (c\<lparr>qc_deleted_ids := d\<rparr>) = lru_ok c"
  "lru_ok (c\<lparr>qc_backend := b\<rparr>) = lru_ok c" "lru_ok (c\<lparr>qc_point_evictions := n\<rparr>) = lru_ok c"
  "lru_ok (c\<lparr>qc_region_invalidations := n\<rparr>) = lru_ok c" "lru_ok (c\<lparr>qc_eviction_in_progress := b'\<rparr>) = lru_ok c"
  by (simp_all add: lru_ok_def)

lemma pca_ok_updates [simp]:
  "pca_ok env (c\<lparr>qc_theta_map := m\<rparr>) = pca_ok env c" "pca_ok env (c\<lparr>qc_tasks := ts\<rparr>) = pca_ok env c"
  "pca_ok env (c\<lparr>qc_admit_fifo := f\<rparr>) = pca_ok env c" "pca_ok env (c\<lparr>qc_admit_set := a\<rparr>) = pca_ok env c"
  "pca_ok env (c\<lparr>qc_deleted_ids := d\<rparr>) = pca_ok env c" "pca_ok env (c\<lparr>qc_backend := b\<rparr>) = pca_ok env c"
  "pca_ok env (c\<lparr>qc_point_evictions := n\<rparr>) = pca_ok env c" "pca_ok env (c\<lparr>qc_lru := l\<rparr>) = pca_ok env c"
  "pca_ok env (c\<lparr>qc_active_insert_index_id := i\<rparr>) = pca_ok env c"
  "pca_ok env (c\<lparr>qc_region_invalidations := n\<rparr>) = pca_ok env c"
  "pca_ok env (c\<lparr>qc_memory_indices := xs\<rparr>) = pca_ok env c"
  "pca_ok env (c\<lparr>qc_eviction_in_progress := b'\<rparr>) = pca_ok env c"
  by (simp_all add: pca_ok_def)

lemma qv_inv_updates [simp]:
  "qv_inv D env (c\<lparr>qc_theta_map := m\<rparr>) = qv_inv D env c"
  "qv_inv D env (c\<lparr>qc_admit_fifo := f\<rparr>) = qv_inv D env c" "qv_inv D env (c\<lparr>qc_admit_set := a\<rparr>) = qv_inv D env c"
  "qv_inv D env (c\<lparr>qc_deleted_ids := d\<rparr>) = qv_inv D env c"
  "qv_inv D env (c\<lparr>qc_point_evictions := n\<rparr>) = qv_inv D env c"
  "qv_inv D env (c\<lparr>qc_region_invalidations := n\<rparr>) = qv_inv D env c"
  "qv_inv D env (c\<lparr>qc_eviction_in_progress := b\<rparr>) = qv_inv D env c"
  by (simp_all add: qv_inv_def)

lemma qv_inv_pca:
  assumes "qv_inv D env c" and "writes_ok (en_project env) s" and "region_inv s"
  shows "qv_inv D env (c\<lparr>qc_pca := Some s\<rparr>)"
proof -
  have "pca_ok env (c\<lparr>qc_pca := Some s\<rparr>)" using assms(2,3) by (simp add: pca_ok_def)
  then show ?thesis using assms(1) by (simp add: qv_inv_def)
qed

text \<open>What an operation leaves alone, and what may happen to the entries of the shards.\<close>

abbreviation shards :: "('v, 'b) qvcache \<Rightarrow> nat" where
  "shards c \<equiv> length (qc_memory_indices c)"

definition entries :: "('v, 'b) qvcache \<Rightarrow> nat \<Rightarrow> u32 \<rightharpoonup> 'v" where
  "entries c i = (if i < shards c then contents (qc_memory_indices c ! i) else Map.empty)"

definition same_frame :: "('v, 'b) qvcache \<Rightarrow> ('v, 'b) qvcache \<Rightarrow> bool" where
  "same_frame c c' \<longleftrightarrow> qc_config c' = qc_config c \<and> qc_backend c' = qc_backend c \<and> shards c' = shards c \<and>
     qc_deleted_ids c' = qc_deleted_ids c \<and> qc_strategy c' = qc_strategy c \<and>
     qc_eviction_in_progress c' = qc_eviction_in_progress c"

definition grows :: "('v, 'b) qvcache \<Rightarrow> ('v, 'b) qvcache \<Rightarrow> bool" where
  "grows c c' \<longleftrightarrow> same_frame c c' \<and> (\<forall>i. entries c i \<subseteq>\<^sub>m entries c' i)"

definition same_entries :: "('v, 'b) qvcache \<Rightarrow> ('v, 'b) qvcache \<Rightarrow> bool" where
  "same_entries c c' \<longleftrightarrow> same_frame c c' \<and> entries c' = entries c"

lemma frame_refl [simp]: "same_frame c c" "grows c c" "same_entries c c"
  by (simp_all add: same_frame_def grows_def same_entries_def)

lemma frame_trans:
  "same_frame c c1 \<Longrightarrow> same_frame c1 c2 \<Longrightarrow> same_frame c c2"
  "grows c c1 \<Longrightarrow> grows c1 c2 \<Longrightarrow> grows c c2"
  "same_entries c c1 \<Longrightarrow> same_entries c1 c2 \<Longrightarrow> same_entries c c2"
  "same_entries c c1 \<Longrightarrow> grows c c1"
  by (auto simp: same_frame_def grows_def same_entries_def intro: map_le_trans)

lemma put_index_inv:
  assumes "qv_inv D env c" and "shard_ok D (qc_config c) ix"
  shows "qv_inv D env (put_index i ix c)"
proof -
  have "set ((qc_memory_indices c)[i := ix]) \<subseteq> insert ix (set (qc_memory_indices c))" by (rule set_update_subset_insert)
  then show ?thesis
    using assms by (auto simp: qv_inv_def put_index_def lru_ok_def)
qed

lemma put_index_frame [simp]:
  "same_frame c (put_index i ix c)" "qc_tasks (put_index i ix c) = qc_tasks c" "shards (put_index i ix c) = shards c"
  "qc_config (put_index i ix c) = qc_config c" "qc_admit_fifo (put_index i ix c) = qc_admit_fifo c"
  "qc_admit_set (put_index i ix c) = qc_admit_set c" "qc_lru (put_index i ix c) = qc_lru c"
  "qc_active_insert_index_id (put_index i ix c) = qc_active_insert_index_id c"
  "qc_deleted_ids (put_index i ix c) = qc_deleted_ids c"
  by (simp_all add: same_frame_def put_index_def)

lemma put_index_entries:
  "i < shards c \<Longrightarrow> entries (put_index i ix c) = (entries c)(i := contents ix)"
  by (auto simp: entries_def put_index_def fun_eq_iff nth_list_update)

lemma put_index_grows:
  "i < shards c \<Longrightarrow> contents (qc_memory_indices c ! i) \<subseteq>\<^sub>m contents ix \<Longrightarrow> grows c (put_index i ix c)"
  by (simp add: grows_def put_index_entries entries_def)

lemma index_at_Inr [simp]: "i < shards c \<Longrightarrow> index_at i c = Inr (qc_memory_indices c ! i)"
  by (simp add: index_at_def)

section \<open>Thresholds\<close>

lemma inputs_dim: "writes_ok project s \<Longrightarrow> pca_dim s \<le> key_cap \<and> pca_config_ok s"
  by (simp add: writes_ok_def inputs_ok_def pca_config_ok_def)

lemma same_config_learn:
  assumes "pca_update_theta project q K d p s = Inr s'"
  shows "same_config s s'"
proof -
  obtain region where region: "compute_region_key project s q = Inr region"
    using assms by (auto simp: pca_update_theta_def rbind_eq_Inr_conv)
  let ?s1 = "snd (theta_at region K (lazy_init_region region s))"
  have "same_config s (put_theta region K th ?s1)" for th
    by (rule same_config_trans [OF same_config_trans [OF same_config_steps(1) same_config_steps(2)] same_config_steps(4)])
  then show ?thesis using assms unfolding pca_update_theta_eq [OF region] Let_def by (auto simp: same_config_def)
qed

lemma update_theta_total:
  assumes "qv_inv D env c"
  obtains c' where "update_theta env q K d c = Inr c'" and "qv_inv D env c'" and "same_entries c c'"
    and "qc_tasks c' = qc_tasks c" and "qc_lru c' = qc_lru c" and "qc_admit_set c' = qc_admit_set c"
    and "qc_admit_fifo c' = qc_admit_fifo c" and "qc_memory_indices c' = qc_memory_indices c"
    and "qc_active_insert_index_id c' = qc_active_insert_index_id c"
proof (cases "qf_use_regional_theta (qc_config c)")
  case True
  then obtain s where s: "qc_pca c = Some s" "writes_ok (en_project env) s" "region_inv s"
    using qv_invD(5) [OF assms] by (auto simp: pca_ok_def)
  obtain region where "compute_region_key (en_project env) s q = Inr region"
    using compute_region_key_total [OF writes_okD(1) [OF s(2)]] by blast
  then obtain s' where s': "pca_update_theta (en_project env) q K d (qf_p (qc_config c)) s = Inr s'"
    using pca_update_theta_eq by (metis (no_types))
  have "region_inv s'" using region_inv_update_theta [OF s(3) _ s'] inputs_dim [OF s(2)] by simp
  moreover have "writes_ok (en_project env) s'" using s(2) by (simp add: same_config_writes [OF same_config_learn [OF s']])
  ultimately have "qv_inv D env (c\<lparr>qc_pca := Some s'\<rparr>)" by (intro qv_inv_pca [OF assms])
  then show ?thesis
    using True s(1) s' by (intro that [of "c\<lparr>qc_pca := Some s'\<rparr>"])
      (simp_all add: update_theta_def same_entries_def same_frame_def entries_def fun_eq_iff)
next
  case False
  obtain m where m: "update_theta env q K d c = Inr (c\<lparr>qc_theta_map := m\<rparr>)"
    using False by (auto simp: update_theta_def split_beta)
  moreover have "qv_inv D env (c\<lparr>qc_theta_map := m\<rparr>)" using assms by simp
  ultimately show ?thesis
    by (intro that [of "c\<lparr>qc_theta_map := m\<rparr>"])
      (simp_all add: same_entries_def same_frame_def entries_def fun_eq_iff)
qed

section \<open>Tasks\<close>

lemma id_to_tag: "i \<noteq> u32_max \<Longrightarrow> 1 + i \<noteq> 0"
  unfolding u32_max_def by (metis add.commute eq_neg_iff_add_eq_0)

lemma insert_sync_total:
  assumes inv: "qv_inv D env c" and env: "env_ok env" and "shard < shards c" and "u32_max \<notin> set ids"
  obtains c' where "memory_index_insert_sync env shard ids c = Inr c'" and "qv_inv D env c'" and "grows c c'"
    and "qc_tasks c' = qc_tasks c" and "qc_lru c' = qc_lru c"
    and "dom (entries c' shard) \<subseteq> dom (entries c shard) \<union> (\<lambda>i. 1 + i) ` set ids"
    and "\<forall>i. i \<noteq> shard \<longrightarrow> entries c' i = entries c i"
proof -
  obtain b where b: "qc_backend c = Some b" using qv_invD(6) [OF inv] by auto
  obtain vs where vs: "en_fetch env b ids = Inr vs" "length vs = length ids" using env unfolding env_ok_def by blast
  let ?ix = "qc_memory_indices c ! shard" and ?sp = "en_space env" and ?js = "[0..<length ids]"
  have ok: "numeric ?sp \<and> shard_ok D (qc_config c) ?ix"
    using env qv_invD(3) [OF inv assms(3)] by (simp add: env_ok_def)
  have valid: "\<forall>i \<in> set ?js. 1 + ids ! i \<noteq> 0"
  proof
    fix i assume "i \<in> set ?js"
    then have "ids ! i \<in> set ids" by simp
    then show "1 + ids ! i \<noteq> 0" using assms(4) by (intro id_to_tag) metis
  qed
  have same: "rfold (insert_fetched ?sp ids vs) ?js st = rfold (\<lambda>i st. rbind (insert_point ?sp (vs ! i) (1 + ids ! i) (snd st))
      (\<lambda>(r, s). Inr (if r = 0 then fst st + 1 else fst st, s))) ?js st" for st
    using vs(2) by (intro rfold_cong) (simp_all add: insert_fetched_def)
  from shard.put_all [OF ok valid, of "\<lambda>i. vs ! i" 0] obtain n ix' where
    r: "rfold (insert_fetched ?sp ids vs) ?js (0, ?ix) = Inr (n, ix')" "shard_ok D (qc_config c) ix'"
      "contents ?ix \<subseteq>\<^sub>m contents ix'" "dom (contents ix') \<subseteq> dom (contents ?ix) \<union> (\<lambda>i. 1 + ids ! i) ` set ?js"
    unfolding same by blast
  have img: "(\<lambda>i. 1 + ids ! i) ` set ?js = (\<lambda>i. 1 + i) ` set ids"
  proof -
    have "set ids = (\<lambda>i. ids ! i) ` set ?js" by (metis map_nth set_map)
    then show ?thesis by (simp add: image_image)
  qed
  have "memory_index_insert_sync env shard ids c = Inr (put_index shard ix' c)"
    using b vs(1) r(1) assms(3) by (simp add: memory_index_insert_sync_def backend_of_def)
  moreover have "entries (put_index shard ix' c) = (entries c)(shard := contents ix')"
    by (rule put_index_entries [OF assms(3)])
  ultimately show ?thesis
    using r(4) assms(3) unfolding img
    by (intro that [of "put_index shard ix' c"] put_index_inv [OF inv r(2)] put_index_grows [OF assms(3) r(3)])
      (simp_all add: entries_def)
qed

lemma run_task_total:
  assumes inv: "qv_inv D env c" and env: "env_ok env" and t: "task_ok (shards c) t"
  obtains c' where "run_task env t c = Inr c'" and "qv_inv D env c'" and "grows c c'"
    and "qc_tasks c' = qc_tasks c" and "qc_lru c' = qc_lru c"
    and "\<forall>i. dom (entries c' i) \<subseteq> dom (entries c i) \<union> (\<lambda>i. 1 + i) ` set (tk_ids t)"
proof -
  have ok: "tk_shard t < shards c" "u32_max \<notin> set (tk_ids t)" using t by (simp_all add: task_ok_def)
  obtain c1 where c1: "memory_index_insert_sync env (tk_shard t) (tk_ids t) c = Inr c1" "qv_inv D env c1" "grows c c1"
    "qc_tasks c1 = qc_tasks c" "qc_lru c1 = qc_lru c"
    "dom (entries c1 (tk_shard t)) \<subseteq> dom (entries c (tk_shard t)) \<union> (\<lambda>i. 1 + i) ` set (tk_ids t)"
    "\<forall>i. i \<noteq> tk_shard t \<longrightarrow> entries c1 i = entries c i"
    by (rule insert_sync_total [OF inv env ok])
  have dom1: "\<forall>i. dom (entries c1 i) \<subseteq> dom (entries c i) \<union> (\<lambda>i. 1 + i) ` set (tk_ids t)"
  proof
    show "dom (entries c1 i) \<subseteq> dom (entries c i) \<union> (\<lambda>i. 1 + i) ` set (tk_ids t)" for i
      using c1(6,7) by (cases "i = tk_shard t") auto
  qed
  show ?thesis
  proof (cases "tk_query t = None \<or> \<not> qf_lazy_theta_updates (qc_config c1)")
    case True
    then have "run_task env t c = Inr c1" using c1(1) by (auto simp: run_task_def split: option.splits)
    then show ?thesis using c1(2-5) dom1 by (rule that)
  next
    case False
    then obtain q where q: "tk_query t = Some q" "qf_lazy_theta_updates (qc_config c1)" by auto
    obtain c2 where c2: "update_theta env q (tk_K t) (tk_distance t) c1 = Inr c2" "qv_inv D env c2" "same_entries c1 c2"
      "qc_tasks c2 = qc_tasks c1" "qc_lru c2 = qc_lru c1"
      by (rule update_theta_total [OF c1(2)])
    have "run_task env t c = Inr c2" using c1(1) q c2(1) by (simp add: run_task_def)
    moreover have "grows c c2" using c1(3) c2(3) frame_trans(2,4) by blast
    ultimately show ?thesis
      using c2(2-5) c1(4,5) dom1 by (intro that [of c2]) (simp_all add: same_entries_def)
  qed
qed

lemma grows_shards: "grows c c' \<Longrightarrow> shards c' = shards c" "grows c c' \<Longrightarrow> qc_config c' = qc_config c"
  by (simp_all add: grows_def same_frame_def)

lemma wait_idle_total:
  assumes inv: "qv_inv D env c" and env: "env_ok env"
  obtains c' where "wait_idle env c = Inr c'" and "qv_inv D env c'" and "grows c c'" and "qc_tasks c' = []"
    and "qc_lru c' = qc_lru c"
    and "\<forall>i. dom (entries c' i) \<subseteq> dom (entries c i) \<union> (\<lambda>i. 1 + i) ` (\<Union>t \<in> set (qc_tasks c). set (tk_ids t))"
proof -
  let ?c = "c\<lparr>qc_tasks := []\<rparr>" and ?ts = "en_task_ord env (qc_tasks c)"
  let ?new = "(\<lambda>i. 1 + i) ` (\<Union>t \<in> set (qc_tasks c). set (tk_ids t))"
  let ?P = "\<lambda>c'. qv_inv D env c' \<and> grows c c' \<and> qc_tasks c' = [] \<and> qc_lru c' = qc_lru c \<and>
    (\<forall>i. dom (entries c' i) \<subseteq> dom (entries c i) \<union> ?new)"
  have "mset ?ts = mset (qc_tasks c)" using env by (simp add: env_ok_def)
  then have ts: "set ?ts = set (qc_tasks c)" by (rule mset_eq_setD)
  have start: "?P ?c"
    using inv by (simp add: qv_inv_def grows_def same_frame_def entries_def)
  have step: "\<exists>c2. run_task env t c1 = Inr c2 \<and> ?P c2" if "t \<in> set ?ts" and c1: "?P c1" for t c1
  proof -
    have t: "t \<in> set (qc_tasks c)" using that(1) ts by simp
    have "grows c c1" using c1 by blast
    then have "task_ok (shards c1) t" using qv_invD(4) [OF inv t] by (simp add: grows_shards)
    then obtain c2 where
      c2: "run_task env t c1 = Inr c2" "qv_inv D env c2" "grows c1 c2" "qc_tasks c2 = qc_tasks c1" "qc_lru c2 = qc_lru c1"
        "\<forall>i. dom (entries c2 i) \<subseteq> dom (entries c1 i) \<union> (\<lambda>i. 1 + i) ` set (tk_ids t)"
      by (rule run_task_total [OF conjunct1 [OF c1] env])
    have new: "(\<lambda>i. 1 + i) ` set (tk_ids t) \<subseteq> ?new" using t by blast
    have before: "\<forall>i. dom (entries c1 i) \<subseteq> dom (entries c i) \<union> ?new" using c1 by (elim conjE)
    have "\<forall>i. dom (entries c2 i) \<subseteq> dom (entries c i) \<union> ?new"
    proof
      show "dom (entries c2 i) \<subseteq> dom (entries c i) \<union> ?new" for i
        by (rule subset_trans [OF spec [OF c2(6)] Un_least [OF spec [OF before] subset_trans [OF new Un_upper2]]])
    qed
    moreover have "grows c c1" "qc_tasks c1 = []" "qc_lru c1 = qc_lru c" using c1 by simp_all
    moreover from this(1) have "grows c c2" using c2(3) by (rule frame_trans(2))
    ultimately show ?thesis by (intro exI [of _ c2] conjI c2(1,2)) (simp_all only: c2(4,5) simp_thms)
  qed
  have "\<exists>c'. rfold (run_task env) ?ts ?c = Inr c' \<and> ?P c'"
    by (rule rfold_total [where P = ?P, OF start]) (rule step)
  then show ?thesis by (elim exE conjE) (rule that, simp_all only: wait_idle_def)
qed

section \<open>Reclaiming slots\<close>

text \<open>An operation that only adds entries and keeps the invariant.\<close>

definition extends :: "nat \<Rightarrow> ('v, 'b) environment \<Rightarrow> ('v, 'b) qvcache \<Rightarrow> ('v, 'b) qvcache \<Rightarrow> bool" where
  "extends D env c c' \<longleftrightarrow> qv_inv D env c' \<and> grows c c'"

lemma extendsD: "extends D env c c' \<Longrightarrow> qv_inv D env c'" "extends D env c c' \<Longrightarrow> grows c c'"
    "extends D env c c' \<Longrightarrow> shards c' = shards c"
  by (simp_all add: extends_def grows_shards)

lemma extends_refl: "qv_inv D env c \<Longrightarrow> extends D env c c"
  by (simp add: extends_def)

lemma extends_trans: "extends D env c c1 \<Longrightarrow> extends D env c1 c2 \<Longrightarrow> extends D env c c2"
  unfolding extends_def using frame_trans(2) by blast

lemma extends_same: "qv_inv D env c' \<Longrightarrow> same_entries c c' \<Longrightarrow> extends D env c c'"
  by (simp add: extends_def frame_trans)

lemma consolidate_shard_spec:
  assumes inv: "qv_inv D env c" and env: "env_ok env" and i: "i < shards c"
  obtains ix where "consolidate_shard env i c = Inr (put_index i ix c)" and "shard_ok D (qc_config c) ix"
    and "contents ix = contents (qc_memory_indices c ! i)" and "get_number_of_lazy_deleted_points ix = 0"
    and "vx_tag_to_location ix = vx_tag_to_location (qc_memory_indices c ! i)"
proof -
  let ?ix = "qc_memory_indices c ! i"
  have ok: "shard_ok D (qc_config c) ?ix" by (rule qv_invD(3) [OF inv i])
  show ?thesis
  proof (cases "get_number_of_lazy_deleted_points ?ix = 0")
    case True
    then have "consolidate_shard env i c = Inr (put_index i ?ix c)"
      by (simp add: consolidate_shard_def put_index_def)
    then show ?thesis by (rule that) (simp_all add: ok True)
  next
    case False
    have index: "index_inv D {} ?ix" using ok by (simp add: shard_ok_def)
    have num: "numeric (en_space env)" and ord: "ord_ok (en_ord env)" using env by (simp_all add: env_ok_def)
    have par: "consolidate_params D (en_ord env) (make_index_write_params (qc_config c))"
      by (rule write_params_ok [OF qv_invD(1) [OF inv] ord])
    obtain g empty where "consolidate_deletes (en_ord env) (en_space env) (make_index_write_params (qc_config c)) True ?ix =
        Inr (\<lparr>cr_status = SUCCESS, cr_active_points = card (live ?ix), cr_max_points = vx_max_points ?ix,
              cr_empty_slots = vx_max_points ?ix - card (live ?ix), cr_slots_released = length (vx_delete_set ?ix),
              cr_delete_set_size = 0,
              cr_num_calls_to_process_delete = card (occupied ?ix - set (vx_delete_set ?ix))\<rparr>,
            ?ix\<lparr>vx_delete_set := [], vx_graph_store := g, vx_empty_slots := empty, vx_nd := card (live ?ix)\<rparr>)"
      "index_inv D {} (?ix\<lparr>vx_delete_set := [], vx_graph_store := g, vx_empty_slots := empty, vx_nd := card (live ?ix)\<rparr>)"
      by (rule consolidate_deletes_success [OF index num par])
    then show ?thesis
      using ok False i
      by (intro that [of "?ix\<lparr>vx_delete_set := [], vx_graph_store := g, vx_empty_slots := empty, vx_nd := card (live ?ix)\<rparr>"])
        (simp_all add: consolidate_shard_def shard_ok_def get_number_of_lazy_deleted_points_def)
  qed
qed

lemma put_same_contents:
  assumes "qv_inv D env c" and "i < shards c" and "shard_ok D (qc_config c) ix"
    and "contents ix = contents (qc_memory_indices c ! i)"
  shows "extends D env c (put_index i ix c)" and "same_entries c (put_index i ix c)"
proof -
  show "same_entries c (put_index i ix c)"
    using assms(2,4) by (simp add: same_entries_def put_index_entries) (simp add: entries_def fun_upd_idem)
  then show "extends D env c (put_index i ix c)" by (intro extends_same put_index_inv [OF assms(1,3)])
qed

lemma consolidate_shard_total:
  assumes "qv_inv D env c" and "env_ok env"
  shows "\<exists>c'. consolidate_shard env i c = Inr c' \<and> extends D env c c' \<and> same_entries c c'"
proof (cases "i < shards c")
  case True
  obtain ix where "consolidate_shard env i c = Inr (put_index i ix c)" "shard_ok D (qc_config c) ix"
    "contents ix = contents (qc_memory_indices c ! i)"
    by (rule consolidate_shard_spec [OF assms True])
  then show ?thesis using put_same_contents [OF assms(1) True] by blast
next
  case False
  then show ?thesis using extends_refl [OF assms(1)] by (simp add: consolidate_shard_def)
qed

lemma extends_fold:
  assumes "qv_inv D env c"
    and "\<And>x c1. x \<in> set xs \<Longrightarrow> extends D env c c1 \<Longrightarrow> \<exists>c2. f x c1 = Inr c2 \<and> extends D env c1 c2"
  shows "\<exists>c'. rfold f xs c = Inr c' \<and> extends D env c c'"
proof (rule rfold_total)
  show "extends D env c c" by (rule extends_refl [OF assms(1)])
  show "\<exists>c2. f x c1 = Inr c2 \<and> extends D env c c2" if "x \<in> set xs" "extends D env c c1" for x c1
    using assms(2) [OF that] extends_trans [OF that(2)] by blast
qed

lemma consolidate_dirty_total:
  assumes "qv_inv D env c" and "env_ok env"
  shows "\<exists>c'. consolidate_dirty_shards env c = Inr c' \<and> extends D env c c'"
  unfolding consolidate_dirty_shards_def
  by (rule extends_fold [OF assms(1)]) (use consolidate_shard_total assms(2) extendsD(1) in blast)

lemma wait_idle_extends:
  assumes "qv_inv D env c" and "env_ok env"
  shows "\<exists>c'. wait_idle env c = Inr c' \<and> extends D env c c'"
  by (rule wait_idle_total [OF assms]) (auto simp: extends_def)

lemma reclaim_total:
  assumes "qv_inv D env c" and "env_ok env"
  shows "\<exists>c'. reclaim_insert_slots env i c = Inr c' \<and> extends D env c c'"
proof (cases "shard_has_capacity i c \<and> \<not> shard_has_insert_slots i c")
  case True
  obtain c1 where c1: "wait_idle env c = Inr c1" "extends D env c c1" using wait_idle_extends [OF assms] by blast
  obtain c2 where "consolidate_shard env i c1 = Inr c2" "extends D env c1 c2"
    using consolidate_shard_total [OF extendsD(1) [OF c1(2)] assms(2)] by blast
  then show ?thesis using True c1 extends_trans by (auto simp: reclaim_insert_slots_def)
qed (use extends_refl [OF assms(1)] in \<open>auto simp: reclaim_insert_slots_def\<close>)

section \<open>The recency list\<close>

lemma touch_shard_total:
  assumes inv: "qv_inv D env c" and "i < shards c"
  obtains l where "touch_shard i c = Inr (c\<lparr>qc_lru := l\<rparr>)" and "qv_inv D env (c\<lparr>qc_lru := l\<rparr>)"
    and "lru_get_all_tags l = i # filter (\<lambda>j. j \<noteq> i) (lru_get_all_tags (qc_lru c))"
proof -
  have lru: "lru_inv (qc_lru c)" "i \<in> set (lru_get_all_tags (qc_lru c))"
    using qv_invD(2) [OF inv] assms(2) by (simp_all add: lru_ok_def)
  obtain l where l: "lru_access i (qc_lru c) = Inr (False, l)" "lru_inv l" "lru_capacity l = lru_capacity (qc_lru c)"
    "lru_get_all_tags l = i # filter (\<lambda>j. j \<noteq> i) (lru_get_all_tags (qc_lru c))"
    "set (lru_get_all_tags l) = set (lru_get_all_tags (qc_lru c))"
    by (rule lru.touch_known [OF lru])
  have "lru_ok (c\<lparr>qc_lru := l\<rparr>)" using qv_invD(2) [OF inv] l(2,3,5) by (simp add: lru_ok_def)
  then have "qv_inv D env (c\<lparr>qc_lru := l\<rparr>)" using inv by (simp add: qv_inv_def)
  then show ?thesis using l(1,4) by (intro that [of l]) (simp_all add: touch_shard_def)
qed

lemma lru_update_same [simp]: "same_entries c (c\<lparr>qc_lru := l\<rparr>)" "same_entries c (c\<lparr>qc_active_insert_index_id := i\<rparr>)"
    "same_entries c (c\<lparr>qc_tasks := ts\<rparr>)" "same_entries c (c\<lparr>qc_admit_fifo := f, qc_admit_set := a\<rparr>)"
    "same_entries c (c\<lparr>qc_point_evictions := n\<rparr>)"
    "same_entries c (c\<lparr>qc_pca := p\<rparr>)" "same_entries c (c\<lparr>qc_theta_map := m\<rparr>)"
    "same_entries c (c\<lparr>qc_pca := p, qc_region_invalidations := n\<rparr>)"
  by (simp_all add: same_entries_def same_frame_def entries_def fun_eq_iff)

lemma touch_extends:
  assumes "qv_inv D env c" and "i < shards c"
  shows "\<exists>c'. touch_shard i c = Inr c' \<and> extends D env c c' \<and> hd (lru_get_all_tags (qc_lru c')) = i"
  by (rule touch_shard_total [OF assms]) (auto intro: extends_same)

lemma set_active:
  assumes "qv_inv D env c" and "i < shards c"
  shows "qv_inv D env (c\<lparr>qc_active_insert_index_id := i\<rparr>)"
proof -
  have "lru_ok (c\<lparr>qc_active_insert_index_id := i\<rparr>)" using qv_invD(2) [OF assms(1)] assms(2) by (simp add: lru_ok_def)
  then show ?thesis using assms(1) by (simp add: qv_inv_def)
qed

lemma touch_missing_total:
  assumes inv: "qv_inv D env c" and "i < shards c"
  shows "touch_missing i c = Inr c"
proof -
  have "lru_inv (qc_lru c)" "i \<in> set (lru_get_all_tags (qc_lru c))"
    using qv_invD(2) [OF inv] assms(2) by (simp_all add: lru_ok_def)
  then have "lru_contains (qc_lru c) i" using lru_inv_tag_map_None [of "qc_lru c" i] by (simp add: lru_contains_def)
  then show ?thesis by (simp add: touch_missing_def)
qed

section \<open>Evicting points\<close>

text \<open>The first occurrences of the elements of a list.\<close>

fun firsts :: "'a list \<Rightarrow> 'a list" where
  "firsts [] = []"
| "firsts (x # xs) = x # filter (\<lambda>y. y \<noteq> x) (firsts xs)"

lemma set_firsts [simp]: "set (firsts xs) = set xs"
  by (induction xs) auto

lemma filter_firsts: "filter P (firsts xs) = firsts (filter P xs)"
proof (induction xs)
  case (Cons x xs)
  have "filter P (filter (\<lambda>y. y \<noteq> x) (firsts xs)) = filter (\<lambda>y. y \<noteq> x) (firsts (filter P xs))"
    unfolding Cons.IH [symmetric] filter_filter by (rule filter_cong) auto
  moreover have "filter (\<lambda>y. y \<noteq> x) (firsts (filter P xs)) = firsts (filter P xs)" if "\<not> P x"
    using that by (intro filter_True) auto
  ultimately show ?case by simp
qed simp

lemma pop_victims_spec:
  assumes "pop_victims n fifo adm vs = (vs', fifo', adm')" and "length vs \<le> n"
  shows "vs' = vs @ take (n - length vs) (firsts (filter (\<lambda>t. t \<in> set adm) fifo)) \<and>
    set adm' = set adm - set (take (n - length vs) (firsts (filter (\<lambda>t. t \<in> set adm) fifo)))"
  using assms
proof (induction fifo arbitrary: adm vs)
  case (Cons tag fifo)
  show ?case
  proof (cases "length vs < n \<and> tag \<in> set adm")
    case True
    let ?adm = "removeAll tag adm"
    have "pop_victims n fifo ?adm (vs @ [tag]) = (vs', fifo', adm')" "length (vs @ [tag]) \<le> n"
      using True Cons.prems(1) by simp_all
    note IH = Cons.IH [OF this]
    have "filter (\<lambda>t. t \<in> set ?adm) fifo = filter (\<lambda>t. t \<noteq> tag) (filter (\<lambda>t. t \<in> set adm) fifo)"
      unfolding filter_filter by (rule filter_cong) auto
    then have f: "firsts (filter (\<lambda>t. t \<in> set ?adm) fifo) =
        filter (\<lambda>t. t \<noteq> tag) (firsts (filter (\<lambda>t. t \<in> set adm) fifo))"
      by (simp only: filter_firsts)
    have n: "n - length vs = Suc (n - length (vs @ [tag]))" using True by (simp add: Suc_diff_Suc)
    show ?thesis using IH True unfolding f n by auto
  next
    case False
    then show ?thesis using Cons by (cases "length vs < n") auto
  qed
qed simp

lemma fold_victims: "fold lazy_delete_victim ts st =
    fold (\<lambda>t st. let (r, s) = lazy_delete t (snd st) in (if r = 0 then True else fst st, s)) ts st"
  by (rule fold_cong) (simp_all add: lazy_delete_victim_def fun_eq_iff)

lemma evict_from_shard_spec:
  assumes inv: "qv_inv D env c" and env: "env_ok env" and i: "i < shards c"
  obtains ix where "evict_from_shard env victims i c = Inr (put_index i ix c)" and "shard_ok D (qc_config c) ix"
    and "contents ix = contents (qc_memory_indices c ! i) |` (- set victims)"
proof -
  let ?ix = "qc_memory_indices c ! i"
  have ok: "numeric (en_space env) \<and> shard_ok D (qc_config c) ?ix"
    using env qv_invD(3) [OF inv i] by (simp add: env_ok_def)
  obtain dirty ix1 where ix1: "fold lazy_delete_victim victims (False, ?ix) = (dirty, ix1)" by fastforce
  note del = shard.del_all [OF ok ix1 [unfolded fold_victims]]
  let ?c = "put_index i ix1 c"
  have ok1: "shard_ok D (qc_config c) ix1" using del(1) by blast
  show ?thesis
  proof (cases dirty)
    case False
    then show ?thesis using ix1 i ok1 del(2) by (intro that [of ix1]) (simp_all add: evict_from_shard_def)
  next
    case True
    have inv1: "qv_inv D env ?c" by (rule put_index_inv [OF inv ok1])
    have "i < shards ?c" using i by simp
    from consolidate_shard_spec [OF inv1 env this] obtain ix where
      ix: "consolidate_shard env i ?c = Inr (put_index i ix ?c)" "shard_ok D (qc_config c) ix"
        "contents ix = contents (qc_memory_indices ?c ! i)"
      by auto
    have "put_index i ix ?c = put_index i ix c" "qc_memory_indices ?c ! i = ix1"
      using i by (simp_all add: put_index_def)
    then show ?thesis using True ix1 ix i del(2) by (intro that [of ix]) (simp_all add: evict_from_shard_def)
  qed
qed

lemma evict_shards:
  assumes inv: "qv_inv D env c" and env: "env_ok env" and "set is \<subseteq> {..<shards c}" and "distinct is"
  shows "\<exists>xs. rfold (evict_from_shard env victims) is c = Inr (c\<lparr>qc_memory_indices := xs\<rparr>) \<and>
    qv_inv D env (c\<lparr>qc_memory_indices := xs\<rparr>) \<and> length xs = shards c \<and>
    entries (c\<lparr>qc_memory_indices := xs\<rparr>) = (\<lambda>i. if i \<in> set is then entries c i |` (- set victims) else entries c i)"
  using assms(1,3,4)
proof (induction "is" arbitrary: c)
  case Nil
  then show ?case by (intro exI [of _ "qc_memory_indices c"]) (simp add: entries_def fun_eq_iff)
next
  case (Cons i "is")
  have i: "i < shards c" using Cons.prems(2) by simp
  obtain ix where ix: "evict_from_shard env victims i c = Inr (put_index i ix c)" "shard_ok D (qc_config c) ix"
    "contents ix = contents (qc_memory_indices c ! i) |` (- set victims)"
    by (rule evict_from_shard_spec [OF Cons.prems(1) env i])
  let ?c = "put_index i ix c"
  have "set is \<subseteq> {..<shards ?c}" "distinct is" using Cons.prems(2,3) by auto
  from Cons.IH [OF put_index_inv [OF Cons.prems(1) ix(2)] this] obtain xs where
    xs: "rfold (evict_from_shard env victims) is ?c = Inr (?c\<lparr>qc_memory_indices := xs\<rparr>)"
      "qv_inv D env (?c\<lparr>qc_memory_indices := xs\<rparr>)" "length xs = shards ?c"
      "entries (?c\<lparr>qc_memory_indices := xs\<rparr>) = (\<lambda>i. if i \<in> set is then entries ?c i |` (- set victims) else entries ?c i)"
    by blast
  have c: "?c\<lparr>qc_memory_indices := xs\<rparr> = c\<lparr>qc_memory_indices := xs\<rparr>" by (simp add: put_index_def)
  have "i \<notin> set is" using Cons.prems(3) by simp
  then have "entries (c\<lparr>qc_memory_indices := xs\<rparr>) =
      (\<lambda>j. if j \<in> set (i # is) then entries c j |` (- set victims) else entries c j)"
    using xs(4) ix(3) i unfolding c put_index_entries [OF i] by (auto simp: fun_eq_iff entries_def)
  then show ?case using ix(1) xs(1-3) unfolding c by (intro exI [of _ xs]) simp
qed

lemma evict_oldest_spec:
  assumes inv: "qv_inv D env c" and env: "env_ok env"
  obtains c1 c' where "wait_idle env c = Inr c1" and "extends D env c c1"
    and "evict_oldest_points env n c = Inr (if n = 0 then (0, c) else
      (length (take n (firsts (filter (\<lambda>t. t \<in> set (qc_admit_set c1)) (qc_admit_fifo c1)))), c'))"
    and "qv_inv D env c'" and "same_frame c1 c'"
    and "entries c' = (\<lambda>i. entries c1 i |`
      (- set (take n (firsts (filter (\<lambda>t. t \<in> set (qc_admit_set c1)) (qc_admit_fifo c1))))))"
proof -
  obtain c1 where c1: "wait_idle env c = Inr c1" "extends D env c c1" using wait_idle_extends [OF assms] by blast
  obtain victims fifo adm where pop: "pop_victims n (qc_admit_fifo c1) (qc_admit_set c1) [] = (victims, fifo, adm)"
    by (metis prod_cases3)
  have vs: "victims = take n (firsts (filter (\<lambda>t. t \<in> set (qc_admit_set c1)) (qc_admit_fifo c1)))"
    using pop_victims_spec [OF pop] by simp
  let ?c2 = "c1\<lparr>qc_admit_fifo := fifo, qc_admit_set := adm\<rparr>"
  have inv2: "qv_inv D env ?c2" using extendsD(1) [OF c1(2)] by simp
  have "set [0..<shards ?c2] \<subseteq> {..<shards ?c2}" "distinct [0..<shards ?c2]" by auto
  from evict_shards [OF inv2 env this, of victims] obtain xs where
    xs: "rfold (evict_from_shard env victims) [0..<shards ?c2] ?c2 = Inr (?c2\<lparr>qc_memory_indices := xs\<rparr>)"
      "qv_inv D env (?c2\<lparr>qc_memory_indices := xs\<rparr>)" "length xs = shards ?c2"
      "entries (?c2\<lparr>qc_memory_indices := xs\<rparr>) = (\<lambda>i. if i \<in> set [0..<shards ?c2] then entries ?c2 i |` (- set victims) else entries ?c2 i)"
    by blast
  have e2: "entries ?c2 = entries c1" by (simp add: entries_def fun_eq_iff)
  have e3: "entries (?c2\<lparr>qc_memory_indices := xs\<rparr>) = (\<lambda>i. entries c1 i |` (- set victims))"
    unfolding xs(4) e2 by (auto simp: fun_eq_iff entries_def)
  show ?thesis
  proof (cases "victims = []")
    case True
    then have "evict_oldest_points env n c = Inr (if n = 0 then (0, c) else (length victims, ?c2))"
      using c1(1) pop by (simp add: evict_oldest_points_def)
    moreover have "entries ?c2 = (\<lambda>i. entries c1 i |` (- set victims))"
      unfolding e2 using True by (simp add: fun_eq_iff)
    ultimately show ?thesis
      using inv2 unfolding vs by (intro that [OF c1]) (simp_all add: same_frame_def)
  next
    case False
    let ?c4 = "?c2\<lparr>qc_memory_indices := xs, qc_point_evictions := qc_point_evictions ?c2 + of_nat (length victims)\<rparr>"
    have "evict_oldest_points env n c = Inr (if n = 0 then (0, c) else (length victims, ?c4))"
      using c1(1) pop xs(1) False by (simp add: evict_oldest_points_def)
    moreover have "entries ?c4 = entries (?c2\<lparr>qc_memory_indices := xs\<rparr>)"
      by (simp add: entries_def fun_eq_iff)
    then have "entries ?c4 = (\<lambda>i. entries c1 i |` (- set victims))" unfolding e3 .
    moreover have "qv_inv D env ?c4" using xs(2) by simp
    ultimately show ?thesis
      using xs(3) unfolding vs by (intro that [OF c1]) (simp_all add: same_frame_def)
  qed
qed

section \<open>Choosing a shard\<close>

text \<open>The first of the shards of least load among those with slots.\<close>

definition best_of :: "('v, 'b) qvcache \<Rightarrow> nat \<Rightarrow> (nat \<times> nat) option \<Rightarrow> bool" where
  "best_of c n best \<longleftrightarrow>
     (case best of
        None \<Rightarrow> \<forall>j < n. \<not> shard_has_insert_slots j c
      | Some (i, load) \<Rightarrow> i < n \<and> shard_has_insert_slots i c \<and>
          load = get_number_of_active_vectors (qc_memory_indices c ! i) \<and>
          (\<forall>j < n. shard_has_insert_slots j c \<longrightarrow> load \<le> get_number_of_active_vectors (qc_memory_indices c ! j)) \<and>
          (\<forall>j < i. shard_has_insert_slots j c \<longrightarrow> load < get_number_of_active_vectors (qc_memory_indices c ! j)))"

lemma best_of_fold: "best_of c n (fold (better_shard c) [0..<n] None)"
proof (induction n)
  case (Suc n)
  then show ?case
    by (auto simp: best_of_def better_shard_def Let_def less_Suc_eq split: option.splits)
qed (simp add: best_of_def)

lemma find_shard_spec:
  "case find_shard_with_capacity c of
     None \<Rightarrow> \<forall>j. \<not> shard_has_insert_slots j c
   | Some i \<Rightarrow> i < shards c \<and> shard_has_insert_slots i c \<and>
       (\<forall>j. shard_has_insert_slots j c \<longrightarrow>
          get_number_of_active_vectors (qc_memory_indices c ! i) \<le> get_number_of_active_vectors (qc_memory_indices c ! j))"
proof -
  have "j < shards c" if "shard_has_insert_slots j c" for j using that by (simp add: shard_has_insert_slots_def)
  then show ?thesis
    using best_of_fold [of c "shards c"] unfolding find_shard_with_capacity_def best_of_def
    by (auto split: option.splits)
qed

lemma find_shard_Some: "find_shard_with_capacity c = Some i \<Longrightarrow> i < shards c \<and> shard_has_insert_slots i c"
  using find_shard_spec [of c] by auto

section \<open>Evicting a shard\<close>

lemma fresh_shard_spec:
  assumes inv: "qv_inv D env c" and "i < shards c"
  obtains ix where "fresh_shard env i c = Inr (put_index i ix c)" and "qv_inv D env (put_index i ix c)"
    and "entries (put_index i ix c) = (entries c)(i := Map.empty)" and "get_number_of_active_vectors ix = 0"
    and "get_number_of_lazy_deleted_points ix = 0"
proof -
  have cfg: "qv_config_ok D (qc_config c)" by (rule qv_invD(1) [OF inv])
  then have "0 < qf_points_per_index (qc_config c)" by (simp add: qv_config_ok_def)
  from create_memory_index_ok [OF cfg this, of "en_space env"] obtain ix where
    ix: "create_memory_index (en_space env) (qc_config c) (qf_points_per_index (qc_config c)) = Inr ix"
      "index_inv D {} ix" "vx_max_points ix = qf_points_per_index (qc_config c)" "vx_metric ix = qf_metric (qc_config c)"
      "contents ix = Map.empty" "vx_tag_to_location ix = []" "vx_delete_set ix = []" by metis
  have "shard_ok D (qc_config c) ix" using ix(2-4) by (simp add: shard_ok_def)
  then show ?thesis
    using ix assms(2)
    by (intro that [of ix] put_index_inv [OF inv])
      (simp_all add: fresh_shard_def put_index_entries get_number_of_active_vectors_def
        get_number_of_lazy_deleted_points_def)
qed

lemma lru_last:
  assumes "lru_ok c" and "0 < shards c"
  shows "lru_get_lru_tags 1 (qc_lru c) = [last (lru_get_all_tags (qc_lru c))]"
    and "last (lru_get_all_tags (qc_lru c)) < shards c" and "length (lru_get_all_tags (qc_lru c)) = shards c"
proof -
  let ?order = "lru_get_all_tags (qc_lru c)"
  have set: "set ?order = {..<shards c}" and inv: "lru_inv (qc_lru c)" using assms(1) by (simp_all add: lru_ok_def)
  show "length ?order = shards c"
    using distinct_card [OF lru_inv_distinct [OF inv]] unfolding set by simp
  then have ne: "?order \<noteq> []" using assms(2) by (metis length_0_conv less_irrefl)
  then show "lru_get_lru_tags 1 (qc_lru c) = [last ?order]"
    by (cases "order_list (qc_lru c)" rule: rev_cases) (simp_all add: lru_get_lru_tags_def lru_get_all_tags_def)
  show "last ?order < shards c" using last_in_set [OF ne] unfolding set by simp
qed

lemma filter_not_last: "xs \<noteq> [] \<Longrightarrow> distinct xs \<Longrightarrow> filter (\<lambda>j. j \<noteq> last xs) xs = butlast xs"
  by (cases xs rule: rev_cases) (auto simp: filter_id_conv)

lemma perform_eviction_spec:
  assumes inv: "qv_inv D env c"
  obtains c' where "perform_eviction env c = Inr c'" and "qv_inv D env c'"
    and "same_frame (c\<lparr>qc_eviction_in_progress := False\<rparr>) c'"
    and "qc_tasks c' = qc_tasks c"
    and "shards c = 1 \<longrightarrow> entries c' = entries c \<and> qc_active_insert_index_id c' = qc_active_insert_index_id c"
    and "shards c \<noteq> 1 \<longrightarrow> (let victim = last (lru_get_all_tags (qc_lru c)) in
      entries c' = (entries c)(victim := Map.empty) \<and> qc_active_insert_index_id c' = victim \<and>
      lru_get_all_tags (qc_lru c') = victim # butlast (lru_get_all_tags (qc_lru c)) \<and>
      shard_has_insert_slots victim c')"
proof -
  have cfg: "qv_config_ok D (qc_config c)" by (rule qv_invD(1) [OF inv])
  have lru: "lru_ok c" and pos: "0 < shards c" using qv_invD(2) [OF inv] by (auto simp: lru_ok_def)
  note last = lru_last [OF lru pos]
  let ?order = "lru_get_all_tags (qc_lru c)" and ?v = "last (lru_get_all_tags (qc_lru c))"
  show ?thesis
  proof (cases "shards c = 1")
    case True
    then have "perform_eviction env c = Inr (c\<lparr>qc_eviction_in_progress := False\<rparr>)"
      using last(1,3) by (simp add: perform_eviction_def Let_def)
    then show ?thesis
      using inv True by (intro that [of "c\<lparr>qc_eviction_in_progress := False\<rparr>"]) (simp_all add: entries_def fun_eq_iff)
  next
    case False
    obtain ix where ix: "fresh_shard env ?v c = Inr (put_index ?v ix c)" "qv_inv D env (put_index ?v ix c)"
      "entries (put_index ?v ix c) = (entries c)(?v := Map.empty)" "get_number_of_active_vectors ix = 0"
      "get_number_of_lazy_deleted_points ix = 0"
      by (rule fresh_shard_spec [OF inv last(2)])
    let ?c2 = "put_index ?v ix c\<lparr>qc_active_insert_index_id := ?v\<rparr>"
    have v: "?v < shards (put_index ?v ix c)" using last(2) by simp
    have inv2: "qv_inv D env ?c2" by (rule set_active [OF ix(2) v])
    have v2: "?v < shards ?c2" using last(2) by simp
    obtain l where l: "touch_shard ?v ?c2 = Inr (?c2\<lparr>qc_lru := l\<rparr>)" "qv_inv D env (?c2\<lparr>qc_lru := l\<rparr>)"
      "lru_get_all_tags l = ?v # filter (\<lambda>j. j \<noteq> ?v) (lru_get_all_tags (qc_lru ?c2))"
      by (rule touch_shard_total [OF inv2 v2])
    let ?c3 = "?c2\<lparr>qc_lru := l\<rparr>"
    have n: "qf_number_of_mini_indexes (qc_config ?c3) = shards ?c3" using lru by (simp add: lru_ok_def)
    have run: "rfold touch_missing is ?c3 = Inr ?c3" if "set is \<subseteq> {..<shards ?c3}" for "is"
      using that by (induction "is") (simp_all add: touch_missing_total [OF l(2)])
    have touch: "rfold touch_missing [0..<shards ?c3] ?c3 = Inr ?c3" by (rule run) auto
    have "?order \<noteq> []" using last(3) pos by (metis length_0_conv less_irrefl)
    moreover have "distinct ?order" by (rule lru_inv_distinct) (use lru in \<open>simp add: lru_ok_def\<close>)
    ultimately have "filter (\<lambda>j. j \<noteq> ?v) ?order = butlast ?order" by (rule filter_not_last)
    then have order: "lru_get_all_tags l = ?v # butlast ?order" using l(3) by simp
    let ?c4 = "?c3\<lparr>qc_eviction_in_progress := False\<rparr>"
    have "perform_eviction env c = Inr ?c4"
      using last(1,3) False ix(1) l(1) touch n by (simp add: perform_eviction_def Let_def del: upt_Suc)
    moreover have "entries ?c4 = entries (put_index ?v ix c)" by (simp add: entries_def fun_eq_iff)
    then have "entries ?c4 = (entries c)(?v := Map.empty)" unfolding ix(3) .
    moreover have "shard_has_insert_slots ?v ?c4"
      using last(2) ix(4,5) cfg by (simp add: shard_has_insert_slots_def put_index_def qv_config_ok_def)
    ultimately show ?thesis
      using l(2) order False by (intro that [of ?c4]) (simp_all add: same_frame_def put_index_def)
  qed
qed

section \<open>Where a miss is admitted\<close>

lemma grows_frame: "grows c c' \<Longrightarrow> same_frame c c'"
  by (simp add: grows_def)

lemma slots_update [simp]:
  "shard_has_insert_slots i (c\<lparr>qc_lru := l\<rparr>) = shard_has_insert_slots i c"
  "shard_has_insert_slots i (c\<lparr>qc_active_insert_index_id := j\<rparr>) = shard_has_insert_slots i c"
  by (simp_all add: shard_has_insert_slots_def)

text \<open>Either no entry is lost, or no shard had a slot and the least recently used one was emptied.\<close>

definition admits :: "nat \<Rightarrow> ('v, 'b) environment \<Rightarrow> ('v, 'b) qvcache \<Rightarrow> nat \<Rightarrow> ('v, 'b) qvcache \<Rightarrow> bool" where
  "admits D env c shard c' \<longleftrightarrow> qv_inv D env c' \<and> same_frame c c' \<and> shard < shards c' \<and>
     (grows c c' \<or> (\<exists>c1 c2. extends D env c c1 \<and> (\<forall>j. \<not> shard_has_insert_slots j c1) \<and> extends D env c1 c2 \<and>
        1 < shards c \<and> shard = last (lru_get_all_tags (qc_lru c2)) \<and> entries c' = (entries c2)(shard := Map.empty))) \<and>
     (1 < shards c \<longrightarrow> shard_has_insert_slots shard c')"

lemma admits_grows:
  assumes "extends D env c c'" and "shard < shards c" and "shard_has_insert_slots shard c'"
  shows "admits D env c shard c'"
  using assms extendsD [OF assms(1)] grows_frame by (auto simp: admits_def)

lemma ensure_admit_shard_spec:
  assumes inv: "qv_inv D env c" and env: "env_ok env" and quiet: "\<not> qc_eviction_in_progress c"
  obtains shard c' where "ensure_admit_shard env c = Inr (shard, c')" and "admits D env c shard c'"
proof -
  let ?shard = "qc_active_insert_index_id c"
  have act: "?shard < shards c" using qv_invD(2) [OF inv] by (simp add: lru_ok_def)
  obtain c1 where c1: "reclaim_insert_slots env ?shard c = Inr c1" "extends D env c c1"
    using reclaim_total [OF inv env] by blast
  show ?thesis
  proof (cases "shard_has_insert_slots ?shard c1")
    case True
    then have "ensure_admit_shard env c = Inr (?shard, c1)" using c1(1) by (simp add: ensure_admit_shard_def)
    then show ?thesis by (rule that [OF _ admits_grows [OF c1(2) act True]])
  next
    case full: False
    let ?f = "\<lambda>i c. if i \<noteq> ?shard then reclaim_insert_slots env i c else Inr c"
    have "\<exists>c2. rfold ?f [0..<shards c1] c1 = Inr c2 \<and> extends D env c1 c2"
    proof (rule extends_fold [OF extendsD(1) [OF c1(2)]])
      show "\<exists>c2. ?f i d = Inr c2 \<and> extends D env d c2" if "extends D env c1 d" for i d
        using reclaim_total [OF extendsD(1) [OF that] env] extends_refl [OF extendsD(1) [OF that]] by auto
    qed
    then obtain c2 where c2: "rfold ?f [0..<shards c1] c1 = Inr c2" "extends D env c1 c2" by blast
    have ext2: "extends D env c c2" by (rule extends_trans [OF c1(2) c2(2)])
    show ?thesis
    proof (cases "find_shard_with_capacity c2")
      case (Some spare)
      note spare = find_shard_Some [OF Some]
      let ?c2 = "c2\<lparr>qc_active_insert_index_id := spare\<rparr>"
      have inv2: "qv_inv D env ?c2" by (rule set_active [OF extendsD(1) [OF ext2]]) (use spare in simp)
      have sp2: "spare < shards ?c2" using spare by simp
      obtain l where l: "touch_shard spare ?c2 = Inr (?c2\<lparr>qc_lru := l\<rparr>)" "qv_inv D env (?c2\<lparr>qc_lru := l\<rparr>)"
        by (rule touch_shard_total [OF inv2 sp2])
      have "ensure_admit_shard env c = Inr (spare, ?c2\<lparr>qc_lru := l\<rparr>)"
        using c1(1) full c2(1) Some l(1) by (simp add: ensure_admit_shard_def)
      moreover have "same_entries c2 (?c2\<lparr>qc_lru := l\<rparr>)"
        by (rule frame_trans(3) [OF lru_update_same(2) lru_update_same(1)])
      then have "extends D env c (?c2\<lparr>qc_lru := l\<rparr>)" by (rule extends_trans [OF ext2 extends_same [OF l(2)]])
      then have "admits D env c spare (?c2\<lparr>qc_lru := l\<rparr>)"
        by (rule admits_grows) (use spare extendsD(3) [OF ext2] in simp_all)
      ultimately show ?thesis by (rule that)
    next
      case None
      then have none: "\<forall>j. \<not> shard_has_insert_slots j c2" using find_shard_spec [of c2] by simp
      obtain c3 where c3: "wait_idle env c2 = Inr c3" "extends D env c2 c3"
        using wait_idle_extends [OF extendsD(1) [OF ext2] env] by blast
      have ext3: "extends D env c c3" by (rule extends_trans [OF ext2 c3(2)])
      have frame3: "same_frame c c3" by (rule grows_frame [OF extendsD(2) [OF ext3]])
      then have flag: "\<not> qc_eviction_in_progress c3" using quiet by (simp add: same_frame_def)
      let ?c3 = "c3\<lparr>qc_eviction_in_progress := True\<rparr>"
      have inv3: "qv_inv D env ?c3" using extendsD(1) [OF ext3] by simp
      obtain c4 where c4: "perform_eviction env ?c3 = Inr c4" "qv_inv D env c4"
        "same_frame (?c3\<lparr>qc_eviction_in_progress := False\<rparr>) c4" "qc_tasks c4 = qc_tasks ?c3"
        "shards ?c3 = 1 \<longrightarrow> entries c4 = entries ?c3 \<and> qc_active_insert_index_id c4 = qc_active_insert_index_id ?c3"
        "shards ?c3 \<noteq> 1 \<longrightarrow> (let victim = last (lru_get_all_tags (qc_lru ?c3)) in
          entries c4 = (entries ?c3)(victim := Map.empty) \<and> qc_active_insert_index_id c4 = victim \<and>
          lru_get_all_tags (qc_lru c4) = victim # butlast (lru_get_all_tags (qc_lru ?c3)) \<and>
          shard_has_insert_slots victim c4)"
        by (rule perform_eviction_spec [OF inv3])
      have same3: "?c3\<lparr>qc_eviction_in_progress := False\<rparr> = c3" using flag by simp
      have e3: "entries ?c3 = entries c3" "shards ?c3 = shards c" "qc_lru ?c3 = qc_lru c3"
        using frame3 by (simp_all add: entries_def fun_eq_iff same_frame_def)
      have frame4: "same_frame c c4" using frame_trans(1) [OF frame3] c4(3) unfolding same3 .
      have act4: "qc_active_insert_index_id c4 < shards c4" using qv_invD(2) [OF c4(2)] by (simp add: lru_ok_def)
      have ensure: "ensure_admit_shard env c = Inr (qc_active_insert_index_id c4, c4)"
        using c1(1) full c2(1) None c3(1) flag c4(1) by (simp add: ensure_admit_shard_def)
      show ?thesis
      proof (cases "shards c = 1")
        case True
        then have "entries c4 = entries c3" using c4(5) e3 by simp
        then have "grows c c4" using extendsD(2) [OF ext3] frame4 by (simp add: grows_def)
        then have "admits D env c (qc_active_insert_index_id c4) c4"
          using c4(2) frame4 act4 True by (simp add: admits_def)
        with ensure show ?thesis by (rule that)
      next
        case False
        then have n: "1 < shards c" using act by linarith
        have "entries c4 = (entries c3)(qc_active_insert_index_id c4 := Map.empty)"
          "qc_active_insert_index_id c4 = last (lru_get_all_tags (qc_lru c3))"
          "shard_has_insert_slots (qc_active_insert_index_id c4) c4"
          using c4(6) False unfolding e3 Let_def by simp_all
        then have "admits D env c (qc_active_insert_index_id c4) c4"
          using c4(2) frame4 act4 n ext2 none c3(2) unfolding admits_def by blast
        with ensure show ?thesis by (rule that)
      qed
    qed
  qed
qed

lemma make_room_total:
  assumes inv: "qv_inv D env c" and env: "env_ok env"
  shows "\<exists>best c'. make_room_for_admit env n c = Inr (best, c') \<and> qv_inv D env c' \<and> same_frame c c' \<and>
    (best = None \<longleftrightarrow> (\<forall>j. \<not> shard_has_insert_slots j c')) \<and> (\<forall>i. best = Some i \<longrightarrow> shard_has_insert_slots i c')"
proof -
  obtain c1 where c1: "wait_idle env c = Inr c1" "extends D env c c1" using wait_idle_extends [OF assms] by blast
  obtain c2 where c2: "consolidate_dirty_shards env c1 = Inr c2" "extends D env c1 c2"
    using consolidate_dirty_total [OF extendsD(1) [OF c1(2)] env] by blast
  have ext2: "extends D env c c2" by (rule extends_trans [OF c1(2) c2(2)])
  show ?thesis
  proof (cases "find_shard_with_capacity c2")
    case (Some i)
    then show ?thesis
      using c1(1) c2(1) find_shard_Some [OF Some] extendsD(1) [OF ext2] grows_frame [OF extendsD(2) [OF ext2]]
      by (intro exI [of _ "Some i"] exI [of _ c2]) (auto simp: make_room_for_admit_def)
  next
    case None
    obtain c3 c4 where c4: "extends D env c2 c3" "qv_inv D env c4" "same_frame c3 c4"
      "\<exists>k. evict_oldest_points env n c2 = Inr (if n = 0 then (0, c2) else (k, c4))"
      using evict_oldest_spec [OF extendsD(1) [OF ext2] env, of n] by metis
    obtain k c5 where c5: "evict_oldest_points env n c2 = Inr (k, c5)" "qv_inv D env c5" "same_frame c2 c5"
      using c4 frame_trans(1) [OF grows_frame [OF extendsD(2) [OF c4(1)]]] extendsD(1) [OF ext2]
      by (cases "n = 0") (auto intro: frame_refl)
    have "same_frame c c5" by (rule frame_trans(1) [OF grows_frame [OF extendsD(2) [OF ext2]] c5(3)])
    then show ?thesis
      using c1(1) c2(1) None c5(1,2) find_shard_spec [of c5]
      by (intro exI [of _ "find_shard_with_capacity c5"] exI [of _ c5])
        (auto simp: make_room_for_admit_def split: option.splits)
  qed
qed

end
