(* ===== verification/QvSearch.thy ===== *)
theory QvSearch
  imports QvRoom
begin

text \<open>
  The reads and writes of the cache (\<open>include/qvcache/qvcache.h\<close>): the test of a hit, the merge of the results of
  several mini-indexes, sequential and parallel search, the miss path, and the data plane (\<open>insert\<close>, \<open>remove\<close>).
  A search returns its answer as a list of pairs of a memory tag (backend id + 1) and a distance: the first \<open>K\<close>
  entries of the caller's arrays. Vectors of the results are never filled in (\<open>res\<close> stays empty) and are left out.
\<close>

section \<open>The test of a hit\<close>

definition is_deleted_id :: "u32 \<Rightarrow> ('v, 'b) qvcache \<Rightarrow> bool" where
  "is_deleted_id ident c \<longleftrightarrow> ident \<in> set (qc_deleted_ids c)"

definition has_k_live_results :: "nat \<Rightarrow> u32 list \<Rightarrow> nat \<Rightarrow> ('v, 'b) qvcache \<Rightarrow> bool" where
  "has_k_live_results K tags num_results c \<longleftrightarrow>
     K \<le> num_results \<and>
     list_all (\<lambda>tag. tag \<noteq> 0 \<and> tag \<noteq> u32_max \<and> \<not> is_deleted_id (tag - 1) c) (take K tags)"

definition isHit ::
  "('v, 'b) environment \<Rightarrow> 'v \<Rightarrow> nat \<Rightarrow> fp list \<Rightarrow> u32 list \<Rightarrow> nat \<Rightarrow> ('v, 'b) qvcache \<Rightarrow>
   (bool \<times> ('v, 'b) qvcache) result" where
  "isHit env query K distances tags num_results c =
     (if \<not> has_k_live_results K tags num_results c then Inr (False, c)
      else if qf_use_regional_theta (qc_config c)
      then case qc_pca c of
             None \<Rightarrow> Inl (Undefined ''null pca_utils'')
           | Some s \<Rightarrow>
               rbind (pca_isHit (en_project env) query K (Some distances) (get_number_of_vectors_in_memory_index c)
                        (qf_deviation_factor (qc_config c)) s)
                 (\<lambda>(b, s'). Inr (b, c\<lparr>qc_pca := Some s'\<rparr>))
      else if get_number_of_vectors_in_memory_index c < K \<or> K = 0 then Inr (False, c)
      else let (threshold, m) = um_at (Fin 0) K (qc_theta_map c); c1 = c\<lparr>qc_theta_map := m\<rparr>
           in if is_uninitialized_theta (qf_metric (qc_config c)) threshold then Inr (False, c1)
              else rbind (dist_at distances (K - 1)) (\<lambda>cache_distance.
                     Inr (within_tolerance (qf_deviation_factor (qc_config c)) threshold cache_distance, c1)))"

type_synonym answer = "(u32 \<times> fp) list"

definition isHit_on ::
  "('v, 'b) environment \<Rightarrow> 'v \<Rightarrow> nat \<Rightarrow> answer \<Rightarrow> ('v, 'b) qvcache \<Rightarrow> (bool \<times> ('v, 'b) qvcache) result" where
  "isHit_on env query K results c = isHit env query K (map snd results) (map fst results) (length results) c"

section \<open>Merging\<close>

text \<open>\<open>tag_to_best\<close>: for each tag the best distance and the index it came from.\<close>

definition keep_best :: "nat \<Rightarrow> u32 \<times> fp \<Rightarrow> (u32 \<times> fp \<times> nat) list \<Rightarrow> (u32 \<times> fp \<times> nat) list" where
  "keep_best index_id r best =
     (case map_of best (fst r) of
        None \<Rightarrow> um_put (fst r) (snd r, index_id) best
      | Some (existing_dist, _) \<Rightarrow>
          if fp_lt (snd r) existing_dist then um_put (fst r) (snd r, index_id) best else best)"

definition merge_index :: "answer list \<Rightarrow> nat \<Rightarrow> (u32 \<times> fp \<times> nat) list \<Rightarrow> (u32 \<times> fp \<times> nat) list" where
  "merge_index all_results index_id best =
     (if index_id \<ge> length all_results then best else fold (keep_best index_id) (all_results ! index_id) best)"

definition count_source :: "u32 \<times> fp \<times> nat \<Rightarrow> (nat \<times> nat) list \<Rightarrow> (nat \<times> nat) list" where
  "count_source r counts = (let (n, m) = um_at 0 (snd (snd r)) counts in um_put (snd (snd r)) (n + 1) m)"

definition merge_and_rerank_results ::
  "('v, 'b) environment \<Rightarrow> answer list \<Rightarrow> nat list \<Rightarrow> nat \<Rightarrow> answer \<times> nat list" where
  "merge_and_rerank_results env all_results index_ids K =
     (let tag_to_best = fold (merge_index all_results) index_ids [];
          merged_candidates = sort_key (\<lambda>r. fst (snd r)) (en_merge_ord env tag_to_best);
          top = take K merged_candidates;
          contributions = sort_key snd (en_count_ord env (fold count_source top []))
      in (map (\<lambda>r. (fst r, fst (snd r))) top, map fst contributions))"

section \<open>Searching the mini-indexes\<close>

definition search_index ::
  "('v, 'b) environment \<Rightarrow> nat \<Rightarrow> 'v \<Rightarrow> nat \<Rightarrow> ('v, 'b) qvcache \<Rightarrow> answer result" where
  "search_index env index_id query K c =
     rbind (index_at index_id c) (\<lambda>index.
       search_with_tags (en_space env) index query K (qf_memory_L (qc_config c)) K)"

definition search_single_index ::
  "('v, 'b) environment \<Rightarrow> nat \<Rightarrow> 'v \<Rightarrow> nat \<Rightarrow> ('v, 'b) qvcache \<Rightarrow> (answer option \<times> ('v, 'b) qvcache) result" where
  "search_single_index env index_id query K c =
     rbind (index_at index_id c) (\<lambda>index.
       if get_number_of_active_vectors index > 0
       then rbind (search_index env index_id query K c) (\<lambda>results.
            rbind (isHit_on env query K results c) (\<lambda>(is_hit, c1).
              if is_hit then rbind (touch_shard index_id c1) (\<lambda>c2. Inr (Some results, c2)) else Inr (None, c1)))
       else Inr (None, c))"

text \<open>What both strategies do with the results. \<open>Some\<close> is a hit with its answer, of which the first \<open>K\<close> are copied.\<close>

definition hit_single ::
  "('v, 'b) environment \<Rightarrow> 'v \<Rightarrow> nat \<Rightarrow> answer list \<Rightarrow> nat \<Rightarrow> ('v, 'b) qvcache \<Rightarrow>
   (answer option \<times> ('v, 'b) qvcache) result" where
  "hit_single env query K all_results index_id c =
     (if index_id < length all_results \<and> K \<le> length (all_results ! index_id)
      then rbind (isHit_on env query K (all_results ! index_id) c) (\<lambda>(is_hit, c1).
             if is_hit
             then rbind (touch_shard index_id c1) (\<lambda>c2. Inr (Some (take K (all_results ! index_id)), c2))
             else Inr (None, c1))
      else Inr (None, c))"

definition hit_merged ::
  "('v, 'b) environment \<Rightarrow> 'v \<Rightarrow> nat \<Rightarrow> answer list \<Rightarrow> nat list \<Rightarrow> ('v, 'b) qvcache \<Rightarrow>
   (answer option \<times> ('v, 'b) qvcache) result" where
  "hit_merged env query K all_results searched c =
     (let (merged, contributing) = merge_and_rerank_results env all_results searched K
      in if K \<le> length merged
         then rbind (isHit_on env query K merged c) (\<lambda>(is_hit, c1).
                if is_hit then rbind (rfold touch_shard contributing c1) (\<lambda>c2. Inr (Some (take K merged), c2))
                else Inr (None, c1))
         else Inr (None, c))"

definition hit_fast_path ::
  "('v, 'b) environment \<Rightarrow> 'v \<Rightarrow> nat \<Rightarrow> answer list \<Rightarrow> nat list \<Rightarrow> ('v, 'b) qvcache \<Rightarrow>
   (answer option \<times> ('v, 'b) qvcache) result" where
  "hit_fast_path env query K all_results searched c =
     (if length searched = 1 then hit_single env query K all_results (hd searched) c else Inr (None, c))"

text \<open>\<open>first_hit f g\<close>: \<open>g\<close> runs only when \<open>f\<close> was no hit (the early returns).\<close>

definition or_else ::
  "('s \<Rightarrow> ('a option \<times> 's) result) \<Rightarrow> ('s \<Rightarrow> ('a option \<times> 's) result) \<Rightarrow> 's \<Rightarrow> ('a option \<times> 's) result" where
  "or_else f g c = rbind (f c) (\<lambda>(r, c1). case r of Some a \<Rightarrow> Inr (Some a, c1) | None \<Rightarrow> g c1)"

text \<open>The results of the shards a loop visits, and the ids of the searched ones.\<close>

definition collect_results ::
  "('v, 'b) environment \<Rightarrow> 'v \<Rightarrow> nat \<Rightarrow> ('v, 'b) qvcache \<Rightarrow> nat \<Rightarrow> answer list \<times> nat list \<Rightarrow> (answer list \<times> nat list) result" where
  "collect_results env query K c index_id st =
     (if index_id \<ge> length (qc_memory_indices c) then Inr st
      else if get_number_of_active_vectors (qc_memory_indices c ! index_id) > 0
      then rbind (search_index env index_id query K c) (\<lambda>results.
             Inr ((fst st)[index_id := results], snd st @ [index_id]))
      else Inr st)"

fun first_single_hit ::
  "('v, 'b) environment \<Rightarrow> 'v \<Rightarrow> nat \<Rightarrow> answer list \<Rightarrow> nat list \<Rightarrow> nat list \<Rightarrow> ('v, 'b) qvcache \<Rightarrow>
   (answer option \<times> ('v, 'b) qvcache) result" where
  "first_single_hit env query K all_results searched [] c = Inr (None, c)"
| "first_single_hit env query K all_results searched (index_id # lru_order) c =
     (if index_id \<notin> set searched then first_single_hit env query K all_results searched lru_order c
      else or_else (hit_single env query K all_results index_id)
                   (first_single_hit env query K all_results searched lru_order) c)"

definition parallel_search_memory_indices ::
  "('v, 'b) environment \<Rightarrow> 'v \<Rightarrow> nat \<Rightarrow> ('v, 'b) qvcache \<Rightarrow> (answer option \<times> ('v, 'b) qvcache) result" where
  "parallel_search_memory_indices env query K c =
     (let n = qf_number_of_mini_indexes (qc_config c);
          active = (\<lambda>i. get_number_of_active_vectors (qc_memory_indices c ! i));
          occ = filter (\<lambda>i. active i > 0) [0..<n];
          fullest = fold (\<lambda>i f. if active (occ ! i) > active (occ ! f) then i else f) [1..<length occ] 0;
          jobs = (if fullest \<noteq> 0 then occ[0 := occ ! fullest, fullest := occ ! 0] else occ)
      in if n > length (qc_memory_indices c) then Inl (Undefined ''memory_indices out of range'')
         else if occ = [] then Inr (None, c)
         else if length jobs = 1 then search_single_index env (hd jobs) query K c
         else rbind (rfold (collect_results env query K c) jobs (replicate n [], [])) (\<lambda>(all_results, _).
                let searched = filter (\<lambda>i. all_results ! i \<noteq> []) [0..<n]
                in or_else (hit_fast_path env query K all_results searched)
                           (hit_merged env query K all_results searched) c))"

section \<open>The miss path\<close>

definition ids_to_insert :: "u32 list \<Rightarrow> ('v, 'b) qvcache \<Rightarrow> u32 list" where
  "ids_to_insert tags c = filter (\<lambda>t. t \<noteq> u32_max \<and> t \<notin> set (qc_deleted_ids c)) tags"

definition submit_task :: "'v pool_task \<Rightarrow> ('v, 'b) qvcache \<Rightarrow> ('v, 'b) qvcache" where
  "submit_task t c = c\<lparr>qc_tasks := qc_tasks c @ [t]\<rparr>"

definition admit_miss_neighbors ::
  "('v, 'b) environment \<Rightarrow> nat \<Rightarrow> u32 list \<Rightarrow> ('v, 'b) qvcache \<Rightarrow> ('v, 'b) qvcache result" where
  "admit_miss_neighbors env n_admit tags c =
     (let ids = ids_to_insert (take n_admit tags) c in
      rbind (assign_write_shard env n_admit c) (\<lambda>(shard, c1).
        case shard of
          Some i \<Rightarrow>
            if shard_has_insert_slots i c1 \<and> ids \<noteq> []
            then Inr (submit_task \<lparr>tk_shard = i, tk_ids = ids, tk_K = 0, tk_distance = Fin 0, tk_query = None\<rparr> c1)
            else Inr c1
        | None \<Rightarrow> Inr c1))"

definition handle_backend_miss ::
  "('v, 'b) environment \<Rightarrow> 'v \<Rightarrow> nat \<Rightarrow> ('v, 'b) qvcache \<Rightarrow> (answer \<times> ('v, 'b) qvcache) result" where
  "handle_backend_miss env query K c =
     rbind (backend_of c) (\<lambda>b.
     rbind (en_search env b query K) (\<lambda>(tags, dists).
     let ids = ids_to_insert (take K tags) c in
     rbind (ensure_admit_shard env c) (\<lambda>(current_active_id, c1).
     rbind (if K > 0 then dist_at dists (K - 1) else Inr (Fin 0)) (\<lambda>kth.
     rbind (if qf_lazy_theta_updates (qc_config c1) then Inr c1 else update_theta env query K kth c1) (\<lambda>c2.
     let task = \<lparr>tk_shard = current_active_id, tk_ids = ids, tk_K = K, tk_distance = kth,
                 tk_query = (if qf_lazy_theta_updates (qc_config c1) then Some query else None)\<rparr>
     in Inr (zip (map (\<lambda>t. t + 1) (take K tags)) dists, submit_task task c2))))))"

definition search_sequential ::
  "('v, 'b) environment \<Rightarrow> 'v \<Rightarrow> nat \<Rightarrow> ('v, 'b) qvcache \<Rightarrow> (bool \<times> answer \<times> ('v, 'b) qvcache) result" where
  "search_sequential env query K c =
     (let lru_order = lru_get_all_tags (qc_lru c);
          n = qf_number_of_mini_indexes (qc_config c)
      in rbind (rfold (collect_results env query K c) lru_order (replicate n [], [])) (\<lambda>(all_results, searched).
         rbind (or_else (hit_fast_path env query K all_results searched)
                (or_else (hit_merged env query K all_results searched)
                         (first_single_hit env query K all_results searched lru_order)) c) (\<lambda>(r, c1).
           case r of
             Some results \<Rightarrow> Inr (True, results, c1)
           | None \<Rightarrow> rbind (handle_backend_miss env query K c1) (\<lambda>(results, c2). Inr (False, results, c2)))))"

text \<open>\<open>search_pool\<close> exists when the constructor made one.\<close>

definition has_search_pool :: "qv_config \<Rightarrow> bool" where
  "has_search_pool qf \<longleftrightarrow> qf_number_of_mini_indexes qf > 1 \<and>
     min (qf_max_search_threads qf) (qf_number_of_mini_indexes qf) > 1"

definition qv_search ::
  "('v, 'b) environment \<Rightarrow> 'v \<Rightarrow> nat \<Rightarrow> ('v, 'b) qvcache \<Rightarrow> (bool \<times> answer \<times> ('v, 'b) qvcache) result" where
  "qv_search env query K c =
     (if qc_strategy c = PARALLEL \<and> has_search_pool (qc_config c)
      then rbind (parallel_search_memory_indices env query K c) (\<lambda>(r, c1).
             case r of
               Some results \<Rightarrow> Inr (True, results, c1)
             | None \<Rightarrow> rbind (handle_backend_miss env query K c1) (\<lambda>(results, c2). Inr (False, results, c2)))
      else search_sequential env query K c)"

section \<open>The data plane\<close>

definition insert_point_into_shard ::
  "('v, 'b) environment \<Rightarrow> nat \<Rightarrow> u32 \<Rightarrow> 'v \<Rightarrow> ('v, 'b) qvcache \<Rightarrow> ('v, 'b) qvcache result" where
  "insert_point_into_shard env shard backend_id vec c =
     (if shard \<ge> length (qc_memory_indices c) \<or> is_deleted_id backend_id c then Inr c
      else if \<not> shard_has_insert_slots shard c then Inr c
      else let mem_tag = 1 + backend_id
           in rbind (insert_point (en_space env) vec mem_tag (qc_memory_indices c ! shard)) (\<lambda>(ret, index).
                let c1 = put_index shard index c
                in Inr (if ret = 0 then note_admitted_tag mem_tag c1 else c1)))"

definition try_admit_data_vector ::
  "('v, 'b) environment \<Rightarrow> u32 \<Rightarrow> 'v option \<Rightarrow> ('v, 'b) qvcache \<Rightarrow> (bool \<times> ('v, 'b) qvcache) result" where
  "try_admit_data_vector env ident vector c =
     (case vector of
        None \<Rightarrow> Inr (False, c)
      | Some vec \<Rightarrow>
          let active = qc_active_insert_index_id c in
          rbind (reclaim_insert_slots env active c) (\<lambda>c1.
            case (if shard_has_insert_slots active c1 then Some active else find_shard_with_capacity c1) of
              None \<Rightarrow> Inr (False, c1)
            | Some shard \<Rightarrow>
                rbind (insert_point_into_shard env shard ident vec c1) (\<lambda>c2.
                rbind (touch_shard shard c2) (\<lambda>c3. Inr (True, c3)))))"

definition backend_write ::
  "(('v, 'b) environment \<Rightarrow> 'b \<Rightarrow> 'b result) \<Rightarrow> ('v, 'b) environment \<Rightarrow> ('v, 'b) qvcache \<Rightarrow> ('v, 'b) qvcache result" where
  "backend_write f env c =
     (case qc_backend c of
        None \<Rightarrow> Inr c
      | Some b \<Rightarrow> if en_supports_updates env b then rbind (f env b) (\<lambda>b'. Inr (c\<lparr>qc_backend := Some b'\<rparr>)) else Inr c)"

definition qv_insert ::
  "('v, 'b) environment \<Rightarrow> u32 \<Rightarrow> 'v option \<Rightarrow> ('v, 'b) qvcache \<Rightarrow> ('v, 'b) qvcache result" where
  "qv_insert env ident vector c =
     (let c1 = c\<lparr>qc_deleted_ids := removeAll ident (qc_deleted_ids c)\<rparr> in
      rbind (backend_write (\<lambda>env b. en_insert env ident vector b) env c1) (\<lambda>c2.
      rbind (try_admit_data_vector env ident vector c2) (\<lambda>(_, c3). stale_write_regions env vector c3)))"

text \<open>\<open>fetch_backend_vector\<close> turns every failure into an empty vector.\<close>

definition fetch_backend_vector :: "('v, 'b) environment \<Rightarrow> u32 \<Rightarrow> ('v, 'b) qvcache \<Rightarrow> 'v option" where
  "fetch_backend_vector env ident c =
     (case qc_backend c of
        None \<Rightarrow> None
      | Some b \<Rightarrow> (case en_fetch env b [ident] of Inr (v # _) \<Rightarrow> Some v | _ \<Rightarrow> None))"

definition qv_remove ::
  "('v, 'b) environment \<Rightarrow> u32 \<Rightarrow> 'v option \<Rightarrow> ('v, 'b) qvcache \<Rightarrow> ('v, 'b) qvcache result" where
  "qv_remove env ident vector c =
     (let vec = (case vector of Some v \<Rightarrow> Some v | None \<Rightarrow> fetch_backend_vector env ident c) in
      rbind (stale_write_regions env vec c) (\<lambda>c1.
        let c2 = c1\<lparr>qc_deleted_ids := List.insert ident (qc_deleted_ids c1)\<rparr>;
            mem_tag = 1 + ident;
            c3 = forget_admitted_tag mem_tag c2;
            c4 = c3\<lparr>qc_memory_indices := map (\<lambda>index. snd (lazy_delete mem_tag index)) (qc_memory_indices c3)\<rparr>
        in backend_write (\<lambda>env b. en_remove env ident b) env c4))"

section \<open>Construction and queries\<close>

text \<open>The constructor: \<open>pca\<close> is what loading or learning the PCA gave.\<close>

definition qv_new ::
  "('v, 'b) environment \<Rightarrow> qv_config \<Rightarrow> 'b option \<Rightarrow> pca_utils option \<Rightarrow> ('v, 'b) qvcache result" where
  "qv_new env qf backend pca =
     (let n = qf_number_of_mini_indexes qf; init_value = uninitialized_theta (qf_metric qf) in
      rbind (rmap (\<lambda>i. create_memory_index (en_space env) qf (qf_points_per_index qf)) [0..<n]) (\<lambda>indices.
      rbind (rfold (\<lambda>i l. rbind (lru_access i l) (\<lambda>(_, l'). Inr l')) [0..<n] (lru_new n)) (\<lambda>lru.
        Inr \<lparr>qc_config = qf, qc_backend = backend, qc_memory_indices = indices, qc_active_insert_index_id = 0,
             qc_lru = lru, qc_tasks = [],
             qc_theta_map = (if qf_use_regional_theta qf then []
                             else [(1, init_value), (5, init_value), (10, init_value), (100, init_value)]),
             qc_pca = (if qf_use_regional_theta qf then pca else None), qc_eviction_in_progress = False,
             qc_write_theta_discount = fround binary64 (4 / 5), qc_deleted_ids = [], qc_admit_fifo = [], qc_admit_set = [],
             qc_point_evictions = 0, qc_region_invalidations = 0, qc_strategy = SEQUENTIAL\<rparr>)))"

definition get_index_vector_count :: "nat \<Rightarrow> ('v, 'b) qvcache \<Rightarrow> nat" where
  "get_index_vector_count index_id c =
     (if index_id < qf_number_of_mini_indexes (qc_config c)
      then get_number_of_active_vectors (qc_memory_indices c ! index_id) else 0)"

definition is_parallel_search_enabled :: "('v, 'b) qvcache \<Rightarrow> bool" where
  "is_parallel_search_enabled c \<longleftrightarrow> qc_strategy c = PARALLEL \<and> has_search_pool (qc_config c)"

definition get_number_of_active_pca_regions :: "('v, 'b) qvcache \<Rightarrow> nat" where
  "get_number_of_active_pca_regions c =
     (case qc_pca c of
        Some s \<Rightarrow> if qf_use_regional_theta (qc_config c) then get_number_of_active_regions s else 0
      | None \<Rightarrow> 0)"

definition set_search_strategy :: "search_strategy \<Rightarrow> ('v, 'b) qvcache \<Rightarrow> ('v, 'b) qvcache" where
  "set_search_strategy strategy c = c\<lparr>qc_strategy := strategy\<rparr>"

definition qv_set_write_theta_discount :: "fp \<Rightarrow> ('v, 'b) qvcache \<Rightarrow> ('v, 'b) qvcache" where
  "qv_set_write_theta_discount alpha c = c\<lparr>qc_write_theta_discount := alpha\<rparr>"

end
