(* ===== verification/QvReads.thy ===== *)
theory QvReads
  imports QvSearch
begin

text \<open>
  What a search of the cache does: it returns; on a hit the answer consists of \<open>K\<close> entries of the mini-indexes, none of
  them deleted, and its K-th distance is within the tolerance of the threshold; no entry is changed.
\<close>

section \<open>Thresholds and hits\<close>

definition threshold_of :: "('v, 'b) environment \<Rightarrow> 'v \<Rightarrow> nat \<Rightarrow> ('v, 'b) qvcache \<Rightarrow> fp option" where
  "threshold_of env query K c =
     (let th = (if qf_use_regional_theta (qc_config c)
                then case qc_pca c of
                       None \<Rightarrow> None
                     | Some s \<Rightarrow> (case compute_region_key (en_project env) s query of
                                   Inl e \<Rightarrow> None
                                 | Inr region \<Rightarrow> Some (pca_metric s, cell_theta s region K))
                else Some (qf_metric (qc_config c), case map_of (qc_theta_map c) K of Some t \<Rightarrow> t | None \<Rightarrow> Fin 0))
      in case th of None \<Rightarrow> None | Some (m, t) \<Rightarrow> if is_uninitialized_theta m t then None else Some t)"

definition accepts :: "('v, 'b) environment \<Rightarrow> 'v \<Rightarrow> nat \<Rightarrow> fp \<Rightarrow> ('v, 'b) qvcache \<Rightarrow> bool" where
  "accepts env query K d c \<longleftrightarrow>
     (\<exists>t. threshold_of env query K c = Some t \<and> within_tolerance (qf_deviation_factor (qc_config c)) t d)"

definition hit_ok :: "('v, 'b) environment \<Rightarrow> 'v \<Rightarrow> nat \<Rightarrow> answer \<Rightarrow> ('v, 'b) qvcache \<Rightarrow> bool" where
  "hit_ok env query K results c \<longleftrightarrow> 0 < K \<and> K \<le> length results \<and>
     (\<forall>r \<in> set (take K results). fst r \<noteq> 0 \<and> fst r \<noteq> u32_max \<and> \<not> is_deleted_id (fst r - 1) c) \<and>
     K \<le> get_number_of_vectors_in_memory_index c \<and> accepts env query K (snd (results ! (K - 1))) c"

text \<open>A step of a search: only recency, and cells or map entries that a lookup creates.\<close>

definition reads :: "nat \<Rightarrow> ('v, 'b) environment \<Rightarrow> 'v \<Rightarrow> nat \<Rightarrow> ('v, 'b) qvcache \<Rightarrow> ('v, 'b) qvcache \<Rightarrow> bool" where
  "reads D env query K c c' \<longleftrightarrow> qv_inv D env c' \<and> same_frame c c' \<and> qc_memory_indices c' = qc_memory_indices c \<and>
     qc_tasks c' = qc_tasks c \<and> threshold_of env query K c' = threshold_of env query K c"

lemma reads_refl: "qv_inv D env c \<Longrightarrow> reads D env query K c c"
  by (simp add: reads_def)

lemma reads_trans: "reads D env q K c c1 \<Longrightarrow> reads D env q K c1 c2 \<Longrightarrow> reads D env q K c c2"
  unfolding reads_def using frame_trans(1) by metis

lemma readsD:
  assumes "reads D env q K c c'"
  shows "qv_inv D env c'" and "same_entries c c'" and "qc_tasks c' = qc_tasks c"
    and "qc_memory_indices c' = qc_memory_indices c" and "qc_config c' = qc_config c"
    and "hit_ok env q K results c' = hit_ok env q K results c" and "qc_deleted_ids c' = qc_deleted_ids c"
proof -
  show c: "qv_inv D env c'" "qc_tasks c' = qc_tasks c" "qc_memory_indices c' = qc_memory_indices c"
    "qc_config c' = qc_config c" "qc_deleted_ids c' = qc_deleted_ids c"
    using assms by (simp_all add: reads_def same_frame_def)
  show "same_entries c c'" using assms by (simp add: reads_def same_entries_def entries_def fun_eq_iff)
  have "threshold_of env q K c' = threshold_of env q K c" using assms by (simp add: reads_def)
  then show "hit_ok env q K results c' = hit_ok env q K results c"
    using c by (simp add: hit_ok_def accepts_def is_deleted_id_def get_number_of_vectors_in_memory_index_def)
qed

lemma same_config_isHit:
  assumes "pca_isHit project q K ds nv dev s = Inr (b, s')"
  shows "same_config s s'"
  using assms
proof (cases rule: pca_isHit_states)
  case (2 region)
  then show ?thesis by (simp add: same_config_trans [OF same_config_steps(1) same_config_steps(2)])
qed simp

lemma isHit_spec:
  assumes inv: "qv_inv D env c" and len: "length distances = num" "length tags = num"
  obtains b c' where "isHit env q K distances tags num c = Inr (b, c')" and "reads D env q K c c'"
    and "qc_lru c' = qc_lru c" and "b \<longleftrightarrow> hit_ok env q K (zip tags distances) c"
proof -
  let ?r = "zip tags distances" and ?nv = "get_number_of_vectors_in_memory_index c"
  let ?dev = "qf_deviation_factor (qc_config c)"
  have fst: "map fst (take K ?r) = take K tags" using len by (simp add: take_map [symmetric])
  have live: "has_k_live_results K tags num c \<longleftrightarrow> K \<le> length ?r \<and>
      (\<forall>r \<in> set (take K ?r). fst r \<noteq> 0 \<and> fst r \<noteq> u32_max \<and> \<not> is_deleted_id (fst r - 1) c)"
    using len unfolding has_k_live_results_def fst [symmetric] list_all_iff by auto
  show ?thesis
  proof (cases "has_k_live_results K tags num c \<and> K \<le> ?nv \<and> K \<noteq> 0")
    case False
    show ?thesis
    proof (cases "has_k_live_results K tags num c \<and> qf_use_regional_theta (qc_config c)")
      case True
      then obtain s where s: "qc_pca c = Some s" "writes_ok (en_project env) s" "region_inv s"
        using qv_invD(5) [OF inv] by (auto simp: pca_ok_def)
      have "pca_isHit (en_project env) q K (Some distances) ?nv ?dev s = Inr (False, s)"
        using False True by (auto simp: pca_isHit_def)
      moreover have "c\<lparr>qc_pca := Some s\<rparr> = c" using s(1) by simp
      ultimately have "isHit env q K distances tags num c = Inr (False, c)"
        using True s(1) by (simp add: isHit_def)
      then show ?thesis
        by (rule that) (use False live reads_refl [OF inv] in \<open>auto simp: hit_ok_def\<close>)
    next
      case F: False
      then have "isHit env q K distances tags num c = Inr (False, c)" using False by (auto simp: isHit_def)
      then show ?thesis
        by (rule that) (use False live reads_refl [OF inv] in \<open>auto simp: hit_ok_def\<close>)
    qed
  next
    case True
    then have K: "0 < K" "K \<le> ?nv" "K \<le> length distances" and has: "has_k_live_results K tags num c"
      using len by (simp_all add: has_k_live_results_def)
    have nth: "snd (?r ! (K - 1)) = distances ! (K - 1)" using K len by simp
    have hit: "hit_ok env q K ?r c \<longleftrightarrow> accepts env q K (distances ! (K - 1)) c"
      using True live K unfolding hit_ok_def nth by auto
    show ?thesis
    proof (cases "qf_use_regional_theta (qc_config c)")
      case True
      then obtain s where s: "qc_pca c = Some s" "writes_ok (en_project env) s" "region_inv s"
        using qv_invD(5) [OF inv] by (auto simp: pca_ok_def)
      obtain region where region: "compute_region_key (en_project env) s q = Inr region"
        using compute_region_key_total [OF writes_okD(1) [OF s(2)]] by blast
      let ?s' = "snd (theta_at region K (lazy_init_region region s))" and ?th = "cell_theta s region K"
      have eq: "pca_isHit (en_project env) q K (Some distances) ?nv ?dev s =
          Inr (\<not> is_uninitialized_theta (pca_metric s) ?th \<and> within_tolerance ?dev ?th (distances ! (K - 1)), ?s')"
        by (rule pca_isHit_eq [OF region K(2,1,3)])
      have same: "same_config s ?s'" by (rule same_config_isHit [OF eq])
      have dim: "pca_dim s \<le> key_cap" using inputs_dim [OF s(2)] by simp
      have "writes_ok (en_project env) ?s'" using s(2) by (simp add: same_config_writes [OF same])
      moreover have "region_inv ?s'" by (rule region_inv_isHit [OF s(3) dim eq])
      ultimately have inv': "qv_inv D env (c\<lparr>qc_pca := Some ?s'\<rparr>)" by (rule qv_inv_pca [OF inv])
      have region': "compute_region_key (en_project env) ?s' q = Inr region" and m: "pca_metric ?s' = pca_metric s"
        using region same_config_key [OF same, of "en_project env" q] same by (simp, simp add: same_config_def)
      have th: "threshold_of env q K (c\<lparr>qc_pca := Some ?s'\<rparr>) = threshold_of env q K c"
        using True s(1) region region' m by (simp add: threshold_of_def cell_theta_touch)
      have "threshold_of env q K c = (if is_uninitialized_theta (pca_metric s) ?th then None else Some ?th)"
        using True s(1) region by (simp add: threshold_of_def)
      then have "accepts env q K (distances ! (K - 1)) c \<longleftrightarrow>
          \<not> is_uninitialized_theta (pca_metric s) ?th \<and> within_tolerance ?dev ?th (distances ! (K - 1))"
        by (auto simp: accepts_def)
      moreover have "reads D env q K c (c\<lparr>qc_pca := Some ?s'\<rparr>)"
        using inv' th by (simp add: reads_def same_frame_def)
      moreover have "isHit env q K distances tags num c = Inr (\<not> is_uninitialized_theta (pca_metric s) ?th \<and>
          within_tolerance ?dev ?th (distances ! (K - 1)), c\<lparr>qc_pca := Some ?s'\<rparr>)"
        using has True s(1) eq by (simp add: isHit_def)
      ultimately show ?thesis using hit by (intro that [of _ "c\<lparr>qc_pca := Some ?s'\<rparr>"]) simp_all
    next
      case False
      let ?m = "qf_metric (qc_config c)"
      define th where "th = (case map_of (qc_theta_map c) K of Some t \<Rightarrow> t | None \<Rightarrow> Fin 0)"
      obtain m where um: "um_at (Fin 0) K (qc_theta_map c) = (th, m)" "map_of m K = Some th"
        unfolding th_def um_at_def by (cases "map_of (qc_theta_map c) K") (auto simp: update_conv')
      have inv': "qv_inv D env (c\<lparr>qc_theta_map := m\<rparr>)" using inv by simp
      have t: "threshold_of env q K c = (if is_uninitialized_theta ?m th then None else Some th)"
        using False by (simp add: threshold_of_def th_def)
      have "threshold_of env q K (c\<lparr>qc_theta_map := m\<rparr>) = threshold_of env q K c"
        using False um(2) unfolding t by (simp add: threshold_of_def)
      then have "reads D env q K c (c\<lparr>qc_theta_map := m\<rparr>)" using inv' by (simp add: reads_def same_frame_def)
      moreover have last: "K - 1 < length distances" using K by simp
      have "isHit env q K distances tags num c =
          Inr (accepts env q K (distances ! (K - 1)) c, c\<lparr>qc_theta_map := m\<rparr>)"
        using has False K(1,2) um(1) t last by (simp add: isHit_def accepts_def dist_at_def)
      ultimately show ?thesis using hit by (intro that [of _ "c\<lparr>qc_theta_map := m\<rparr>"]) simp_all
    qed
  qed
qed

lemma isHit_on_spec:
  assumes "qv_inv D env c"
  obtains b c' where "isHit_on env q K results c = Inr (b, c')" and "reads D env q K c c'"
    and "qc_lru c' = qc_lru c" and "b \<longleftrightarrow> hit_ok env q K results c"
  unfolding isHit_on_def
  by (rule isHit_spec [OF assms, of "map snd results" "length results" "map fst results" q K])
    (simp_all add: zip_map_fst_snd that)

lemma touch_reads:
  assumes inv: "qv_inv D env c" and "i < shards c"
  obtains c' where "touch_shard i c = Inr c'" and "reads D env q K c c'"
proof -
  obtain l where l: "touch_shard i c = Inr (c\<lparr>qc_lru := l\<rparr>)" "qv_inv D env (c\<lparr>qc_lru := l\<rparr>)"
    by (rule touch_shard_total [OF assms])
  then have "reads D env q K c (c\<lparr>qc_lru := l\<rparr>)" by (simp add: reads_def same_frame_def threshold_of_def)
  with l(1) show ?thesis by (rule that)
qed

lemma touch_all_reads:
  assumes "qv_inv D env c" and "set is \<subseteq> {..<shards c}"
  shows "\<exists>c'. rfold touch_shard is c = Inr c' \<and> reads D env q K c c'"
proof (rule rfold_total)
  show "reads D env q K c c" by (rule reads_refl [OF assms(1)])
  show "\<exists>c2. touch_shard i c1 = Inr c2 \<and> reads D env q K c c2" if "i \<in> set is" "reads D env q K c c1" for i c1
  proof -
    have "i < shards c1" using that assms(2) by (auto simp: readsD(4))
    from touch_reads [OF readsD(1) [OF that(2)] this, of q K] obtain c2 where
      "touch_shard i c1 = Inr c2" "reads D env q K c1 c2" by blast
    then show ?thesis using reads_trans [OF that(2)] by blast
  qed
qed

end
