(* ===== verification/QvMerge.thy ===== *)
theory QvMerge
  imports QvReads
begin

text \<open>
  The merge of the results of several mini-indexes (\<open>merge_and_rerank_results\<close>) against a plain specification: every
  tag once, at its least distance, sorted, the first \<open>K\<close>; and the list of the shards that contributed.
\<close>

section \<open>The best entry of every tag\<close>

text \<open>The results of the searched indexes, with the index each comes from.\<close>

definition offers :: "answer list \<Rightarrow> nat list \<Rightarrow> (nat \<times> u32 \<times> fp) set" where
  "offers all ids = {(i, r). i \<in> set ids \<and> i < length all \<and> r \<in> set (all ! i)}"

definition best_inv :: "(nat \<times> u32 \<times> fp) set \<Rightarrow> (u32 \<times> fp \<times> nat) list \<Rightarrow> bool" where
  "best_inv seen best \<longleftrightarrow> distinct (map fst best) \<and> fst ` set best = (\<lambda>r. fst (snd r)) ` seen \<and>
     (\<forall>(t, d, i) \<in> set best. (i, t, d) \<in> seen \<and> (\<forall>(j, t', d') \<in> seen. t' = t \<longrightarrow> \<not> fp_lt d' d))"

lemma um_put_set:
  assumes "distinct (map fst best)"
  shows "set (um_put t v best) = insert (t, v) {x \<in> set best. fst x \<noteq> t}"
  using assms by (induction best) (auto simp: rev_image_eqI)

lemma best_invI:
  assumes "distinct (map fst best)" and "fst ` set best = (\<lambda>r. fst (snd r)) ` seen"
    and "\<And>t d i. (t, d, i) \<in> set best \<Longrightarrow> (i, t, d) \<in> seen"
    and "\<And>t d i j d'. (t, d, i) \<in> set best \<Longrightarrow> (j, t, d') \<in> seen \<Longrightarrow> \<not> fp_lt d' d"
  shows "best_inv seen best"
  using assms unfolding best_inv_def by fast

lemma best_invD:
  assumes "best_inv seen best"
  shows "distinct (map fst best)" and "fst ` set best = (\<lambda>r. fst (snd r)) ` seen"
    and "(t, d, i) \<in> set best \<Longrightarrow> (i, t, d) \<in> seen"
    and "(t, d, i) \<in> set best \<Longrightarrow> (j, t, d') \<in> seen \<Longrightarrow> \<not> fp_lt d' d"
  using assms unfolding best_inv_def by fast+

lemma best_inv_put:
  assumes inv: "best_inv seen best"
    and low: "\<And>j d'. (j, t, d') \<in> seen \<Longrightarrow> \<not> fp_lt d' d"
  shows "best_inv (insert (i, t, d) seen) (um_put t (d, i) best)"
proof (rule best_invI)
  note D = best_invD [OF inv]
  have set: "set (um_put t (d, i) best) = insert (t, d, i) {x \<in> set best. fst x \<noteq> t}" by (rule um_put_set [OF D(1)])
  show "distinct (map fst (um_put t (d, i) best))" by (rule um_distinct_put [OF D(1)])
  have "fst ` set (um_put t (d, i) best) = insert t (fst ` set best)" unfolding set by (auto simp: image_iff)
  then show "fst ` set (um_put t (d, i) best) = (\<lambda>r. fst (snd r)) ` insert (i, t, d) seen"
    by (simp only: D(2) image_insert fst_conv snd_conv)
  show "(k, u, e) \<in> insert (i, t, d) seen" if "(u, e, k) \<in> set (um_put t (d, i) best)" for u e k
    using that D(3) unfolding set by auto
  show "\<not> fp_lt e' e" if "(u, e, k) \<in> set (um_put t (d, i) best)" and "(j, u, e') \<in> insert (i, t, d) seen" for u e k j e'
  proof (cases "u = t")
    case True
    then have "e = d" using that(1) unfolding set by auto
    then show ?thesis using that(2) True low by (cases d) (auto simp: fp_lt_def)
  next
    case False
    then have "(u, e, k) \<in> set best" "(j, u, e') \<in> seen" using that unfolding set by auto
    then show ?thesis by (rule D(4))
  qed
qed

lemma keep_best_inv:
  assumes inv: "best_inv seen best"
  shows "best_inv (insert (i, t, d) seen) (keep_best i (t, d) best)"
proof (cases "map_of best t")
  note D = best_invD [OF inv]
  case None
  then have "t \<notin> (\<lambda>r. fst (snd r)) ` seen" using D(2) by (simp add: map_of_eq_None_iff)
  then have "\<not> fp_lt d' d" if "(j, t, d') \<in> seen" for j d' using that by force
  moreover have "keep_best i (t, d) best = um_put t (d, i) best" using None by (simp add: keep_best_def)
  ultimately show ?thesis using best_inv_put [OF inv, of t d i] by simp
next
  note D = best_invD [OF inv]
  case (Some e)
  obtain d0 i0 where e: "e = (d0, i0)" by fastforce
  have in0: "(t, d0, i0) \<in> set best" using Some e by (simp add: map_of_SomeD)
  show ?thesis
  proof (cases "fp_lt d d0")
    case True
    have "\<not> fp_lt d' d" if "(j, t, d') \<in> seen" for j d'
      using D(4) [OF in0 that] True by (auto simp: fp_lt_def dest: order.strict_trans)
    moreover have "keep_best i (t, d) best = um_put t (d, i) best" using Some e True by (simp add: keep_best_def)
    ultimately show ?thesis using best_inv_put [OF inv, of t d i] by simp
  next
    case False
    have one: "x = d0" if "(t, x, k) \<in> set best" for x k
    proof -
      have "map_of best t = Some (x, k)" using D(1) that by (rule map_of_is_SomeI)
      then show ?thesis using Some e by simp
    qed
    have "best_inv (insert (i, t, d) seen) best"
    proof (rule best_invI)
      show "fst ` set best = (\<lambda>r. fst (snd r)) ` insert (i, t, d) seen"
        using D(2) in0 by force
      show "\<not> fp_lt e' e" if "(u, e, k) \<in> set best" and "(j, u, e') \<in> insert (i, t, d) seen" for u e k j e'
        using that D(4) [OF that(1)] one False by auto
    qed (use D(1,3) in auto)
    then show ?thesis using Some e False by (simp add: keep_best_def)
  qed
qed


lemma keep_best_fold:
  assumes "best_inv seen best"
  shows "best_inv (seen \<union> Pair i ` set rs) (fold (keep_best i) rs best)"
  using assms
proof (induction rs arbitrary: seen best)
  case (Cons r rs)
  have "best_inv (insert (i, r) seen) (keep_best i r best)"
    using keep_best_inv [OF Cons.prems, of i "fst r" "snd r"] by simp
  from Cons.IH [OF this] have "best_inv (insert (i, r) seen \<union> Pair i ` set rs) (fold (keep_best i) (r # rs) best)" by simp
  moreover have "insert (i, r) seen \<union> Pair i ` set rs = seen \<union> Pair i ` set (r # rs)" by auto
  ultimately show ?case by metis
qed simp

lemma merge_fold:
  assumes "best_inv seen best"
  shows "best_inv (seen \<union> offers all ids) (fold (merge_index all) ids best)"
  using assms
proof (induction ids arbitrary: seen best)
  case (Cons i ids)
  let ?new = "if i < length all then Pair i ` set (all ! i) else {}"
  have "best_inv (seen \<union> ?new) (merge_index all i best)"
    using keep_best_fold [OF Cons.prems] Cons.prems by (simp add: merge_index_def)
  from Cons.IH [OF this] have "best_inv ((seen \<union> ?new) \<union> offers all ids) (fold (merge_index all) ids (merge_index all i best))" .
  moreover have "(seen \<union> ?new) \<union> offers all ids = seen \<union> offers all (i # ids)" by (auto simp: offers_def)
  ultimately show ?case by simp
qed (simp add: offers_def)

lemma merge_best: "best_inv (offers all ids) (fold (merge_index all) ids [])"
  using merge_fold [of "{}" "[]" all ids] by (simp add: best_inv_def)

section \<open>The plain specification\<close>

definition offered :: "answer list \<Rightarrow> nat list \<Rightarrow> answer" where
  "offered all ids = concat (map (\<lambda>i. if i < length all then all ! i else []) ids)"

definition least_distance :: "answer \<Rightarrow> u32 \<Rightarrow> fp" where
  "least_distance rs t = Min (snd ` {r \<in> set rs. fst r = t})"

definition plain_merge :: "answer \<Rightarrow> nat \<Rightarrow> answer" where
  "plain_merge rs K = take K (sort_key snd (map (\<lambda>t. (t, least_distance rs t)) (remdups (map fst rs))))"

lemma offered_set: "set (offered all ids) = snd ` offers all ids"
  by (auto simp: offered_def offers_def image_iff split: if_splits)

lemma best_least:
  assumes inv: "best_inv (offers all ids) best" and num: "\<forall>r \<in> set (offered all ids). snd r \<noteq> NaN"
  shows "mset (map (\<lambda>r. (fst r, fst (snd r))) best) =
    mset (map (\<lambda>t. (t, least_distance (offered all ids) t)) (remdups (map fst (offered all ids))))"
proof (rule set_eq_iff_mset_eq_distinct [THEN iffD1])
  let ?rs = "offered all ids"
  note D = best_invD [OF inv]
  have eq: "d = least_distance ?rs t" if "(t, d, i) \<in> set best" for t d i
  proof -
    have mem: "(t, d) \<in> set ?rs" using D(3) [OF that] by (force simp: offered_set)
    have "d \<le> snd r" if "r \<in> set ?rs" "fst r = t" for r
    proof -
      obtain j where "(j, t, snd r) \<in> offers all ids" using \<open>r \<in> set ?rs\<close> \<open>fst r = t\<close> by (auto simp: offered_set)
      then have "\<not> fp_lt (snd r) d" by (rule D(4) [OF \<open>(t, d, i) \<in> set best\<close>])
      then show ?thesis using num that(1) mem by (force simp: fp_lt_def)
    qed
    then show ?thesis unfolding least_distance_def using mem by (intro Min_eqI [symmetric]) (auto simp: image_iff)
  qed
  have keys: "fst ` set best = fst ` set ?rs" unfolding D(2) offered_set by (simp add: image_image)
  have "(\<lambda>r. (fst r, fst (snd r))) ` set best = (\<lambda>t. (t, least_distance ?rs t)) ` (fst ` set best)"
    unfolding image_image by (rule image_cong) (auto dest: eq)
  then show "set (map (\<lambda>r. (fst r, fst (snd r))) best) =
      set (map (\<lambda>t. (t, least_distance ?rs t)) (remdups (map fst ?rs)))"
    by (simp add: keys)
  show "distinct (map (\<lambda>r. (fst r, fst (snd r))) best)"
    using D(1) by (simp add: distinct_map inj_on_def)
  show "distinct (map (\<lambda>t. (t, least_distance ?rs t)) (remdups (map fst ?rs)))"
    by (simp add: distinct_map inj_on_def)
qed

lemma map_sort_key: "map f (sort_key f xs) = sort (map f xs)"
  by (rule properties_for_sort [symmetric]) simp_all

section \<open>The merged results\<close>

definition merged :: "('v, 'b) environment \<Rightarrow> answer list \<Rightarrow> nat list \<Rightarrow> nat \<Rightarrow> (u32 \<times> fp \<times> nat) list" where
  "merged env all ids K =
     take K (sort_key (\<lambda>r. fst (snd r)) (en_merge_ord env (fold (merge_index all) ids [])))"

lemma merge_eq:
  "merge_and_rerank_results env all ids K =
     (map (\<lambda>r. (fst r, fst (snd r))) (merged env all ids K),
      map fst (sort_key snd (en_count_ord env (fold count_source (merged env all ids K) []))))"
  by (simp add: merge_and_rerank_results_def merged_def Let_def)

lemma merged_best:
  assumes "env_ok env"
  shows "set (merged env all ids K) \<subseteq> set (fold (merge_index all) ids [])"
    and "distinct (map fst (merged env all ids K))"
    and "map (\<lambda>r. fst (snd r)) (merged env all ids K) =
      take K (sort (map (\<lambda>r. fst (snd r)) (fold (merge_index all) ids [])))"
proof -
  let ?best = "fold (merge_index all) ids []"
  have m: "mset (en_merge_ord env ?best) = mset ?best" using assms by (simp add: env_ok_def)
  have s: "set (sort_key (\<lambda>r. fst (snd r)) (en_merge_ord env ?best)) = set ?best"
    using mset_eq_setD [OF m] by simp
  then show "set (merged env all ids K) \<subseteq> set ?best" 
    unfolding merged_def by (metis set_take_subset)
  have "mset (map fst (sort_key (\<lambda>r. fst (snd r)) (en_merge_ord env ?best))) = mset (map fst ?best)" using m by simp
  then have "distinct (map fst (sort_key (\<lambda>r. fst (snd r)) (en_merge_ord env ?best)))"
    using best_invD(1) [OF merge_best] by (rule mset_eq_imp_distinct_iff [THEN iffD2])
  then show "distinct (map fst (merged env all ids K))"
    unfolding merged_def take_map [symmetric] by (rule distinct_take)
  have "mset (map (\<lambda>r. fst (snd r)) (en_merge_ord env ?best)) = mset (map (\<lambda>r. fst (snd r)) ?best)" using m by simp
  then have "sort (map (\<lambda>r. fst (snd r)) (en_merge_ord env ?best)) = sort (map (\<lambda>r. fst (snd r)) ?best)"
    by (intro properties_for_sort) simp_all
  then show "map (\<lambda>r. fst (snd r)) (merged env all ids K) = take K (sort (map (\<lambda>r. fst (snd r)) ?best))"
    by (simp add: merged_def take_map [symmetric] map_sort_key)
qed

lemma merged_mem:
  assumes "env_ok env" and "(t, d, i) \<in> set (merged env all ids K)"
  shows "(i, t, d) \<in> offers all ids"
  using subsetD [OF merged_best(1) [OF assms(1)] assms(2)] by (rule best_invD(3) [OF merge_best])

lemma plain_distances:
  assumes "env_ok env" and "\<forall>r \<in> set (offered all ids). snd r \<noteq> NaN"
  shows "map (\<lambda>r. fst (snd r)) (merged env all ids K) = map snd (plain_merge (offered all ids) K)"
proof -
  let ?best = "fold (merge_index all) ids []"
  let ?ref = "map (\<lambda>t. (t, least_distance (offered all ids) t)) (remdups (map fst (offered all ids)))"
  have "mset (map snd (map (\<lambda>r. (fst r, fst (snd r))) ?best)) = mset (map snd ?ref)"
    unfolding mset_map [of snd] best_least [OF merge_best assms(2)] ..
  then have "mset (map (\<lambda>r. fst (snd r)) ?best) = mset (map snd ?ref)" by (simp add: comp_def)
  then have "sort (map (\<lambda>r. fst (snd r)) ?best) = sort (map snd ?ref)"
    by (intro properties_for_sort) simp_all
  then show ?thesis unfolding merged_best(3) [OF assms(1)] plain_merge_def take_map [symmetric] map_sort_key by simp
qed

text \<open>The contributing shards.\<close>

lemma count_source_keys: "set (map fst (count_source r cs)) = insert (snd (snd r)) (set (map fst cs))"
  by (simp del: set_map add: count_source_def um_at_def um_keys_put split: option.splits)

lemma count_fold_keys: "set (map fst (fold count_source rs cs)) = (\<lambda>r. snd (snd r)) ` set rs \<union> set (map fst cs)"
proof (induction rs arbitrary: cs)
  case (Cons r rs)
  then show ?case by (simp only: fold_simps comp_apply count_source_keys) auto
qed simp

lemma contributing_set:
  assumes "env_ok env"
  shows "set (snd (merge_and_rerank_results env all ids K)) = (\<lambda>r. snd (snd r)) ` set (merged env all ids K)"
proof -
  let ?cs = "fold count_source (merged env all ids K) []"
  have "mset (en_count_ord env ?cs) = mset ?cs" using assms by (simp add: env_ok_def)
  then have "set (en_count_ord env ?cs) = set ?cs" by (rule mset_eq_setD)
  then have "set (snd (merge_and_rerank_results env all ids K)) = set (map fst ?cs)" by (simp add: merge_eq)
  then show ?thesis unfolding count_fold_keys by simp
qed

end
