(* ===== verification/QvHits.thy ===== *)
theory QvHits
  imports QvMerge
begin

text \<open>
  What a search of the cache finds (\<open>search_single_index\<close>, \<open>search_sequential\<close>, \<open>parallel_search_memory_indices\<close>) and
  what a miss does (\<open>handle_backend_miss\<close>). Both strategies are chains of attempts, each of which ends the
  search when its results pass the test of a hit.
\<close>

section \<open>Results of the shards\<close>

definition cached :: "('v, 'b) environment \<Rightarrow> ('v, 'b) qvcache \<Rightarrow> 'v \<Rightarrow> u32 \<times> fp \<Rightarrow> bool" where
  "cached env c query r \<longleftrightarrow> (\<exists>i v. entries c i (fst r) = Some v \<and>
     snd r = reported_distance (qf_metric (qc_config c)) (sp_dist (en_space env) query v))"

definition good_hit :: "('v, 'b) environment \<Rightarrow> 'v \<Rightarrow> nat \<Rightarrow> ('v, 'b) qvcache \<Rightarrow> answer \<Rightarrow> bool" where
  "good_hit env query K c results \<longleftrightarrow> length results = K \<and> distinct (map fst results) \<and>
     (\<forall>r \<in> set results. cached env c query r \<and> fst r \<noteq> 0 \<and> fst r \<noteq> u32_max \<and> \<not> is_deleted_id (fst r - 1) c) \<and>
     accepts env query K (snd (last results)) c"

definition shard_answer :: "('v, 'b) environment \<Rightarrow> 'v \<Rightarrow> nat \<Rightarrow> ('v, 'b) qvcache \<Rightarrow> nat \<Rightarrow> answer \<Rightarrow> bool" where
  "shard_answer env query K c i res \<longleftrightarrow> length res \<le> K \<and>
     answer_of (en_space env) (qf_metric (qc_config c)) (entries c i) query res"

definition collected :: "('v, 'b) environment \<Rightarrow> 'v \<Rightarrow> nat \<Rightarrow> ('v, 'b) qvcache \<Rightarrow> answer list \<Rightarrow> bool" where
  "collected env query K c all \<longleftrightarrow> length all = shards c \<and> (\<forall>i < shards c. shard_answer env query K c i (all ! i))"

lemma shard_answer_cached: "shard_answer env q K c i res \<Longrightarrow> r \<in> set res \<Longrightarrow> cached env c q r"
  unfolding shard_answer_def answer_of_def cached_def by (cases r) force

lemma shard_answer_distinct: "shard_answer env q K c i res \<Longrightarrow> distinct (map fst res)"
  by (simp add: shard_answer_def answer_of_def)

lemma hit_ok_good:
  assumes "hit_ok env q K res c" and "distinct (map fst res)" and "\<forall>r \<in> set res. cached env c q r"
  shows "good_hit env q K c (take K res)"
proof -
  have K: "0 < K" "K \<le> length res" using assms(1) by (simp_all add: hit_ok_def)
  then have "last (take K res) = res ! (K - 1)"
    using last_conv_nth [of "take K res"] by (cases res) auto
  moreover have "distinct (map fst (take K res))" using assms(2) by (simp add: take_map [symmetric])
  moreover have "\<forall>r \<in> set (take K res). cached env c q r" using assms(3) by (meson in_set_takeD)
  ultimately show ?thesis using assms(1) K unfolding good_hit_def hit_ok_def by simp
qed

lemma search_index_spec:
  assumes inv: "qv_inv D env c" and env: "env_ok env" and i: "i < shards c" and "0 < K" and "K \<le> qf_memory_L (qc_config c)"
  obtains res where "search_index env i q K c = Inr res" and "shard_answer env q K c i res"
proof -
  let ?ix = "qc_memory_indices c ! i"
  have ok: "shard_ok D (qc_config c) ?ix" by (rule qv_invD(3) [OF inv i])
  then have index: "index_inv D {} ?ix" by (simp add: shard_ok_def)
  have num: "numeric (en_space env)" using env by (simp add: env_ok_def)
  obtain res where res: "search_with_tags (en_space env) ?ix q K (qf_memory_L (qc_config c)) K = Inr res" "length res \<le> K"
    "answer_of (en_space env) (vx_metric ?ix) (contents ?ix) q res"
    by (rule search_contents [OF index num assms(4,5) order_refl])
  have "search_index env i q K c = Inr res" using i res(1) by (simp add: search_index_def)
  then show ?thesis
    by (rule that) (use res ok i in \<open>simp add: shard_answer_def shard_ok_def entries_def\<close>)
qed

lemma collect_total:
  assumes inv: "qv_inv D env c" and env: "env_ok env" and K: "0 < K" "K \<le> qf_memory_L (qc_config c)"
    and "is": "set is \<subseteq> {..<shards c}"
  obtains all searched where "rfold (collect_results env q K c) is (replicate (shards c) [], []) = Inr (all, searched)"
    and "collected env q K c all" and "set searched \<subseteq> set is"
proof -
  let ?P = "\<lambda>st. collected env q K c (fst st) \<and> set (snd st) \<subseteq> set is"
  have "\<exists>st. rfold (collect_results env q K c) is (replicate (shards c) [], []) = Inr st \<and> ?P st"
  proof (rule rfold_total)
    show "?P (replicate (shards c) [], [])" by (simp add: collected_def shard_answer_def answer_of_def)
    show "\<exists>st'. collect_results env q K c i st = Inr st' \<and> ?P st'" if "i \<in> set is" and P: "?P st" for i st
    proof -
      have i: "i < shards c" using that(1) "is" by auto
      obtain res where res: "search_index env i q K c = Inr res" "shard_answer env q K c i res"
        by (rule search_index_spec [OF inv env i K])
      have "collected env q K c ((fst st)[i := res])"
        using P i res(2) by (simp add: collected_def nth_list_update)
      then show ?thesis using P i res(1) that(1) 
        by (cases st) (auto simp: collect_results_def)
    qed
  qed
  then show ?thesis using that by force
qed

section \<open>Attempts\<close>

text \<open>An attempt returns, keeps the entries, and ends the search with a good hit, or \<open>N\<close> holds.\<close>

definition attempt ::
  "nat \<Rightarrow> ('v, 'b) environment \<Rightarrow> 'v \<Rightarrow> nat \<Rightarrow> ('v, 'b) qvcache \<Rightarrow> bool \<Rightarrow>
   (('v, 'b) qvcache \<Rightarrow> (answer option \<times> ('v, 'b) qvcache) result) \<Rightarrow> bool" where
  "attempt D env query K c N f \<longleftrightarrow> (\<forall>c1. reads D env query K c c1 \<longrightarrow>
     (\<exists>r c2. f c1 = Inr (r, c2) \<and> reads D env query K c c2 \<and>
        (case r of None \<Rightarrow> N | Some results \<Rightarrow> good_hit env query K c results)))"

lemma attemptI:
  assumes "\<And>c1. reads D env q K c c1 \<Longrightarrow> \<exists>r c2. f c1 = Inr (r, c2) \<and> reads D env q K c c2 \<and>
     (case r of None \<Rightarrow> N | Some results \<Rightarrow> good_hit env q K c results)"
  shows "attempt D env q K c N f"
  using assms by (simp add: attempt_def)

lemma attempt_or_else:
  assumes f: "attempt D env q K c N f" and g: "attempt D env q K c M g"
  shows "attempt D env q K c (N \<and> M) (or_else f g)"
proof (rule attemptI)
  fix c1 assume "reads D env q K c c1"
  then obtain r c2 where r: "f c1 = Inr (r, c2)" "reads D env q K c c2"
    "case r of None \<Rightarrow> N | Some results \<Rightarrow> good_hit env q K c results"
    using f unfolding attempt_def by blast
  show "\<exists>r c2. or_else f g c1 = Inr (r, c2) \<and> reads D env q K c c2 \<and>
      (case r of None \<Rightarrow> N \<and> M | Some results \<Rightarrow> good_hit env q K c results)"
  proof (cases r)
    case None
    obtain r' c3 where "g c2 = Inr (r', c3)" "reads D env q K c c3"
      "case r' of None \<Rightarrow> M | Some results \<Rightarrow> good_hit env q K c results"
      using g r(2) unfolding attempt_def by blast
    then show ?thesis using r(1,3) None by (auto simp: or_else_def split: option.splits)
  next
    case (Some results)
    then show ?thesis using r by (simp add: or_else_def)
  qed
qed

lemma attempt_none: "attempt D env q K c True (\<lambda>c. Inr (None, c))"
  by (simp add: attempt_def)

lemma attempt_weaken: "attempt D env q K c N f \<Longrightarrow> (N \<Longrightarrow> M) \<Longrightarrow> attempt D env q K c M f"
  unfolding attempt_def by (metis option.case_eq_if)

lemma attempt_test:
  assumes f: "\<And>c1. f c1 = rbind (isHit_on env q K res c1) (\<lambda>(is_hit, c2).
      if is_hit then rbind (rfold touch_shard is c2) (\<lambda>c3. Inr (Some out, c3)) else Inr (None, c2))"
    and "is": "set is \<subseteq> {..<shards c}" and good: "hit_ok env q K res c \<Longrightarrow> good_hit env q K c out"
  shows "attempt D env q K c (\<not> hit_ok env q K res c) f"
proof (rule attemptI)
  fix c1 assume c1: "reads D env q K c c1"
  obtain b c2 where c2: "isHit_on env q K res c1 = Inr (b, c2)" "reads D env q K c1 c2" "b \<longleftrightarrow> hit_ok env q K res c1"
    by (rule isHit_on_spec [OF readsD(1) [OF c1]])
  have b: "b \<longleftrightarrow> hit_ok env q K res c" using c2(3) readsD(6) [OF c1] by simp
  have r2: "reads D env q K c c2" by (rule reads_trans [OF c1 c2(2)])
  have "set is \<subseteq> {..<shards c2}" using "is" by (simp add: readsD(4) [OF r2])
  from touch_all_reads [OF readsD(1) [OF r2] this, of q K] obtain c3 where
    c3: "rfold touch_shard is c2 = Inr c3" "reads D env q K c2 c3" by blast
  have "reads D env q K c c3" by (rule reads_trans [OF r2 c3(2)])
  then show "\<exists>r c2. f c1 = Inr (r, c2) \<and> reads D env q K c c2 \<and>
      (case r of None \<Rightarrow> \<not> hit_ok env q K res c | Some results \<Rightarrow> good_hit env q K c results)"
    using c2(1) c3(1) b good r2 by (cases b) (auto simp: f)
qed

lemma attempt_single:
  assumes "collected env q K c all" and "i < shards c"
  shows "attempt D env q K c (\<not> hit_ok env q K (all ! i) c) (hit_single env q K all i)"
proof (cases "K \<le> length (all ! i)")
  case True
  have ans: "shard_answer env q K c i (all ! i)" and len: "length all = shards c"
    using assms by (simp_all add: collected_def)
  show ?thesis
  proof (rule attempt_test)
    show "hit_single env q K all i c1 = rbind (isHit_on env q K (all ! i) c1) (\<lambda>(is_hit, c2).
      if is_hit then rbind (rfold touch_shard [i] c2) (\<lambda>c3. Inr (Some (take K (all ! i)), c3)) else Inr (None, c2))" for c1
      using True assms(2) len by (simp add: hit_single_def rbind_def split: sum.splits)
    show "good_hit env q K c (take K (all ! i))" if "hit_ok env q K (all ! i) c"
      using hit_ok_good [OF that shard_answer_distinct [OF ans]] shard_answer_cached [OF ans] by blast
  qed (use assms(2) in simp)
next
  case False
  then have "hit_single env q K all i = (\<lambda>c. Inr (None, c))" by (simp add: hit_single_def fun_eq_iff)
  then show ?thesis using False by (simp add: attempt_def hit_ok_def)
qed

lemma attempt_first_single:
  assumes "collected env q K c all" and "set is \<subseteq> {..<shards c}"
  shows "attempt D env q K c (\<forall>i \<in> set is. i \<in> set searched \<longrightarrow> \<not> hit_ok env q K (all ! i) c)
    (first_single_hit env q K all searched is)"
  using assms(2)
proof (induction "is")
  case Nil
  then show ?case using attempt_none by (simp add: attempt_def)
next
  case (Cons i "is")
  then have i: "i < shards c" and IH: "attempt D env q K c (\<forall>i \<in> set is. i \<in> set searched \<longrightarrow> \<not> hit_ok env q K (all ! i) c)
    (first_single_hit env q K all searched is)" by simp_all
  show ?case
  proof (cases "i \<in> set searched")
    case True
    then have eq: "first_single_hit env q K all searched (i # is) =
        or_else (hit_single env q K all i) (first_single_hit env q K all searched is)" by (simp add: fun_eq_iff)
    show ?thesis
      unfolding eq by (rule attempt_weaken [OF attempt_or_else [OF attempt_single [OF assms(1) i] IH]]) simp
  next
    case False
    then have eq: "first_single_hit env q K all searched (i # is) = first_single_hit env q K all searched is"
      by (simp add: fun_eq_iff)
    show ?thesis unfolding eq by (rule attempt_weaken [OF IH]) (use False in simp)
  qed
qed

abbreviation merged_results :: "('v, 'b) environment \<Rightarrow> answer list \<Rightarrow> nat list \<Rightarrow> nat \<Rightarrow> answer" where
  "merged_results env all ids K \<equiv> fst (merge_and_rerank_results env all ids K)"

lemma attempt_merged:
  assumes env: "env_ok env" and coll: "collected env q K c all" and ids: "set ids \<subseteq> {..<shards c}"
  shows "attempt D env q K c (\<not> hit_ok env q K (merged_results env all ids K) c) (hit_merged env q K all ids)"
proof (cases "K \<le> length (merged_results env all ids K)")
  case True
  let ?m = "merged_results env all ids K" and ?cs = "snd (merge_and_rerank_results env all ids K)"
  have m: "?m = map (\<lambda>r. (fst r, fst (snd r))) (merged env all ids K)" by (simp add: merge_eq)
  have mem: "i < shards c \<and> (t, d) \<in> set (all ! i)" if "(t, d, i) \<in> set (merged env all ids K)" for t d i
    using merged_mem [OF env that] ids by (auto simp: offers_def)
  show ?thesis
  proof (rule attempt_test)
    show "hit_merged env q K all ids c1 = rbind (isHit_on env q K ?m c1) (\<lambda>(is_hit, c2).
        if is_hit then rbind (rfold touch_shard ?cs c2) (\<lambda>c3. Inr (Some (take K ?m), c3)) else Inr (None, c2))" for c1
      using True by (simp add: hit_merged_def split_beta)
    show "set ?cs \<subseteq> {..<shards c}" unfolding contributing_set [OF env] using mem by force
    have "distinct (map fst ?m)" unfolding m using merged_best(2) [OF env] by (simp add: comp_def)
    moreover have "\<forall>r \<in> set ?m. cached env c q r"
    proof
      fix r assume "r \<in> set ?m"
      then obtain t d i where r: "r = (t, d)" "(t, d, i) \<in> set (merged env all ids K)" unfolding m by auto
      then have "i < shards c" "(t, d) \<in> set (all ! i)" using mem by blast+
      moreover from this(1) have "shard_answer env q K c i (all ! i)" using coll by (simp add: collected_def)
      ultimately show "cached env c q r" unfolding r(1) by (intro shard_answer_cached)
    qed
    ultimately show "good_hit env q K c (take K ?m)" if "hit_ok env q K ?m c" by (rule hit_ok_good [OF that])
  qed
next
  case False
  then have "hit_merged env q K all ids = (\<lambda>c. Inr (None, c))" by (simp add: hit_merged_def split_beta fun_eq_iff)
  then show ?thesis using False by (simp add: attempt_def hit_ok_def)
qed

lemma attempt_fast_path:
  assumes "collected env q K c all" and "set ids \<subseteq> {..<shards c}"
  shows "attempt D env q K c True (hit_fast_path env q K all ids)"
proof (cases "length ids = 1")
  case True
  then have "hd ids < shards c" using assms(2) by (cases ids) auto
  moreover have "hit_fast_path env q K all ids = hit_single env q K all (hd ids)"
    using True by (simp add: hit_fast_path_def fun_eq_iff)
  ultimately show ?thesis using attempt_weaken [OF attempt_single [OF assms(1)]] by metis
next
  case False
  then have "hit_fast_path env q K all ids = (\<lambda>c. Inr (None, c))" by (simp add: hit_fast_path_def fun_eq_iff)
  then show ?thesis using attempt_none by metis
qed

end
