(* ===== verification/QvMiss.thy ===== *)
theory QvMiss
  imports QvHits
begin

text \<open>
  A whole search: the two strategies end in the same miss path, which asks the backend, makes sure of a shard with
  room, and queues the insertion of the neighbours.
\<close>

section \<open>The miss path\<close>

definition admission :: "('v, 'b) environment \<Rightarrow> ('v, 'b) qvcache \<Rightarrow> 'v \<Rightarrow> nat \<Rightarrow> u32 list \<Rightarrow> fp list \<Rightarrow> nat \<Rightarrow> 'v pool_task" where
  "admission env c query K tags dists shard =
     \<lparr>tk_shard = shard, tk_ids = ids_to_insert (take K tags) c, tk_K = K, tk_distance = dists ! (K - 1),
      tk_query = (if qf_lazy_theta_updates (qc_config c) then Some query else None)\<rparr>"

text \<open>The answer of the backend, the shard it goes to, and the queued insertion.\<close>

definition missed :: "nat \<Rightarrow> ('v, 'b) environment \<Rightarrow> 'v \<Rightarrow> nat \<Rightarrow> ('v, 'b) qvcache \<Rightarrow> answer \<Rightarrow> ('v, 'b) qvcache \<Rightarrow> bool" where
  "missed D env query K c results c' \<longleftrightarrow> qv_inv D env c' \<and>
     (\<exists>b tags dists shard c1. qc_backend c = Some b \<and> en_search env b query K = Inr (tags, dists) \<and>
        results = zip (map (\<lambda>t. t + 1) tags) dists \<and> length results = K \<and> admits D env c shard c1 \<and>
        same_entries c1 c' \<and> qc_tasks c' = qc_tasks c1 @ [admission env c query K tags dists shard])"

lemma submit_task_simps [simp]:
  "qc_tasks (submit_task t c) = qc_tasks c @ [t]" "same_entries c (submit_task t c)"
  by (simp_all add: submit_task_def)

lemma submit_task_inv: "qv_inv D env c \<Longrightarrow> task_ok (shards c) t \<Longrightarrow> qv_inv D env (submit_task t c)"
  by (auto simp: qv_inv_def submit_task_def)

lemma miss_spec:
  assumes inv: "qv_inv D env c" and env: "env_ok env" and quiet: "\<not> qc_eviction_in_progress c" and K: "0 < K"
  obtains results c' where "handle_backend_miss env q K c = Inr (results, c')" and "missed D env q K c results c'"
proof -
  obtain b where b: "qc_backend c = Some b" using qv_invD(6) [OF inv] by auto
  obtain tags ds where ts: "en_search env b q K = Inr (tags, ds)" "length tags = K" "length ds = K"
    using env unfolding env_ok_def by blast
  obtain shard c1 where c1: "ensure_admit_shard env c = Inr (shard, c1)" "admits D env c shard c1"
    by (rule ensure_admit_shard_spec [OF inv env quiet])
  have inv1: "qv_inv D env c1" and frame: "same_frame c c1" and shard: "shard < shards c1"
    using c1(2) by (simp_all add: admits_def)
  have cfg: "qc_config c1 = qc_config c" using frame by (simp add: same_frame_def)
  let ?t = "admission env c q K tags ds shard" and ?kth = "ds ! (K - 1)"
  have "\<exists>c2. (if qf_lazy_theta_updates (qc_config c1) then Inr c1 else update_theta env q K ?kth c1) = Inr c2 \<and>
      qv_inv D env c2 \<and> same_entries c1 c2 \<and> qc_tasks c2 = qc_tasks c1"
    by (cases "qf_lazy_theta_updates (qc_config c1)")
      (use inv1 in simp, rule update_theta_total [OF inv1, of q K ?kth], auto)
  then obtain c2 where c2: "(if qf_lazy_theta_updates (qc_config c1) then Inr c1 else update_theta env q K ?kth c1) = Inr c2"
    "qv_inv D env c2" "same_entries c1 c2" "qc_tasks c2 = qc_tasks c1" by blast
  have run: "handle_backend_miss env q K c = Inr (zip (map (\<lambda>t. t + 1) tags) ds, submit_task ?t c2)"
    using b ts c1(1) c2(1) K cfg
    by (cases "qf_lazy_theta_updates (qc_config c)")
      (simp_all add: handle_backend_miss_def backend_of_def dist_at_def admission_def)
  have "qv_inv D env (submit_task ?t c2)"
  proof (rule submit_task_inv [OF c2(2)])
    have "shards c2 = shards c1" using c2(3) by (simp add: same_entries_def same_frame_def)
    then show "task_ok (shards c2) ?t" using shard by (simp add: task_ok_def admission_def ids_to_insert_def)
  qed
  moreover have "same_entries c1 (submit_task ?t c2)" by (rule frame_trans(3) [OF c2(3)]) simp
  ultimately have "missed D env q K c (zip (map (\<lambda>t. t + 1) tags) ds) (submit_task ?t c2)"
    unfolding missed_def using b ts c1(2) c2(4)
    by (intro conjI exI [of _ b] exI [of _ tags] exI [of _ ds] exI [of _ shard] exI [of _ c1]) simp_all
  with run show ?thesis by (rule that)
qed

section \<open>The strategies\<close>

text \<open>What a search did: \<open>N\<close> holds when it missed.\<close>

definition searched :: "nat \<Rightarrow> ('v, 'b) environment \<Rightarrow> 'v \<Rightarrow> nat \<Rightarrow> ('v, 'b) qvcache \<Rightarrow> bool \<Rightarrow>
   bool \<times> answer \<times> ('v, 'b) qvcache \<Rightarrow> bool" where
  "searched D env query K c N = (\<lambda>(hit, results, c').
     if hit then good_hit env query K c results \<and> reads D env query K c c'
     else N \<and> (\<exists>c1. reads D env query K c c1 \<and> missed D env query K c1 results c'))"

lemma attempt_search:
  assumes inv: "qv_inv D env c" and env: "env_ok env" and quiet: "\<not> qc_eviction_in_progress c" and K: "0 < K"
    and f: "attempt D env q K c N f"
  shows "\<exists>out. rbind (f c) (\<lambda>(r, c1). case r of Some results \<Rightarrow> Inr (True, results, c1)
      | None \<Rightarrow> rbind (handle_backend_miss env q K c1) (\<lambda>(results, c2). Inr (False, results, c2))) = Inr out \<and>
    searched D env q K c N out"
proof -
  obtain r c1 where r: "f c = Inr (r, c1)" "reads D env q K c c1"
    "case r of None \<Rightarrow> N | Some results \<Rightarrow> good_hit env q K c results"
    using f reads_refl [OF inv] unfolding attempt_def by blast
  show ?thesis
  proof (cases r)
    case None
    have "\<not> qc_eviction_in_progress c1" using r(2) quiet by (simp add: reads_def same_frame_def)
    then obtain results c2 where "handle_backend_miss env q K c1 = Inr (results, c2)" "missed D env q K c1 results c2"
      by (rule miss_spec [OF readsD(1) [OF r(2)] env _ K, of q])
    then show ?thesis using r None by (auto simp: searched_def)
  next
    case (Some results)
    then show ?thesis using r by (auto simp: searched_def)
  qed
qed

lemma shards_config: "qv_inv D env c \<Longrightarrow> qf_number_of_mini_indexes (qc_config c) = shards c"
  by (drule qv_invD(2)) (simp add: lru_ok_def)

lemma sequential_spec:
  assumes inv: "qv_inv D env c" and env: "env_ok env" and quiet: "\<not> qc_eviction_in_progress c"
    and K: "0 < K" "K \<le> qf_memory_L (qc_config c)"
  obtains all ids out where "collected env q K c all" and "set ids \<subseteq> {..<shards c}"
    and "search_sequential env q K c = Inr out"
    and "searched D env q K c (\<not> hit_ok env q K (merged_results env all ids K) c \<and>
      (\<forall>i \<in> set ids. \<not> hit_ok env q K (all ! i) c)) out"
proof -
  let ?order = "lru_get_all_tags (qc_lru c)"
  have order: "set ?order = {..<shards c}" using qv_invD(2) [OF inv] by (simp add: lru_ok_def)
  obtain all ids where coll: "rfold (collect_results env q K c) ?order (replicate (shards c) [], []) = Inr (all, ids)"
    "collected env q K c all" "set ids \<subseteq> set ?order"
    by (rule collect_total [OF inv env K, of ?order]) (use order in simp)
  have ids: "set ids \<subseteq> {..<shards c}" using coll(3) order by simp
  let ?f = "or_else (hit_fast_path env q K all ids) (or_else (hit_merged env q K all ids)
    (first_single_hit env q K all ids ?order))"
  let ?N = "\<not> hit_ok env q K (merged_results env all ids K) c \<and> (\<forall>i \<in> set ids. \<not> hit_ok env q K (all ! i) c)"
  have single: "attempt D env q K c (\<forall>i \<in> set ids. \<not> hit_ok env q K (all ! i) c) (first_single_hit env q K all ids ?order)"
    by (rule attempt_weaken [OF attempt_first_single [OF coll(2)]]) (use ids order in auto)
  have "attempt D env q K c ?N ?f"
    by (rule attempt_weaken [OF attempt_or_else [OF attempt_fast_path [OF coll(2) ids]
          attempt_or_else [OF attempt_merged [OF env coll(2) ids] single]]]) simp
  from attempt_search [OF inv env quiet K(1) this] obtain out where
    out: "rbind (?f c) (\<lambda>(r, c1). case r of Some results \<Rightarrow> Inr (True, results, c1)
      | None \<Rightarrow> rbind (handle_backend_miss env q K c1) (\<lambda>(results, c2). Inr (False, results, c2))) = Inr out"
      "searched D env q K c ?N out" by blast
  have "search_sequential env q K c = Inr out"
    using coll(1) out(1) by (simp add: search_sequential_def Let_def shards_config [OF inv])
  then show ?thesis by (rule that [OF coll(2) ids _ out(2)])
qed

lemma attempt_single_index:
  assumes inv: "qv_inv D env c" and env: "env_ok env" and K: "0 < K" "K \<le> qf_memory_L (qc_config c)"
    and i: "i < shards c"
  obtains res where "shard_answer env q K c i res"
    and "\<exists>r c2. search_single_index env i q K c = Inr (r, c2) \<and> reads D env q K c c2 \<and>
      (case r of None \<Rightarrow> \<not> hit_ok env q K res c \<or> get_number_of_active_vectors (qc_memory_indices c ! i) = 0
       | Some results \<Rightarrow> good_hit env q K c results)"
proof -
  obtain res where res: "search_index env i q K c = Inr res" "shard_answer env q K c i res"
    by (rule search_index_spec [OF inv env i K])
  let ?f = "\<lambda>c1. rbind (isHit_on env q K res c1) (\<lambda>(is_hit, c2).
      if is_hit then rbind (rfold touch_shard [i] c2) (\<lambda>c3. Inr (Some res, c3)) else Inr (None, c2))"
  have "attempt D env q K c (\<not> hit_ok env q K res c) ?f"
  proof (rule attempt_test [of _ env q K res "[i]"])
    show "good_hit env q K c res" if "hit_ok env q K res c"
    proof -
      have "take K res = res" using that res(2) by (simp add: hit_ok_def shard_answer_def)
      then show ?thesis
        using hit_ok_good [OF that shard_answer_distinct [OF res(2)]] shard_answer_cached [OF res(2)] by simp
    qed
  qed (use i in simp_all)
  then obtain r c2 where "?f c = Inr (r, c2)" "reads D env q K c c2"
    "case r of None \<Rightarrow> \<not> hit_ok env q K res c | Some results \<Rightarrow> good_hit env q K c results"
    using reads_refl [OF inv] unfolding attempt_def by blast
  moreover have "search_single_index env i q K c =
      (if get_number_of_active_vectors (qc_memory_indices c ! i) > 0 then ?f c else Inr (None, c))"
    using res(1) i by (simp add: search_single_index_def rbind_def split: sum.splits)
  ultimately show ?thesis
    using reads_refl [OF inv] by (intro that [OF res(2)]) (auto split: option.splits)
qed

lemma fullest_less:
  assumes "0 < n"
  shows "fold (\<lambda>i f. if a i > (a f :: nat) then i else f) [1..<n] 0 < n"
  by (rule fold_invariant [where Q = "\<lambda>i. i < n"]) (use assms in auto)

lemma parallel_spec:
  assumes inv: "qv_inv D env c" and env: "env_ok env" and K: "0 < K" "K \<le> qf_memory_L (qc_config c)"
  obtains r c2 where "parallel_search_memory_indices env q K c = Inr (r, c2)" and "reads D env q K c c2"
    and "\<forall>results. r = Some results \<longrightarrow> good_hit env q K c results"
proof -
  define active where "active = (\<lambda>i. get_number_of_active_vectors (qc_memory_indices c ! i))"
  define occ where "occ = filter (\<lambda>i. active i > 0) [0..<shards c]"
  define fullest where "fullest = fold (\<lambda>i f. if active (occ ! i) > active (occ ! f) then i else f) [1..<length occ] 0"
  define jobs where "jobs = (if fullest \<noteq> 0 then occ[0 := occ ! fullest, fullest := occ ! 0] else occ)"
  note defs = active_def [symmetric] occ_def [symmetric] fullest_def [symmetric] jobs_def [symmetric]
  have eq: "parallel_search_memory_indices env q K c =
      (if occ = [] then Inr (None, c)
       else if length jobs = 1 then search_single_index env (hd jobs) q K c
       else rbind (rfold (collect_results env q K c) jobs (replicate (shards c) [], [])) (\<lambda>(all, _).
              or_else (hit_fast_path env q K all (filter (\<lambda>i. all ! i \<noteq> []) [0..<shards c]))
                      (hit_merged env q K all (filter (\<lambda>i. all ! i \<noteq> []) [0..<shards c])) c))"
    unfolding parallel_search_memory_indices_def Let_def shards_config [OF inv] defs by simp
  show ?thesis
  proof (cases "occ = []")
    case True
    then show ?thesis using eq reads_refl [OF inv] by (intro that [of None c]) simp_all
  next
    case False
    have "fullest < length occ" unfolding fullest_def using False fullest_less [of "length occ" "\<lambda>i. active (occ ! i)"] by simp
    then have "set jobs \<subseteq> set occ"
      unfolding jobs_def using False
      by (auto dest!: subsetD [OF set_update_subset_insert])
    then have jobs: "set jobs \<subseteq> {..<shards c}" by (auto simp: occ_def)
    show ?thesis
    proof (cases "length jobs = 1")
      case True
      then have "hd jobs < shards c" using jobs by (cases jobs) auto
      then obtain res r c2 where "search_single_index env (hd jobs) q K c = Inr (r, c2)" "reads D env q K c c2"
        "case r of None \<Rightarrow> \<not> hit_ok env q K res c \<or> get_number_of_active_vectors (qc_memory_indices c ! hd jobs) = 0
          | Some results \<Rightarrow> good_hit env q K c results"
        using attempt_single_index [OF inv env K, of "hd jobs" q] by blast
      then show ?thesis using eq False True by (intro that [of r c2]) (auto split: option.splits)
    next
      case many: False
      obtain all ids where coll: "rfold (collect_results env q K c) jobs (replicate (shards c) [], []) = Inr (all, ids)"
        "collected env q K c all"
        by (rule collect_total [OF inv env K jobs])
      let ?ids = "filter (\<lambda>i. all ! i \<noteq> []) [0..<shards c]"
      have ids: "set ?ids \<subseteq> {..<shards c}" by auto
      have "attempt D env q K c (True \<and> \<not> hit_ok env q K (merged_results env all ?ids K) c)
          (or_else (hit_fast_path env q K all ?ids) (hit_merged env q K all ?ids))"
        by (rule attempt_or_else [OF attempt_fast_path [OF coll(2) ids] attempt_merged [OF env coll(2) ids]])
      then obtain r c2 where "or_else (hit_fast_path env q K all ?ids) (hit_merged env q K all ?ids) c = Inr (r, c2)"
        "reads D env q K c c2" "case r of None \<Rightarrow> True \<and> \<not> hit_ok env q K (merged_results env all ?ids K) c
          | Some results \<Rightarrow> good_hit env q K c results"
        using reads_refl [OF inv] unfolding attempt_def by blast
      then show ?thesis using eq False many coll(1) by (intro that [of r c2]) (auto split: option.splits)
    qed
  qed
qed

lemma search_spec:
  assumes inv: "qv_inv D env c" and env: "env_ok env" and quiet: "\<not> qc_eviction_in_progress c"
    and K: "0 < K" "K \<le> qf_memory_L (qc_config c)"
  obtains out where "qv_search env q K c = Inr out" and "searched D env q K c True out"
proof (cases "qc_strategy c = PARALLEL \<and> has_search_pool (qc_config c)")
  case True
  obtain r c2 where r: "parallel_search_memory_indices env q K c = Inr (r, c2)" "reads D env q K c c2"
    "\<forall>results. r = Some results \<longrightarrow> good_hit env q K c results"
    by (rule parallel_spec [OF inv env K, of q])
  have "attempt D env q K c True (\<lambda>_. Inr (r, c2))"
    using r(2,3) by (auto simp: attempt_def split: option.splits)
  from attempt_search [OF inv env quiet K(1) this] obtain out where
    "qv_search env q K c = Inr out" "searched D env q K c True out"
    using True r(1) by (auto simp: qv_search_def)
  then show ?thesis by (rule that)
next
  case False
  obtain all ids out where out: "search_sequential env q K c = Inr out"
    "searched D env q K c (\<not> hit_ok env q K (merged_results env all ids K) c \<and>
      (\<forall>i \<in> set ids. \<not> hit_ok env q K (all ! i) c)) out"
    by (rule sequential_spec [OF inv env quiet K])
  have "searched D env q K c True out" using out(2) by (auto simp: searched_def split: if_splits)
  with out(1) False show ?thesis by (intro that [of out]) (auto simp: qv_search_def)
qed

lemma searched_keeps:
  assumes "searched D env q K c N (hit, results, c')"
  shows "qv_inv D env c'" and "same_frame c c'" and "hit \<longrightarrow> same_entries c c' \<and> qc_tasks c' = qc_tasks c"
proof -
  have "qv_inv D env c' \<and> same_frame c c' \<and> (hit \<longrightarrow> same_entries c c' \<and> qc_tasks c' = qc_tasks c)"
  proof (cases hit)
    case True
    then have r: "reads D env q K c c'" using assms by (simp add: searched_def)
    then have "same_frame c c'" by (simp add: reads_def)
    then show ?thesis using readsD(1-3) [OF r] by simp
  next
    case False
    then obtain c1 c2 where c1: "reads D env q K c c1" "qv_inv D env c'" "same_frame c1 c2" "same_entries c2 c'"
      using assms by (auto simp: searched_def missed_def admits_def)
    have "same_frame c c1" using c1(1) by (simp add: reads_def)
    then have "same_frame c c2" using c1(3) by (rule frame_trans(1))
    moreover have "same_frame c2 c'" using c1(4) by (simp add: same_entries_def)
    ultimately show ?thesis using c1(2) False frame_trans(1) by blast
  qed
  then show "qv_inv D env c'" "same_frame c c'" "hit \<longrightarrow> same_entries c c' \<and> qc_tasks c' = qc_tasks c" by simp_all
qed

end
