(* ===== verification/QvData.thy ===== *)
theory QvData
  imports QvMiss
begin

text \<open>
  The data plane (\<open>insert\<close>, \<open>remove\<close>), the constructor, and whole runs of the cache: searches, insertions, removals
  and the tasks of the insert pool in any order.
\<close>

section \<open>Insertion\<close>

lemma entries_cong: "qc_memory_indices c' = qc_memory_indices c \<Longrightarrow> entries c' = entries c"
  by (simp add: entries_def fun_eq_iff)

lemma entries_updates [simp]:
  "entries (c\<lparr>qc_tasks := ts\<rparr>) = entries c" "entries (c\<lparr>qc_admit_set := a\<rparr>) = entries c"
  "entries (c\<lparr>qc_admit_fifo := f\<rparr>) = entries c" "entries (c\<lparr>qc_deleted_ids := d\<rparr>) = entries c"
  "entries (c\<lparr>qc_backend := b\<rparr>) = entries c" "entries (c\<lparr>qc_lru := l\<rparr>) = entries c"
  by (simp_all add: entries_def fun_eq_iff)

lemma stale_write_total:
  assumes inv: "qv_inv D env c"
  obtains c' where "stale_write_regions env vec c = Inr c'" and "qv_inv D env c'" and "same_entries c c'"
    and "qc_tasks c' = qc_tasks c"
proof (cases "\<exists>v s. vec = Some v \<and> qf_use_regional_theta (qc_config c) \<and> qc_pca c = Some s")
  case True
  then obtain v s where s: "vec = Some v" "qf_use_regional_theta (qc_config c)" "qc_pca c = Some s" by blast
  then have ok: "writes_ok (en_project env) s" "region_inv s" using qv_invD(5) [OF inv] by (simp_all add: pca_ok_def)
  obtain n s' where s': "tighten_theta_for_vector (en_project env) (Some v) (qc_write_theta_discount c) s = Inr (n, s')"
    "region_inv s'" "same_config s s'"
    by (rule tighten_total [OF writes_okD [OF ok(1)] ok(2)])
  let ?c = "c\<lparr>qc_pca := Some s', qc_region_invalidations := qc_region_invalidations c + of_nat n\<rparr>"
  have "writes_ok (en_project env) s'" using ok(1) by (simp add: same_config_writes [OF s'(3)])
  then have "qv_inv D env (c\<lparr>qc_pca := Some s'\<rparr>)" using s'(2) by (rule qv_inv_pca [OF inv])
  then have "qv_inv D env ?c" by (simp only: qv_inv_updates)
  moreover have "stale_write_regions env vec c = Inr ?c" using s s'(1) by (simp add: stale_write_regions_def)
  ultimately show ?thesis by (intro that [of ?c]) simp_all
next
  case False
  then have "stale_write_regions env vec c = Inr c"
    by (auto simp: stale_write_regions_def split: option.splits bool.splits)
  then show ?thesis using inv by (rule that) simp_all
qed

lemma note_admitted_simps [simp]:
  "same_entries c (note_admitted_tag t c)" "qc_tasks (note_admitted_tag t c) = qc_tasks c"
  "qv_inv D env (note_admitted_tag t c) = qv_inv D env c" "entries (note_admitted_tag t c) = entries c"
  "shards (note_admitted_tag t c) = shards c"
  by (simp_all add: note_admitted_tag_def same_entries_def same_frame_def)

text \<open>A point goes in when the shard has a slot, unless its tag is there already.\<close>

lemma insert_into_total:
  assumes inv: "qv_inv D env c" and env: "env_ok env" and id: "ident \<noteq> u32_max"
  obtains c' where "insert_point_into_shard env i ident vec c = Inr c'" and "extends D env c c'"
    and "qc_tasks c' = qc_tasks c"
    and "shard_has_insert_slots i c \<and> \<not> is_deleted_id ident c \<longrightarrow> entries c' i (1 + ident) \<noteq> None"
proof (cases "shard_has_insert_slots i c \<and> \<not> is_deleted_id ident c")
  case True
  then have i: "i < shards c" by (simp add: shard_has_insert_slots_def)
  let ?ix = "qc_memory_indices c ! i"
  have ok: "shard_ok D (qc_config c) ?ix" by (rule qv_invD(3) [OF inv i])
  have num: "numeric (en_space env)" using env by (simp add: env_ok_def)
  have index: "index_inv D {} ?ix" using ok by (simp add: shard_ok_def)
  have slots: "get_number_of_active_vectors ?ix + get_number_of_lazy_deleted_points ?ix < vx_max_points ?ix"
    using True ok by (simp add: shard_has_insert_slots_def shard_ok_def)
  obtain r ix where ix: "insert_point (en_space env) vec (1 + ident) ?ix = Inr (r, ix)" "shard_ok D (qc_config c) ix"
    "r = 0 \<and> contents ?ix (1 + ident) = None \<and> contents ix = (contents ?ix)(1 + ident \<mapsto> sp_prep (en_space env) vec) \<or>
     r = - 1 \<and> ix = ?ix"
    using insert_shard [OF ok num id_to_tag [OF id], of vec] by blast
  have there: "contents ix (1 + ident) \<noteq> None"
  proof (cases "contents ?ix (1 + ident) = None")
    case True
    then have "map_of (vx_tag_to_location ?ix) (1 + ident) = None" by (simp add: contents_def)
    moreover have "vx_nd ?ix < vx_max_points ?ix"
      using slots active_count [OF index_invD(1) [OF index]] slot_invD(9) [OF index_invD(1) [OF index]]
      by (simp add: get_number_of_lazy_deleted_points_def)
    ultimately obtain ix' where "insert_point (en_space env) vec (1 + ident) ?ix = Inr (0, ix')"
      by (rule insert_point_new [OF index num id_to_tag [OF id]])
    then show ?thesis using ix(1,3) by auto
  qed (use ix(3) in auto)
  have le: "contents ?ix \<subseteq>\<^sub>m contents ix" using ix(3) by (auto simp: map_le_def)
  let ?c = "put_index i ix c"
  have inv': "qv_inv D env ?c" by (rule put_index_inv [OF inv ix(2)])
  have grows: "grows c ?c" by (rule put_index_grows [OF i le])
  have "entries ?c i (1 + ident) \<noteq> None" using there by (simp add: put_index_entries [OF i])
  moreover have "insert_point_into_shard env i ident vec c = Inr (if r = 0 then note_admitted_tag (1 + ident) ?c else ?c)"
    using True i ix(1) by (simp add: insert_point_into_shard_def)
  moreover have "grows c (note_admitted_tag (1 + ident) ?c)"
    by (rule frame_trans(2) [OF grows frame_trans(4)]) simp
  ultimately show ?thesis
    using inv' grows by (intro that [of "if r = 0 then note_admitted_tag (1 + ident) ?c else ?c"]) (simp_all add: extends_def)
next
  case False
  then have "insert_point_into_shard env i ident vec c = Inr c"
    by (auto simp: insert_point_into_shard_def)
  then show ?thesis using False extends_refl [OF inv] by (intro that [of c]) auto
qed

lemma try_admit_total:
  assumes inv: "qv_inv D env c" and env: "env_ok env" and id: "ident \<noteq> u32_max" "ident \<notin> set (qc_deleted_ids c)"
  obtains b c' where "try_admit_data_vector env ident (Some vec) c = Inr (b, c')" and "extends D env c c'"
    and "if b then \<exists>i. entries c' i (1 + ident) \<noteq> None else \<forall>i. \<not> shard_has_insert_slots i c'"
proof -
  let ?active = "qc_active_insert_index_id c"
  obtain c1 where c1: "reclaim_insert_slots env ?active c = Inr c1" "extends D env c c1"
    using reclaim_total [OF inv env] by blast
  let ?target = "if shard_has_insert_slots ?active c1 then Some ?active else find_shard_with_capacity c1"
  have target: "shard_has_insert_slots i c1" if "?target = Some i" for i
    using that find_shard_Some by (auto split: if_splits)
  have del: "\<not> is_deleted_id ident c1"
    using id(2) grows_frame [OF extendsD(2) [OF c1(2)]] by (simp add: is_deleted_id_def same_frame_def)
  show ?thesis
  proof (cases ?target)
    case None
    then have "try_admit_data_vector env ident (Some vec) c = Inr (False, c1)"
      using c1(1) by (simp add: try_admit_data_vector_def)
    moreover have "\<forall>i. \<not> shard_has_insert_slots i c1" using None find_shard_spec [of c1] by (auto split: if_splits)
    ultimately show ?thesis using c1(2) by (intro that [of False c1]) simp_all
  next
    case (Some i)
    obtain c2 where c2: "insert_point_into_shard env i ident vec c1 = Inr c2" "extends D env c1 c2"
      "shard_has_insert_slots i c1 \<and> \<not> is_deleted_id ident c1 \<longrightarrow> entries c2 i (1 + ident) \<noteq> None"
      by (rule insert_into_total [OF extendsD(1) [OF c1(2)] env id(1)])
    have "i < shards c1" using target [OF Some] by (simp add: shard_has_insert_slots_def)
    then have "i < shards c2" using extendsD(3) [OF c2(2)] by simp
    from touch_shard_total [OF extendsD(1) [OF c2(2)] this] obtain l where
      l: "touch_shard i c2 = Inr (c2\<lparr>qc_lru := l\<rparr>)" "qv_inv D env (c2\<lparr>qc_lru := l\<rparr>)" by blast
    have "extends D env c (c2\<lparr>qc_lru := l\<rparr>)"
      by (rule extends_trans [OF extends_trans [OF c1(2) c2(2)] extends_same [OF l(2)]]) simp
    moreover have "try_admit_data_vector env ident (Some vec) c = Inr (True, c2\<lparr>qc_lru := l\<rparr>)"
      using c1(1) Some c2(1) l(1) by (simp add: try_admit_data_vector_def)
    moreover have "entries (c2\<lparr>qc_lru := l\<rparr>) i (1 + ident) \<noteq> None" using c2(3) target [OF Some] del by simp
    ultimately show ?thesis by (intro that [of True "c2\<lparr>qc_lru := l\<rparr>"]) auto
  qed
qed

text \<open>\<open>with_backend\<close>: the same cache up to the backend.\<close>

lemma backend_write_total:
  assumes inv: "qv_inv D env c" and f: "\<And>b. en_supports_updates env b \<Longrightarrow> \<exists>b'. f env b = Inr b'"
  obtains b' where "backend_write f env c = Inr (c\<lparr>qc_backend := Some b'\<rparr>)" and "qv_inv D env (c\<lparr>qc_backend := Some b'\<rparr>)"
    and "\<exists>b. qc_backend c = Some b \<and> (if en_supports_updates env b then f env b = Inr b' else b' = b)"
proof -
  obtain b where b: "qc_backend c = Some b" using qv_invD(6) [OF inv] by auto
  obtain b' where b': "if en_supports_updates env b then f env b = Inr b' else b' = b"
    using f [of b] by (cases "en_supports_updates env b") auto
  have "c\<lparr>qc_backend := Some b\<rparr> = c" using b by simp
  then have "backend_write f env c = Inr (c\<lparr>qc_backend := Some b'\<rparr>)" using b b' by (auto simp: backend_write_def)
  moreover have "qv_inv D env (c\<lparr>qc_backend := Some b'\<rparr>)" using inv by (simp add: qv_inv_def)
  ultimately show ?thesis using b b' by (intro that [of b']) auto
qed

lemma insert_spec:
  assumes inv: "qv_inv D env c" and env: "env_ok env" and id: "ident \<noteq> u32_max"
  obtains c' where "qv_insert env ident (Some vec) c = Inr c'" and "qv_inv D env c'"
    and "\<forall>i. entries c i \<subseteq>\<^sub>m entries c' i" and "qc_deleted_ids c' = removeAll ident (qc_deleted_ids c)"
    and "qc_config c' = qc_config c" and "shards c' = shards c" and "qc_eviction_in_progress c' = qc_eviction_in_progress c"
    and "(\<exists>i. entries c' i (1 + ident) \<noteq> None) \<or> (\<forall>i. \<not> shard_has_insert_slots i c')"
    and "\<exists>b b'. qc_backend c = Some b \<and> qc_backend c' = Some b' \<and>
      (if en_supports_updates env b then en_insert env ident (Some vec) b = Inr b' else b' = b)"
proof -
  let ?c1 = "c\<lparr>qc_deleted_ids := removeAll ident (qc_deleted_ids c)\<rparr>"
  let ?f = "\<lambda>env b. en_insert env ident (Some vec) b"
  have inv1: "qv_inv D env ?c1" using inv by simp
  obtain b' where b': "backend_write ?f env ?c1 = Inr (?c1\<lparr>qc_backend := Some b'\<rparr>)" "qv_inv D env (?c1\<lparr>qc_backend := Some b'\<rparr>)"
    "\<exists>b. qc_backend ?c1 = Some b \<and> (if en_supports_updates env b then ?f env b = Inr b' else b' = b)"
  proof (rule backend_write_total [OF inv1])
    show "\<exists>b'. ?f env b = Inr b'" if "en_supports_updates env b" for b using env that by (simp add: env_ok_def)
  qed
  let ?c2 = "?c1\<lparr>qc_backend := Some b'\<rparr>"
  obtain b c3 where c3: "try_admit_data_vector env ident (Some vec) ?c2 = Inr (b, c3)" "extends D env ?c2 c3"
    "if b then \<exists>i. entries c3 i (1 + ident) \<noteq> None else \<forall>i. \<not> shard_has_insert_slots i c3"
    by (rule try_admit_total [OF b'(2) env id, of vec]) simp
  obtain c4 where c4: "stale_write_regions env (Some vec) c3 = Inr c4" "qv_inv D env c4" "same_entries c3 c4"
    by (rule stale_write_total [OF extendsD(1) [OF c3(2)]])
  have slots: "shard_has_insert_slots i c4 = shard_has_insert_slots i c3" for i
    using c4(1) by (auto simp: stale_write_regions_def shard_has_insert_slots_def rbind_eq_Inr_conv split: option.splits bool.splits)
  have g: "grows ?c2 c4" using extendsD(2) [OF c3(2)] c4(3) frame_trans(2,4) by blast
  have e4: "entries c4 = entries c3" using c4(3) by (simp add: same_entries_def)
  have "qv_insert env ident (Some vec) c = Inr c4"
    using b'(1) c3(1) c4(1) by (simp add: qv_insert_def Let_def)
  moreover have "\<forall>i. entries c i \<subseteq>\<^sub>m entries c4 i" using g by (simp add: grows_def)
  moreover have "(\<exists>i. entries c4 i (1 + ident) \<noteq> None) \<or> (\<forall>i. \<not> shard_has_insert_slots i c4)"
    using c3(3) unfolding e4 slots by (auto split: if_splits)
  moreover have "same_frame ?c2 c4" by (rule grows_frame [OF g])
  ultimately show ?thesis
    using c4(2) b'(3) by (intro that [of c4]) (simp_all add: same_frame_def)
qed

section \<open>Removal\<close>

lemma forget_simps [simp]:
  "same_entries c (forget_admitted_tag t c)" "qv_inv D env (forget_admitted_tag t c) = qv_inv D env c"
  "qc_memory_indices (forget_admitted_tag t c) = qc_memory_indices c" "qc_tasks (forget_admitted_tag t c) = qc_tasks c"
  by (simp_all add: forget_admitted_tag_def same_entries_def same_frame_def)

lemma delete_all_shards:
  fixes t :: u32
  assumes inv: "qv_inv D env c" and env: "env_ok env"
  defines "c' \<equiv> c\<lparr>qc_memory_indices := map (\<lambda>index. snd (lazy_delete t index)) (qc_memory_indices c)\<rparr>"
  shows "qv_inv D env c'" and "entries c' = (\<lambda>i. (entries c i)(t := None))"
proof -
  have del: "shard_ok D (qc_config c) (snd (lazy_delete t ix)) \<and> contents (snd (lazy_delete t ix)) = (contents ix)(t := None)"
    if "ix \<in> set (qc_memory_indices c)" for ix
  proof -
    obtain r ix' where ix': "lazy_delete t ix = (r, ix')" by fastforce
    have "shard_ok D (qc_config c) ix" using inv that by (simp add: qv_inv_def)
    from lazy_delete_shard [OF this ix'] show ?thesis unfolding ix' by simp
  qed
  show "entries c' = (\<lambda>i. (entries c i)(t := None))"
    using del by (auto simp: c'_def entries_def fun_eq_iff)
  have "lru_ok c'" using qv_invD(2) [OF inv] by (simp add: lru_ok_def c'_def)
  then show "qv_inv D env c'" using inv del unfolding qv_inv_def by (auto simp: c'_def)
qed

lemma remove_spec:
  assumes inv: "qv_inv D env c" and env: "env_ok env"
  obtains c' where "qv_remove env ident vec c = Inr c'" and "qv_inv D env c'"
    and "entries c' = (\<lambda>i. (entries c i)(1 + ident := None))" and "qc_deleted_ids c' = List.insert ident (qc_deleted_ids c)"
    and "qc_config c' = qc_config c" and "shards c' = shards c" and "qc_eviction_in_progress c' = qc_eviction_in_progress c"
    and "\<exists>b b'. qc_backend c = Some b \<and> qc_backend c' = Some b' \<and>
      (if en_supports_updates env b then en_remove env ident b = Inr b' else b' = b)"
proof -
  let ?vec = "case vec of Some v \<Rightarrow> Some v | None \<Rightarrow> fetch_backend_vector env ident c"
  obtain c1 where c1: "stale_write_regions env ?vec c = Inr c1" "qv_inv D env c1" "same_entries c c1"
    by (rule stale_write_total [OF inv])
  let ?c3 = "forget_admitted_tag (1 + ident) (c1\<lparr>qc_deleted_ids := List.insert ident (qc_deleted_ids c1)\<rparr>)"
  let ?c4 = "?c3\<lparr>qc_memory_indices := map (\<lambda>index. snd (lazy_delete (1 + ident) index)) (qc_memory_indices ?c3)\<rparr>"
  have inv3: "qv_inv D env ?c3" using c1(2) by simp
  note del = delete_all_shards [OF inv3 env, of "1 + ident"]
  have e3: "entries ?c3 = entries c" using c1(3) by (simp add: same_entries_def forget_admitted_tag_def)
  let ?f = "\<lambda>env b. en_remove env ident b"
  obtain b' where b': "backend_write ?f env ?c4 = Inr (?c4\<lparr>qc_backend := Some b'\<rparr>)" "qv_inv D env (?c4\<lparr>qc_backend := Some b'\<rparr>)"
    "\<exists>b. qc_backend ?c4 = Some b \<and> (if en_supports_updates env b then ?f env b = Inr b' else b' = b)"
  proof (rule backend_write_total [OF del(1)])
    show "\<exists>b'. ?f env b = Inr b'" if "en_supports_updates env b" for b using env that by (simp add: env_ok_def)
  qed
  let ?c = "?c4\<lparr>qc_backend := Some b'\<rparr>"
  have "qv_remove env ident vec c = Inr ?c" using c1(1) b'(1) by (simp add: qv_remove_def Let_def)
  moreover have "entries ?c = (\<lambda>i. (entries c i)(1 + ident := None))"
  proof -
    have "entries ?c = entries ?c4" by (rule entries_cong) simp
    then show ?thesis unfolding del(2) e3 .
  qed
  ultimately show ?thesis
    using b'(2,3) c1(3) by (intro that [of ?c]) (simp_all add: same_entries_def same_frame_def forget_admitted_tag_def)
qed

end
