(* ===== verification/QvRuns.thy ===== *)
theory QvRuns
  imports QvData
begin

text \<open>
  The constructor and whole runs of the cache: searches, insertions, removals and the tasks of the insert pool as a
  step relation. The properties of the cache are stated here.
\<close>

section \<open>Construction\<close>

lemma fresh_order:
  assumes "0 < n" and "m \<le> n"
  shows "\<exists>l. rfold (\<lambda>i l. rbind (lru_access i l) (\<lambda>(_, l'). Inr l')) [0..<m] (lru_new n) = Inr l \<and>
    lru_inv l \<and> lru_capacity l = n \<and> lru_get_all_tags l = rev [0..<m]"
  using assms(2)
proof (induction m)
  case (Suc m)
  then obtain l where l: "rfold (\<lambda>i l. rbind (lru_access i l) (\<lambda>(_, l'). Inr l')) [0..<m] (lru_new n) = Inr l"
    "lru_inv l" "lru_capacity l = n" "lru_get_all_tags l = rev [0..<m]" by auto
  obtain b l' where "lru_access m l = Inr (b, l')"
    "lru_get_all_tags l' = recency_access n m (rev [0..<m])" "lru_inv l'" "lru_capacity l' = n"
    using lru_access_spec [OF l(2), of m] assms(1) l(3,4) by metis
  then show ?case using l(1) Suc.prems by (simp add: rfold_append recency_access_def)
qed (simp add: lru_new_def lru_get_all_tags_def lru_inv_def)

definition pca_given :: "('v, 'b) environment \<Rightarrow> qv_config \<Rightarrow> pca_utils option \<Rightarrow> bool" where
  "pca_given env qf pca \<longleftrightarrow> (qf_use_regional_theta qf \<longrightarrow>
     (\<exists>s. pca = Some s \<and> writes_ok (en_project env) s \<and> region_inv s))"

lemma new_spec:
  assumes cfg: "qv_config_ok D qf" and pca: "pca_given env qf pca"
  obtains c where "qv_new env qf (Some b) pca = Inr c" and "qv_inv D env c" and "\<not> qc_eviction_in_progress c"
    and "entries c = (\<lambda>_. Map.empty)" and "qc_deleted_ids c = []" and "qc_config c = qf" and "qc_tasks c = []"
    and "shards c = qf_number_of_mini_indexes qf"
    and "\<forall>i < shards c. get_number_of_active_vectors (qc_memory_indices c ! i) = 0 \<and>
      get_number_of_lazy_deleted_points (qc_memory_indices c ! i) = 0"
proof -
  let ?n = "qf_number_of_mini_indexes qf"
  have pos: "0 < ?n" "0 < qf_points_per_index qf" using cfg by (simp_all add: qv_config_ok_def)
  obtain ix where ix: "create_memory_index (en_space env) qf (qf_points_per_index qf) = Inr ix" "index_inv D {} ix"
    "vx_max_points ix = qf_points_per_index qf" "vx_metric ix = qf_metric qf" "contents ix = Map.empty"
    "vx_tag_to_location ix = []" "vx_delete_set ix = []"
    by (rule create_memory_index_ok [OF cfg pos(2)])
  have indices: "rmap (\<lambda>i. create_memory_index (en_space env) qf (qf_points_per_index qf)) [0..<?n] = Inr (replicate ?n ix)"
    using rmap_Inr [of "[0..<?n]" _ "\<lambda>_. ix"] ix(1) by (simp add: map_replicate_const)
  obtain l where l: "rfold (\<lambda>i l. rbind (lru_access i l) (\<lambda>(_, l'). Inr l')) [0..<?n] (lru_new ?n) = Inr l"
    "lru_inv l" "lru_capacity l = ?n" "lru_get_all_tags l = rev [0..<?n]"
    using fresh_order [OF pos(1) order_refl] by blast
  obtain c where c: "qv_new env qf (Some b) pca = Inr c" "qc_config c = qf" "qc_backend c = Some b"
    "qc_memory_indices c = replicate ?n ix" "qc_active_insert_index_id c = 0" "qc_lru c = l" "qc_tasks c = []"
    "qc_pca c = (if qf_use_regional_theta qf then pca else None)" "\<not> qc_eviction_in_progress c" "qc_deleted_ids c = []"
    by (simp add: qv_new_def Let_def indices l(1))
  have "lru_ok c" using c l(2-4) pos(1) by (auto simp: lru_ok_def)
  moreover have "shard_ok D qf ix" using ix(2-4) by (simp add: shard_ok_def)
  moreover have "pca_ok env c" using c(2,8) pca by (auto simp: pca_ok_def pca_given_def)
  ultimately have "qv_inv D env c" using c cfg by (simp add: qv_inv_def)
  moreover have "entries c = (\<lambda>_. Map.empty)" using c(4) ix(5) by (simp add: entries_def fun_eq_iff)
  ultimately show ?thesis
    using c ix(6,7) by (intro that [of c])
      (simp_all add: get_number_of_active_vectors_def get_number_of_lazy_deleted_points_def)
qed

section \<open>Runs\<close>

datatype 'v qv_event =
    Searched 'v nat bool answer
  | Written u32 'v
  | Erased u32
  | Worked

text \<open>A pool worker runs one of the queued tasks; the locks of the shard make a task and another operation exclusive.\<close>

inductive qv_step :: "('v, 'b) environment \<Rightarrow> ('v, 'b) qvcache \<Rightarrow> 'v qv_event \<Rightarrow> ('v, 'b) qvcache \<Rightarrow> bool"
  for env :: "('v, 'b) environment" where
  step_search: "0 < K \<Longrightarrow> K \<le> qf_memory_L (qc_config c) \<Longrightarrow> qv_search env q K c = Inr (hit, results, c') \<Longrightarrow>
     qv_step env c (Searched q K hit results) c'"
| step_write: "ident \<noteq> u32_max \<Longrightarrow> qv_insert env ident (Some v) c = Inr c' \<Longrightarrow> qv_step env c (Written ident v) c'"
| step_erase: "qv_remove env ident vec c = Inr c' \<Longrightarrow> qv_step env c (Erased ident) c'"
| step_work: "qc_tasks c = ts1 @ t # ts2 \<Longrightarrow> run_task env t (c\<lparr>qc_tasks := ts1 @ ts2\<rparr>) = Inr c' \<Longrightarrow> qv_step env c Worked c'"

definition ready :: "nat \<Rightarrow> ('v, 'b) environment \<Rightarrow> ('v, 'b) qvcache \<Rightarrow> bool" where
  "ready D env c \<longleftrightarrow> env_ok env \<and> qv_inv D env c \<and> \<not> qc_eviction_in_progress c"

text \<open>The specification: the set of removed ids, and that a hit contains none.\<close>

fun tomb_step :: "u32 set \<Rightarrow> 'v qv_event \<Rightarrow> u32 set \<Rightarrow> bool" where
  "tomb_step S (Searched q K hit results) S' = (S' = S \<and> (hit \<longrightarrow> (\<forall>r \<in> set results. fst r - 1 \<notin> S)))"
| "tomb_step S (Written ident v) S' = (S' = S - {ident})"
| "tomb_step S (Erased ident) S' = (S' = insert ident S)"
| "tomb_step S Worked S' = (S' = S)"

lemma search_Inr:
  assumes "ready D env c" and "0 < K" and "K \<le> qf_memory_L (qc_config c)" and "qv_search env q K c = Inr (hit, results, c')"
  shows "searched D env q K c True (hit, results, c')"
proof -
  obtain out where "qv_search env q K c = Inr out" "searched D env q K c True out"
    using assms(1) search_spec [OF _ _ _ assms(2,3), of D env q] unfolding ready_def by blast
  then show ?thesis using assms(4) by simp
qed

lemma drop_task_inv:
  assumes "qv_inv D env c" and "qc_tasks c = ts1 @ t # ts2"
  shows "qv_inv D env (c\<lparr>qc_tasks := ts1 @ ts2\<rparr>)" and "task_ok (shards c) t"
  using assms by (simp_all add: qv_inv_def)

lemma qv_step_ok:
  assumes "qv_step env c e c'" and ready: "ready D env c"
  shows "ready D env c' \<and> tomb_step (set (qc_deleted_ids c)) e (set (qc_deleted_ids c')) \<and> qc_config c' = qc_config c"
proof -
  have inv: "qv_inv D env c" and env: "env_ok env" and quiet: "\<not> qc_eviction_in_progress c"
    using ready by (simp_all add: ready_def)
  from assms(1) show ?thesis
  proof (cases rule: qv_step.cases)
    case (step_search K q hit results)
    have s: "searched D env q K c True (hit, results, c')" by (rule search_Inr [OF ready step_search(2-4)])
    have "\<forall>r \<in> set results. fst r - 1 \<notin> set (qc_deleted_ids c)" if hit
      using s that by (simp add: searched_def good_hit_def is_deleted_id_def)
    then show ?thesis using searched_keeps [OF s] env quiet step_search(1) by (simp add: ready_def same_frame_def)
  next
    case (step_write ident v)
    obtain c1 where "qv_insert env ident (Some v) c = Inr c1" "qv_inv D env c1"
      "qc_deleted_ids c1 = removeAll ident (qc_deleted_ids c)" "qc_config c1 = qc_config c"
      "qc_eviction_in_progress c1 = qc_eviction_in_progress c"
      by (rule insert_spec [OF inv env step_write(2)])
    then show ?thesis using step_write env quiet by (simp add: ready_def)
  next
    case (step_erase ident vec)
    obtain c1 where "qv_remove env ident vec c = Inr c1" "qv_inv D env c1"
      "qc_deleted_ids c1 = List.insert ident (qc_deleted_ids c)" "qc_config c1 = qc_config c"
      "qc_eviction_in_progress c1 = qc_eviction_in_progress c"
      by (rule remove_spec [OF inv env])
    then show ?thesis using step_erase env quiet by (simp add: ready_def)
  next
    case (step_work ts1 t ts2)
    let ?c = "c\<lparr>qc_tasks := ts1 @ ts2\<rparr>"
    have t: "task_ok (shards ?c) t" using drop_task_inv(2) [OF inv step_work(2)] by simp
    obtain c1 where "run_task env t ?c = Inr c1" "qv_inv D env c1" "grows ?c c1"
      by (rule run_task_total [OF drop_task_inv(1) [OF inv step_work(2)] env t])
    then show ?thesis using step_work env quiet by (simp add: ready_def grows_def same_frame_def)
  qed
qed

interpretation cache_run: simulation "qv_step env" "ready D env" "\<lambda>c. set (qc_deleted_ids c)" tomb_step
  for env :: "('v, 'b) environment" and D
  by unfold_locales (use qv_step_ok in blast)+

text \<open>From one removal on, until its id is written again.\<close>

lemma tomb_run:
  assumes "run tomb_step S es S'" and "ident \<in> S" and "\<forall>v. Written ident v \<notin> set es"
    and "Searched q K True results \<in> set es"
  shows "ident + 1 \<notin> fst ` set results"
  using assms
proof (induction rule: run.induct)
  case (run_Cons S e S1 es S2)
  show ?case
  proof (cases "e = Searched q K True results")
    case True
    then have "\<forall>r \<in> set results. fst r - 1 \<notin> S" using run_Cons.hyps(1) by simp
    then show ?thesis using run_Cons.prems(1) by (metis add_diff_cancel_right' imageE)
  next
    case False
    then have "Searched q K True results \<in> set es" using run_Cons.prems(3) by simp
    moreover have "ident \<in> S1" using run_Cons.hyps(1) run_Cons.prems(1,2) by (cases e) auto
    ultimately show ?thesis using run_Cons.IH run_Cons.prems(2) by simp
  qed
qed simp

lemma shard_ok_bound:
  assumes "shard_ok D qf ix"
  shows "get_number_of_active_vectors ix + get_number_of_lazy_deleted_points ix \<le> qf_points_per_index qf"
proof -
  have i: "slot_inv {} ix" "vx_max_points ix = qf_points_per_index qf"
    using assms index_invD(1) by (auto simp: shard_ok_def)
  have "vx_nd ix \<le> vx_max_points ix" using slot_counts [OF i(1)] by simp
  then show ?thesis
    using i(2) active_count [OF i(1)] slot_invD(9) [OF i(1)] by (simp add: get_number_of_lazy_deleted_points_def)
qed

end
