(* ===== verification/QvProperties.thy ===== *)
theory QvProperties
  imports QvRuns
begin

text \<open>
  The properties of the cache, and the small cache their witnesses run on: two mini-indexes of two points on a line,
  a backend in which id \<open>i\<close> is the point \<open>i\<close>.
\<close>

section \<open>An example\<close>

definition line_env :: "(rat, unit) environment" where
  "line_env = \<lparr>en_space = line_space, en_project = (\<lambda>_. []),
     en_search = (\<lambda>_ q K. Inr (map of_nat [0..<K], map (\<lambda>i. Fin \<bar>q - of_nat i\<bar>) [0..<K])),
     en_fetch = (\<lambda>_ ids. Inr (map (\<lambda>i. of_nat (unat i)) ids)), en_supports_updates = (\<lambda>_. False),
     en_insert = (\<lambda>_ _ b. Inr b), en_remove = (\<lambda>_ b. Inr b), en_ord = (\<lambda>xs. xs), en_merge_ord = (\<lambda>xs. xs),
     en_count_ord = (\<lambda>xs. xs), en_task_ord = (\<lambda>xs. xs)\<rparr>"

definition line_qf :: qv_config where
  "line_qf = \<lparr>qf_dim = 1, qf_aligned_dim = 8, qf_points_per_index = 2, qf_number_of_mini_indexes = 2,
     qf_search_threads = 1, qf_p = Fin (1 / 2), qf_deviation_factor = Fin (1 / 4), qf_memory_L = 4,
     qf_use_regional_theta = False, qf_lazy_theta_updates = True, qf_use_reconstructed_vectors = False,
     qf_max_search_threads = 2, qf_metric = L2\<rparr>"

lemma line_env_ok: "env_ok line_env"
  using line_numeric by (simp add: env_ok_def line_env_def ord_ok_def)

lemma line_qf_ok:
  obtains D where "qv_config_ok D line_qf"
proof -
  obtain b where "slack_bound 8 = Inr b" by (rule slack_bound_Inr [of 8]) simp
  then have "qv_config_ok (max b 8) line_qf" by (auto simp: qv_config_ok_def line_qf_def)
  then show ?thesis by (rule that)
qed

definition line_cache :: "nat \<Rightarrow> (rat, unit) qvcache \<Rightarrow> bool" where
  "line_cache D c \<longleftrightarrow> qv_config_ok D line_qf \<and> qv_new line_env line_qf (Some ()) None = Inr c \<and> ready D line_env c \<and>
     entries c = (\<lambda>_. Map.empty) \<and> qc_deleted_ids c = [] \<and> qc_config c = line_qf \<and> shards c = 2"

lemma line_cache_ex:
  obtains D c where "line_cache D c"
proof -
  obtain D where D: "qv_config_ok D line_qf" by (rule line_qf_ok)
  have "pca_given line_env line_qf None" by (simp add: pca_given_def line_qf_def)
  from new_spec [OF D this, of "()"] obtain c where
    "qv_new line_env line_qf (Some ()) None = Inr c" "qv_inv D line_env c" "\<not> qc_eviction_in_progress c"
    "entries c = (\<lambda>_. Map.empty)" "qc_deleted_ids c = []" "qc_config c = line_qf"
    "shards c = qf_number_of_mini_indexes line_qf" by metis
  then show ?thesis using D line_env_ok by (intro that [of D c]) (simp_all add: line_cache_def ready_def line_qf_def)
qed

text \<open>A warm cache: the first mini-index holds the point 0, and the threshold for one neighbour is 3.\<close>

definition line_ix0 :: "rat vindex" where
  "line_ix0 = (case create_memory_index line_space line_qf 2 of Inr ix \<Rightarrow> ix)"

definition line_ix1 :: "rat vindex" where
  "line_ix1 = (case insert_point line_space 0 1 line_ix0 of Inr (r, ix) \<Rightarrow> ix)"

lemma line_ix_eval:
  "get_number_of_active_vectors line_ix0 = 0" "get_number_of_active_vectors line_ix1 = 1"
  "search_with_tags line_space line_ix1 3 1 4 1 = Inr [(1, Fin 3)]" 
  "map_of (vx_tag_to_location line_ix0) 6 = None" "map_of (vx_tag_to_location line_ix1) 6 = None"
  by code_simp+

lemma line_ok:
  assumes "qv_config_ok D line_qf"
  shows "shard_ok D line_qf line_ix0" and "shard_ok D line_qf line_ix1" and "contents line_ix0 = Map.empty"
    and "contents line_ix1 = [1 \<mapsto> 0]"
proof -
  have two: "(0 :: nat) < 2" by simp
  obtain ix where "create_memory_index line_space line_qf 2 = Inr ix" "index_inv D {} ix" "vx_max_points ix = 2"
    "vx_metric ix = qf_metric line_qf" "contents ix = Map.empty"
    by (rule create_memory_index_ok [OF assms two])
  then show ok0: "shard_ok D line_qf line_ix0" and e: "contents line_ix0 = Map.empty"
    by (simp_all add: line_ix0_def shard_ok_def line_qf_def)
  obtain r ix1 where ix1: "insert_point line_space 0 1 line_ix0 = Inr (r, ix1)" "shard_ok D line_qf ix1"
    "r = 0 \<and> contents line_ix0 1 = None \<and> contents ix1 = (contents line_ix0)(1 \<mapsto> sp_prep line_space 0) \<or> r = - 1 \<and> ix1 = line_ix0"
    using insert_shard [OF ok0 line_numeric, of 1 0] by auto
  then have eq: "line_ix1 = ix1" by (simp add: line_ix1_def)
  then show "shard_ok D line_qf line_ix1" using ix1(2) by simp
  have "line_ix1 \<noteq> line_ix0" using line_ix_eval(1,2) by force
  then show "contents line_ix1 = [1 \<mapsto> 0]" using ix1(3) e by (auto simp: eq line_space_def)
qed

definition line_warm :: "(rat, unit) qvcache" where
  "line_warm = \<lparr>qc_config = line_qf, qc_backend = Some (), qc_memory_indices = [line_ix1, line_ix0],
     qc_active_insert_index_id = 0, qc_lru = (case rfold (\<lambda>i l. rbind (lru_access i l) (\<lambda>(_, l'). Inr l')) [0..<2] (lru_new 2) of Inr l \<Rightarrow> l),
     qc_tasks = [], qc_theta_map = [(1, Fin 3)], qc_pca = None, qc_eviction_in_progress = False,
     qc_write_theta_discount = Fin (1 / 2), qc_deleted_ids = [], qc_admit_fifo = [], qc_admit_set = [],
     qc_point_evictions = 0, qc_region_invalidations = 0, qc_strategy = SEQUENTIAL\<rparr>"

lemma line_warm_ready:
  assumes "qv_config_ok D line_qf"
  shows "ready D line_env line_warm"
proof -
  obtain l where l: "rfold (\<lambda>i l. rbind (lru_access i l) (\<lambda>(_, l'). Inr l')) [0..<2] (lru_new 2) = Inr l"
    "lru_inv l" "lru_capacity l = 2" "lru_get_all_tags l = rev [0..<2]"
    using fresh_order [of 2 2] by auto
  then have "lru_ok line_warm" by (auto simp: lru_ok_def line_warm_def line_qf_def)
  then show ?thesis
    using line_env_ok assms line_ok(1,2) [OF assms]
    by (simp add: ready_def qv_inv_def pca_ok_def) (simp add: line_warm_def line_qf_def)
qed

lemma line_hit:
  assumes ready: "ready D line_env c" and mem: "qc_memory_indices c = [a, b]" and cfg: "qc_config c = line_qf"
    and active: "get_number_of_active_vectors a = 1" "get_number_of_active_vectors b = 0"
    and search: "search_with_tags line_space a 3 1 4 1 = Inr [(1, Fin 3)]"
    and theta: "qc_theta_map c = [(1, Fin 3)]" and strategy: "qc_strategy c = SEQUENTIAL"
    and order: "lru_get_all_tags (qc_lru c) = [1, 0]" and del: "0 \<notin> set (qc_deleted_ids c)"
  shows "\<exists>c'. qv_search line_env 3 1 c = Inr (True, [(1, Fin 3)], c')"
proof -
  have inv: "qv_inv D line_env c" using ready by (simp add: ready_def)
  have "fround binary64 (5 / 4) = Fin (5 / 4)" "fround binary64 (15 / 4) = Fin (15 / 4)"
    using f64.fround_exact [of 5 "- 2"] f64.fround_exact [of 15 "- 2"]
    by (simp_all add: binary64_def power_int_minus)
  then have tol: "within_tolerance (Fin (1 / 4)) (Fin 3) (Fin 3)" by (simp add: within_tolerance_def fp_le_def)
  have live: "\<not> is_uninitialized_theta L2 (Fin 3)" by (rule small_theta_live) simp_all
  have "search_index line_env 0 3 1 c = Inr [(1, Fin 3)]"
    using search by (simp add: search_index_def index_at_def mem cfg line_env_def line_qf_def)
  then have coll: "rfold (collect_results line_env 3 1 c) [1, 0] (replicate 2 [], []) = Inr ([[(1, Fin 3)], []], [0])"
    by (simp add: collect_results_def mem active numeral_2_eq_2)
  have hit: "isHit_on line_env 3 1 [(1, Fin 3)] c = Inr (True, c)"
    using del tol live by (simp add: isHit_on_def isHit_def has_k_live_results_def is_deleted_id_def cfg theta um_at_def
        line_qf_def get_number_of_vectors_in_memory_index_def mem active dist_at_def u32_max_def)
  obtain l where "touch_shard 0 c = Inr (c\<lparr>qc_lru := l\<rparr>)" by (rule touch_shard_total [OF inv, of 0]) (simp add: mem)
  then have "hit_fast_path line_env 3 1 [[(1, Fin 3)], []] [0] c = Inr (Some [(1, Fin 3)], c\<lparr>qc_lru := l\<rparr>)"
    using hit by (simp add: hit_fast_path_def hit_single_def)
  then show ?thesis
    using coll by (simp add: qv_search_def strategy search_sequential_def order cfg or_else_def Let_def)
      (simp add: line_qf_def)
qed

lemma line_warm_hits:
  obtains D c' where "qv_config_ok D line_qf" and "ready D line_env line_warm"
    and "qv_search line_env 3 1 line_warm = Inr (True, [(1, Fin 3)], c')"
proof -
  obtain D where D: "qv_config_ok D line_qf" by (rule line_qf_ok)
  have order: "lru_get_all_tags (qc_lru line_warm) = [1, 0]"
    using fresh_order [of 2 2] by (auto simp: line_warm_def upt_rec)
  have "qc_memory_indices line_warm = [line_ix1, line_ix0]" by (simp add: line_warm_def)
  from line_hit [OF line_warm_ready [OF D] this _ line_ix_eval(2,1,3) _ _ order] D line_warm_ready [OF D] that
  show ?thesis by (auto simp: line_warm_def)
qed

section \<open>Searches\<close>




lemma empty_misses:
  assumes "ready D env c" and "0 < K" and "K \<le> qf_memory_L (qc_config c)" and "entries c = (\<lambda>_. Map.empty)"
  obtains results c' where "qv_search env query K c = Inr (False, results, c')"
proof -
  obtain hit results c' where out: "qv_search env query K c = Inr (hit, results, c')" "searched D env query K c True (hit, results, c')"
    using assms(1) search_spec [OF _ _ _ assms(2,3), of D env query] unfolding ready_def by (metis prod_cases3)
  have "\<not> hit"
  proof
    assume hit
    then have "good_hit env query K c results" using out(2) by (simp add: searched_def)
    then have "length results = K" "\<forall>r \<in> set results. \<not> True" using assms(4) by (auto simp: good_hit_def cached_def)
    then show False using assms(2) by (cases results) auto
  qed
  then show ?thesis using out(1) that by simp
qed


text \<open>C14: The merge of the results of several mini-indexes has the distances a plain specification has: of every tag the
  least distance offered, sorted, the first \<open>K\<close>. Its pairs are offered ones, every tag occurs once and at its least
  distance (only which of several tags at equal distance come first is left to the order of the hash map), and the
  shards listed as contributing are sources of these results.\<close>

theorem merge_takes_best:
  assumes "env_ok env" and "\<forall>r \<in> set (offered all ids). snd r \<noteq> NaN"
  shows "let (results, sources) = merge_and_rerank_results env all ids K in
    map snd results = map snd (plain_merge (offered all ids) K) \<and> distinct (map fst results) \<and>
    (\<forall>(t, d) \<in> set results. (t, d) \<in> set (offered all ids) \<and> d = least_distance (offered all ids) t) \<and>
    (\<forall>i \<in> set sources. i \<in> set ids \<and> (\<exists>r \<in> set results. r \<in> set (all ! i)))"
proof -
  let ?m = "merged env all ids K" and ?out = "merge_and_rerank_results env all ids K"
  have res: "fst ?out = map (\<lambda>r. (fst r, fst (snd r))) ?m" by (simp add: merge_eq)
  have "map snd (fst ?out) = map snd (plain_merge (offered all ids) K)"
    using plain_distances [OF assms, of K] unfolding res by (simp add: comp_def)
  moreover have "distinct (map fst (fst ?out))" using merged_best(2) [OF assms(1)] unfolding res by (simp add: comp_def)
  moreover have "\<forall>(t, d) \<in> set (fst ?out). (t, d) \<in> set (offered all ids) \<and> d = least_distance (offered all ids) t"
  proof clarify
    fix t d assume "(t, d) \<in> set (fst ?out)"
    then obtain i where i: "(t, d, i) \<in> set ?m" unfolding res by auto
    have "(t, d) \<in> set (offered all ids)" using merged_mem [OF assms(1) i] by (force simp: offered_set)
    moreover have "(t, d, i) \<in> set (fold (merge_index all) ids [])" using merged_best(1) [OF assms(1)] i by blast
    then have "(t, d) \<in> set (map (\<lambda>r. (fst r, fst (snd r))) (fold (merge_index all) ids []))" by force
    then have "d = least_distance (offered all ids) t"
      unfolding mset_eq_setD [OF best_least [OF merge_best assms(2)]] by auto
    ultimately show "(t, d) \<in> set (offered all ids) \<and> d = least_distance (offered all ids) t" ..
  qed
  moreover have "\<forall>i \<in> set (snd ?out). i \<in> set ids \<and> (\<exists>r \<in> set (fst ?out). r \<in> set (all ! i))"
  proof
    fix i assume "i \<in> set (snd ?out)"
    then obtain t d where m: "(t, d, i) \<in> set ?m" unfolding contributing_set [OF assms(1)] by force
    have "(i, t, d) \<in> offers all ids" by (rule merged_mem [OF assms(1) m])
    moreover have "(t, d) \<in> set (fst ?out)" unfolding res using m by force
    ultimately show "i \<in> set ids \<and> (\<exists>r \<in> set (fst ?out). r \<in> set (all ! i))" by (auto simp: offers_def)
  qed
  ultimately show ?thesis by (simp add: split_beta Let_def)
qed

theorem merge_takes_best_witness:
  "let all = [[(1, Fin 1), (2, Fin 3)], [(2, Fin 2), (3, Fin 5)]] in
   merge_and_rerank_results line_env all [0, 1] 2 = ([(1, Fin 1), (2, Fin 2)], [0, 1]) \<and>
   map snd (plain_merge (offered all [0, 1]) 2) = [Fin 1, Fin 2]"
proof -
  let ?all = "[[(1, Fin 1), (2, Fin 3)], [(2, Fin 2), (3, Fin 5)]] :: answer list"
  have out: "merge_and_rerank_results line_env ?all [0, 1] 2 = ([(1, Fin 1), (2, Fin 2)], [0, 1])"
    by (simp add: merge_and_rerank_results_def merge_index_def keep_best_def count_source_def um_at_def line_env_def fp_lt_def
        numeral_2_eq_2)
  have "\<forall>r \<in> set (offered ?all [0, 1]). snd r \<noteq> NaN" by (simp add: offered_def)
  from merge_takes_best [OF line_env_ok this, of 2, unfolded out Let_def prod.case]
  have "map snd (plain_merge (offered ?all [0, 1]) 2) = [Fin 1, Fin 2]" by simp
  then show ?thesis unfolding Let_def using out by blast
qed

section \<open>The data plane\<close>



text \<open>C31: The largest id wraps to the tag 0, which a mini-index refuses by an exception: an insertion of this id throws
  when the active mini-index has a slot, after the backend has taken the vector and before the thresholds around it
  are tightened.\<close>

theorem largest_id_throws:
  assumes "ready D env c" and "shard_has_insert_slots (qc_active_insert_index_id c) c"
  shows "\<exists>msg. qv_insert env u32_max (Some v) c = Inl (Throws msg)"
proof -
  have inv: "qv_inv D env c" and env: "env_ok env" using assms(1) by (simp_all add: ready_def)
  let ?c1 = "c\<lparr>qc_deleted_ids := removeAll u32_max (qc_deleted_ids c)\<rparr>" and ?i = "qc_active_insert_index_id c"
  let ?f = "\<lambda>env b. en_insert env u32_max (Some v) b"
  have inv1: "qv_inv D env ?c1" using inv by simp
  obtain b' where b': "backend_write ?f env ?c1 = Inr (?c1\<lparr>qc_backend := Some b'\<rparr>)"
  proof (rule backend_write_total [OF inv1])
    show "\<exists>b'. ?f env b = Inr b'" if "en_supports_updates env b" for b using env that by (simp add: env_ok_def)
  qed
  let ?c2 = "?c1\<lparr>qc_backend := Some b'\<rparr>"
  have slots: "shard_has_insert_slots ?i ?c2" and "?i < shards ?c2"
    using assms(2) by (simp_all add: shard_has_insert_slots_def)
  then have target: "reclaim_insert_slots env ?i ?c2 = Inr ?c2" by (simp add: reclaim_insert_slots_def)
  obtain msg where "insert_point (en_space env) v (1 + u32_max) (qc_memory_indices c ! ?i) = Inl (Throws msg)"
    by (simp add: insert_point_def u32_max_def)
  then have "insert_point_into_shard env ?i u32_max v ?c2 = Inl (Throws msg)"
    using slots \<open>?i < shards ?c2\<close> by (simp add: insert_point_into_shard_def is_deleted_id_def)
  then show ?thesis using b' target slots by (simp add: qv_insert_def try_admit_data_vector_def Let_def)
qed

theorem largest_id_throws_witness:
  "\<exists>(c :: (rat, unit) qvcache) msg. qv_insert line_env u32_max (Some 7) c = Inl (Throws msg)"
proof -
  obtain D where D: "qv_config_ok D line_qf" by (rule line_qf_ok)
  have "pca_given line_env line_qf None" by (simp add: pca_given_def line_qf_def)
  from new_spec [OF D this, of "()"] obtain c where c: "qv_inv D line_env c" "\<not> qc_eviction_in_progress c"
    "qc_config c = line_qf" "shards c = qf_number_of_mini_indexes line_qf"
    "\<forall>i < shards c. get_number_of_active_vectors (qc_memory_indices c ! i) = 0 \<and>
      get_number_of_lazy_deleted_points (qc_memory_indices c ! i) = 0" by metis
  have "qc_active_insert_index_id c < shards c" using qv_invD(2) [OF c(1)] by (simp add: lru_ok_def)
  then have "shard_has_insert_slots (qc_active_insert_index_id c) c"
    using c(3,5) by (simp add: shard_has_insert_slots_def line_qf_def)
  moreover have "ready D line_env c" using c(1,2) line_env_ok by (simp add: ready_def)
  ultimately show ?thesis using largest_id_throws [of D line_env c 7] by blast
qed

text \<open>C7: A removal takes the entry of the id out of every mini-index, marks the id and tells the backend if it takes
  updates; all other entries stay.\<close>

theorem remove_forgets:
  assumes "ready D env c"
  shows "\<exists>c'. qv_remove env ident vec c = Inr c' \<and> ready D env c' \<and>
    entries c' = (\<lambda>i. (entries c i)(1 + ident := None)) \<and> set (qc_deleted_ids c') = insert ident (set (qc_deleted_ids c)) \<and>
    (\<exists>b b'. qc_backend c = Some b \<and> qc_backend c' = Some b' \<and>
       (if en_supports_updates env b then en_remove env ident b = Inr b' else b' = b))"
proof -
  have inv: "qv_inv D env c" and env: "env_ok env" using assms by (simp_all add: ready_def)
  obtain c' where c': "qv_remove env ident vec c = Inr c'" "qv_inv D env c'"
    "entries c' = (\<lambda>i. (entries c i)(1 + ident := None))" "qc_deleted_ids c' = List.insert ident (qc_deleted_ids c)"
    "qc_eviction_in_progress c' = qc_eviction_in_progress c"
    "\<exists>b b'. qc_backend c = Some b \<and> qc_backend c' = Some b' \<and>
      (if en_supports_updates env b then en_remove env ident b = Inr b' else b' = b)"
    by (rule remove_spec [OF inv env])
  have "ready D env c'" using assms c'(2,5) by (simp add: ready_def)
  then show ?thesis using c'(1,3,4,6) by simp
qed

theorem remove_forgets_witness:
  "\<exists>(c :: (rat, unit) qvcache) c'. qv_remove line_env 5 None c = Inr c' \<and> set (qc_deleted_ids c') = {5}"
proof -
  obtain D c where "line_cache D c" by (rule line_cache_ex)
  then have "ready D line_env c" "qc_deleted_ids c = []" by (simp_all add: line_cache_def)
  with remove_forgets [OF this(1), of 5 None] show ?thesis by auto
qed

text \<open>C2: After an id has been removed no hit of any later search contains it, until it is inserted again: not during
  searches by other callers, not when a queued insertion of the id runs after the removal.\<close>

theorem removed_never_hit:
  assumes "run (qv_step env) c (Erased ident # es) c'" and "ready D env c"
    and "\<forall>v. Written ident v \<notin> set es" and "Searched query K True results \<in> set es"
  shows "ident + 1 \<notin> fst ` set results"
proof -
  have "run tomb_step (set (qc_deleted_ids c)) (Erased ident # es) (set (qc_deleted_ids c'))"
    by (rule cache_run.run_spec [OF assms(1,2)])
  then show ?thesis using tomb_run [OF _ _ assms(3,4)] by (auto simp: run_Cons_iff)
qed

theorem removed_never_hit_witness:
  "\<exists>c'. run (qv_step line_env) line_warm [Erased 5, Searched 3 1 True [(1, Fin 3)]] c' \<and> 5 + 1 \<notin> fst ` set [(1 :: u32, Fin 3)]"
proof -
  obtain D where D: "qv_config_ok D line_qf" "ready D line_env line_warm" by (rule line_warm_hits)
  let ?a = "line_ix1\<lparr>vx_data_compacted := False\<rparr>" and ?b = "line_ix0\<lparr>vx_data_compacted := False\<rparr>"
  let ?c = "line_warm\<lparr>qc_deleted_ids := [5], qc_memory_indices := [?a, ?b]\<rparr>"
  have "lazy_delete 6 line_ix1 = (- 1, ?a)" "lazy_delete 6 line_ix0 = (- 1, ?b)"
    using line_ix_eval(4,5) by (simp_all add: lazy_delete_def)
  then have remove: "qv_remove line_env 5 None line_warm = Inr ?c"
    by (simp add: qv_remove_def stale_write_regions_def forget_admitted_tag_def backend_write_def line_warm_def line_qf_def
        line_env_def fetch_backend_vector_def Let_def)
  then have erase: "qv_step line_env line_warm (Erased 5) ?c" by (rule step_erase)
  then have ready: "ready D line_env ?c" using qv_step_ok [OF _ D(2)] by blast
  have "get_number_of_active_vectors ?a = 1" "get_number_of_active_vectors ?b = 0"
    using line_ix_eval(1,2) by (simp_all add: get_number_of_active_vectors_def)
  moreover have "search_with_tags line_space ?a 3 1 4 1 = Inr [(1, Fin 3)]" by code_simp
  moreover have "lru_get_all_tags (qc_lru ?c) = [1, 0]"
    using fresh_order [of 2 2] by (auto simp: line_warm_def upt_rec)
  ultimately obtain c' where c': "qv_search line_env 3 1 ?c = Inr (True, [(1, Fin 3)], c')"
    using line_hit [OF ready, of ?a ?b] by (auto simp: line_warm_def)
  have "qv_step line_env ?c (Searched 3 1 True [(1, Fin 3)]) c'"
    by (rule step_search [OF _ _ c']) (simp_all add: line_warm_def line_qf_def)
  then have "run (qv_step line_env) ?c [Searched 3 1 True [(1, Fin 3)]] c'" by (rule run_Cons [OF _ run_Nil])
  with erase have r: "run (qv_step line_env) line_warm [Erased 5, Searched 3 1 True [(1, Fin 3)]] c'" by (rule run_Cons)
  have "5 + 1 \<notin> fst ` set [(1 :: u32, Fin 3)]" by (rule removed_never_hit [OF r D(2), of 3 1]) simp_all
  with r show ?thesis by blast
qed

section \<open>Construction and capacity\<close>

text \<open>C24: The constructor gives a cache in good order: its mini-indexes are empty, and every search misses.\<close>

theorem new_cache_misses:
  assumes "qv_config_ok D qf" and "pca_given env qf pca" and "env_ok env"
  shows "\<exists>c. qv_new env qf (Some b) pca = Inr c \<and> ready D env c \<and> entries c = (\<lambda>_. Map.empty) \<and>
    (\<forall>query K. 0 < K \<and> K \<le> qf_memory_L qf \<longrightarrow> (\<exists>results c'. qv_search env query K c = Inr (False, results, c')))"
proof -
  obtain c where c: "qv_new env qf (Some b) pca = Inr c" "qv_inv D env c" "\<not> qc_eviction_in_progress c"
    "entries c = (\<lambda>_. Map.empty)" "qc_config c = qf"
    by (rule new_spec [OF assms(1,2)])
  have ready: "ready D env c" using c(2,3) assms(3) by (simp add: ready_def)
  have "\<exists>results c'. qv_search env query K c = Inr (False, results, c')" if "0 < K" "K \<le> qf_memory_L qf" for query K
    using empty_misses [OF ready that(1) _ c(4), of query] that(2) c(5) by metis
  then show ?thesis using c(1,4) ready by blast
qed

theorem new_cache_misses_witness:
  "\<exists>c results c'. qv_new line_env line_qf (Some ()) None = Inr c \<and> qv_search line_env 3 2 c = Inr (False, results, c')"
proof -
  obtain D where D: "qv_config_ok D line_qf" by (rule line_qf_ok)
  have "pca_given line_env line_qf None" by (simp add: pca_given_def line_qf_def)
  from new_cache_misses [OF D this line_env_ok, of "()"] obtain c where "qv_new line_env line_qf (Some ()) None = Inr c"
    "\<forall>query K. 0 < K \<and> K \<le> qf_memory_L line_qf \<longrightarrow> (\<exists>results c'. qv_search line_env query K c = Inr (False, results, c'))"
    by blast
  then show ?thesis by (auto simp: line_qf_def)
qed

text \<open>C9: Along every run a mini-index never holds more points, live and lazily deleted, than its share of the capacity,
  and the cache never more than the capacity.\<close>

theorem cache_within_capacity:
  assumes "run (qv_step env) c es c'" and "ready D env c"
  shows "(\<forall>index \<in> set (qc_memory_indices c'). get_number_of_active_vectors index + get_number_of_lazy_deleted_points index
      \<le> qf_points_per_index (qc_config c')) \<and>
    get_number_of_vectors_in_memory_index c' \<le> get_number_of_max_points_in_memory_index c'"
proof -
  have inv: "qv_inv D env c'" using cache_run.run_inv [OF assms] by (simp add: ready_def)
  then have shard: "\<forall>index \<in> set (qc_memory_indices c'). get_number_of_active_vectors index +
      get_number_of_lazy_deleted_points index \<le> qf_points_per_index (qc_config c')"
    using shard_ok_bound unfolding qv_inv_def by blast
  have "sum_list (map get_number_of_active_vectors xs) \<le> m * length xs"
    if "\<forall>x \<in> set xs. get_number_of_active_vectors x + get_number_of_lazy_deleted_points x \<le> m" for xs :: "'a vindex list" and m
    using that by (induction xs) auto
  from this [OF shard] show ?thesis
    using shard shards_config [OF inv]
    by (simp add: get_number_of_vectors_in_memory_index_def get_number_of_max_points_in_memory_index_def)
qed

theorem cache_within_capacity_witness:
  "\<exists>c'. run (qv_step line_env) line_warm [Searched 3 1 True [(1, Fin 3)]] c' \<and>
    get_number_of_vectors_in_memory_index c' \<le> get_number_of_max_points_in_memory_index c'"
proof -
  obtain D c' where D: "ready D line_env line_warm" "qv_search line_env 3 1 line_warm = Inr (True, [(1, Fin 3)], c')"
    by (rule line_warm_hits)
  have "qv_step line_env line_warm (Searched 3 1 True [(1, Fin 3)]) c'"
    by (rule step_search [OF _ _ D(2)]) (simp_all add: line_warm_def line_qf_def)
  then have r: "run (qv_step line_env) line_warm [Searched 3 1 True [(1, Fin 3)]] c'" by (rule run_Cons [OF _ run_Nil])
  then show ?thesis using cache_within_capacity [OF r D(1)] by blast
qed



end
