(* ===== verification/WorkQueue.thy ===== *)
theory WorkQueue
  imports QvPrelude "HOL-Library.Multiset"
begin

text \<open>
  The worker loop shared by the background pools of \<open>include/qvcache\<close>: a queue of tasks under \<open>mtx\<close>,
  workers that sleep on \<open>cv\<close>, and a destructor that stops and joins them. The relation \<open>wq_step\<close> is
  the \<open>DeleteConsolidateThreadPool\<close> as it is written; \<open>InsertPool\<close> and \<open>LruPool\<close> extend its state.

  A critical section of \<open>mtx\<close> is one step: everything it reads or writes is only touched under that
  mutex, and \<open>wait\<close> releases it and blocks atomically. The \<open>notify_one\<close> after a submission and the
  \<open>notify_all\<close> of the destructor come after the mutex is released, so they are steps of their own.
  A task that throws leaves the thread function, which ends the process (\<open>std::terminate\<close>). Submitting
  to a pool under destruction is a use of a dying object and is not a step.
\<close>

section \<open>State\<close>

datatype 't phase = Ready | Blocked | Running 't | Exited

record 't wq =
  wq_tasks :: "'t list"
  wq_stop :: bool
  wq_workers :: "'t phase list"
  wq_notify :: nat
  wq_notify_all :: bool
  wq_crashed :: bool
  wq_submitted :: "'t list"
  wq_started :: "'t list"
  wq_done :: "'t list"

text \<open>
  \<open>wq_notify\<close> counts the \<open>notify_one\<close> calls still due, \<open>wq_notify_all\<close> the destructor's. The last three
  fields are history: tasks submitted, taken by a worker, and finished, each in order.
\<close>

datatype 't wq_event =
    Submit 't | Notify_one | Sleep nat | Wake nat | Take nat | Complete nat | Crash nat
  | Stop | Notify_all | Exit nat

definition wq_new :: "nat \<Rightarrow> 't wq" where
  "wq_new thread_count = \<lparr>wq_tasks = [], wq_stop = False, wq_workers = replicate thread_count Ready,
     wq_notify = 0, wq_notify_all = False, wq_crashed = False,
     wq_submitted = [], wq_started = [], wq_done = []\<rparr>"

text \<open>\<open>submit\<close>: \<open>tasks.emplace\<close> under the mutex.\<close>

definition wq_push :: "'t \<Rightarrow> ('t, 'z) wq_scheme \<Rightarrow> ('t, 'z) wq_scheme" where
  "wq_push t s = s\<lparr>wq_tasks := wq_tasks s @ [t], wq_notify := Suc (wq_notify s),
     wq_submitted := wq_submitted s @ [t]\<rparr>"

definition set_worker :: "nat \<Rightarrow> 't phase \<Rightarrow> ('t, 'z) wq_scheme \<Rightarrow> ('t, 'z) wq_scheme" where
  "set_worker i p s = s\<lparr>wq_workers := (wq_workers s)[i := p]\<rparr>"

text \<open>\<open>task = std::move(tasks.front()); tasks.pop()\<close>.\<close>

definition wq_pop :: "nat \<Rightarrow> ('t, 'z) wq_scheme \<Rightarrow> ('t, 'z) wq_scheme" where
  "wq_pop i s = (let t = hd (wq_tasks s)
     in set_worker i (Running t) (s\<lparr>wq_tasks := tl (wq_tasks s), wq_started := wq_started s @ [t]\<rparr>))"

definition wake_all :: "'t phase list \<Rightarrow> 't phase list" where
  "wake_all ws = map (\<lambda>p. case p of Blocked \<Rightarrow> Ready | _ \<Rightarrow> p) ws"

section \<open>Steps\<close>

definition worker_is :: "('t, 'z) wq_scheme \<Rightarrow> nat \<Rightarrow> 't phase \<Rightarrow> bool" where
  "worker_is s i p \<longleftrightarrow> i < length (wq_workers s) \<and> wq_workers s ! i = p"

text \<open>\<open>throws t\<close> says that running \<open>t\<close> ends in an exception. \<open>Wake\<close> is a spurious wakeup.\<close>

inductive wq_step :: "('t \<Rightarrow> bool) \<Rightarrow> ('t, 'z) wq_scheme \<Rightarrow> 't wq_event \<Rightarrow> ('t, 'z) wq_scheme \<Rightarrow> bool"
  for throws :: "'t \<Rightarrow> bool" where
  step_submit: "\<not> wq_crashed s \<Longrightarrow> \<not> wq_stop s \<Longrightarrow> wq_step throws s (Submit t) (wq_push t s)"
| step_notify: "\<not> wq_crashed s \<Longrightarrow> wq_notify s = Suc n \<Longrightarrow> worker_is s i Blocked \<Longrightarrow>
    wq_step throws s Notify_one (set_worker i Ready (s\<lparr>wq_notify := n\<rparr>))"
| step_notify_none: "\<not> wq_crashed s \<Longrightarrow> wq_notify s = Suc n \<Longrightarrow> Blocked \<notin> set (wq_workers s) \<Longrightarrow>
    wq_step throws s Notify_one (s\<lparr>wq_notify := n\<rparr>)"
| step_sleep: "\<not> wq_crashed s \<Longrightarrow> worker_is s i Ready \<Longrightarrow> \<not> (wq_stop s \<or> wq_tasks s \<noteq> []) \<Longrightarrow>
    wq_step throws s (Sleep i) (set_worker i Blocked s)"
| step_wake: "\<not> wq_crashed s \<Longrightarrow> worker_is s i Blocked \<Longrightarrow> wq_step throws s (Wake i) (set_worker i Ready s)"
| step_take: "\<not> wq_crashed s \<Longrightarrow> worker_is s i Ready \<Longrightarrow> wq_tasks s \<noteq> [] \<Longrightarrow>
    wq_step throws s (Take i) (wq_pop i s)"
| step_complete: "\<not> wq_crashed s \<Longrightarrow> worker_is s i (Running t) \<Longrightarrow> \<not> throws t \<Longrightarrow>
    wq_step throws s (Complete i) (set_worker i Ready (s\<lparr>wq_done := wq_done s @ [t]\<rparr>))"
| step_crash: "\<not> wq_crashed s \<Longrightarrow> worker_is s i (Running t) \<Longrightarrow> throws t \<Longrightarrow>
    wq_step throws s (Crash i) (s\<lparr>wq_crashed := True\<rparr>)"
| step_stop: "\<not> wq_crashed s \<Longrightarrow> \<not> wq_stop s \<Longrightarrow>
    wq_step throws s Stop (s\<lparr>wq_stop := True, wq_notify_all := True\<rparr>)"
| step_notify_all: "\<not> wq_crashed s \<Longrightarrow> wq_notify_all s \<Longrightarrow>
    wq_step throws s Notify_all (s\<lparr>wq_notify_all := False, wq_workers := wake_all (wq_workers s)\<rparr>)"
| step_exit: "\<not> wq_crashed s \<Longrightarrow> worker_is s i Ready \<Longrightarrow> wq_stop s \<and> wq_tasks s = [] \<Longrightarrow>
    wq_step throws s (Exit i) (set_worker i Exited s)"

inductive_cases wq_stepE: "wq_step throws s e s'"

inductive wq_reach :: "('t \<Rightarrow> bool) \<Rightarrow> nat \<Rightarrow> 't wq \<Rightarrow> bool" for throws :: "'t \<Rightarrow> bool" and n :: nat where
  reach_new: "wq_reach throws n (wq_new n)"
| reach_step: "wq_reach throws n s \<Longrightarrow> wq_step throws s e s' \<Longrightarrow> wq_reach throws n s'"

section \<open>Invariant\<close>

fun tasks_of :: "'t phase \<Rightarrow> 't list" where
  "tasks_of (Running t) = [t]"
| "tasks_of _ = []"

definition running :: "'t phase list \<Rightarrow> 't list" where
  "running ws = concat (map tasks_of ws)"

lemma running_update:
  "i < length ws \<Longrightarrow>
    mset (running (ws[i := p])) + mset (tasks_of (ws ! i)) = mset (running ws) + mset (tasks_of p)"
  by (induction ws arbitrary: i) (auto simp: running_def less_Suc_eq_0_disj)

lemma running_wake_all [simp]: "running (wake_all ws) = running ws"
  by (induction ws) (auto simp: running_def wake_all_def split: phase.splits)

lemma running_Nil: "running ws = [] \<longleftrightarrow> (\<forall>p \<in> set ws. tasks_of p = [])"
  by (simp add: running_def)

lemma length_wake_all [simp]: "length (wake_all ws) = length ws" "wake_all ws = [] \<longleftrightarrow> ws = []"
  by (simp_all add: wake_all_def)

lemma wake_all_mem:
  "Blocked \<notin> set (wake_all ws)" "Exited \<in> set (wake_all ws) \<longleftrightarrow> Exited \<in> set ws"
  by (induction ws) (auto simp: wake_all_def split: phase.splits)

text \<open>A worker that will look at the queue again without being notified.\<close>

definition awake :: "'t phase \<Rightarrow> bool" where
  "awake p \<longleftrightarrow> p \<noteq> Blocked \<and> p \<noteq> Exited"

definition wq_inv :: "('t, 'z) wq_scheme \<Rightarrow> bool" where
  "wq_inv s \<longleftrightarrow>
     wq_submitted s = wq_started s @ wq_tasks s \<and>
     mset (wq_started s) = mset (running (wq_workers s)) + mset (wq_done s) \<and>
     (Exited \<in> set (wq_workers s) \<longrightarrow> wq_stop s \<and> wq_tasks s = []) \<and>
     (wq_stop s \<and> Blocked \<in> set (wq_workers s) \<longrightarrow> wq_notify_all s) \<and>
     (wq_tasks s \<noteq> [] \<and> wq_workers s \<noteq> [] \<and> wq_notify s = 0 \<and> \<not> wq_notify_all s \<longrightarrow>
        (\<exists>p \<in> set (wq_workers s). awake p))"

lemma wq_inv_new: "wq_inv (wq_new n)"
  by (simp add: wq_inv_def wq_new_def running_def concat_eq_Nil_conv)

lemmas wq_updates = wq_push_def wq_pop_def set_worker_def worker_is_def Let_def

lemma set_update_subset: "x \<in> set (ws[i := p]) \<Longrightarrow> x = p \<or> x \<in> set ws"
  using set_update_subset_insert by fastforce

lemma awake_update: "i < length ws \<Longrightarrow> awake p \<Longrightarrow> \<exists>q \<in> set (ws[i := p]). awake q"
  using set_update_memI by fast

lemma wq_step_inv:
  assumes "wq_step throws s e s'" and "wq_inv s"
  shows "wq_inv s'"
  using assms(1)
proof cases
  case (step_submit t)
  then show ?thesis using assms(2) by (auto simp: wq_inv_def wq_updates)
next
  case (step_notify n i)
  then have i: "i < length (wq_workers s)" "wq_workers s ! i = Blocked" by (simp_all add: worker_is_def)
  have "mset (running ((wq_workers s)[i := Ready])) = mset (running (wq_workers s))"
    using running_update [OF i(1), of Ready] i(2) by simp
  moreover have "\<exists>q \<in> set ((wq_workers s)[i := Ready]). awake q"
    by (rule awake_update [OF i(1)]) (simp add: awake_def)
  ultimately show ?thesis
    using assms(2) step_notify set_update_subset [of _ "wq_workers s" i Ready]
    by (auto simp: wq_inv_def wq_updates)
next
  case (step_notify_none n)
  have "\<exists>p \<in> set (wq_workers s). awake p" if "wq_tasks s \<noteq> []" "wq_workers s \<noteq> []"
  proof -
    have "hd (wq_workers s) \<in> set (wq_workers s)" using that(2) by simp
    moreover have "Exited \<notin> set (wq_workers s)" using assms(2) that(1) by (auto simp: wq_inv_def)
    ultimately show ?thesis using step_notify_none(5) unfolding awake_def by metis
  qed
  then show ?thesis using assms(2) step_notify_none by (auto simp: wq_inv_def)
next
  case (step_sleep i)
  then have i: "i < length (wq_workers s)" "wq_workers s ! i = Ready" by (simp_all add: worker_is_def)
  have "mset (running ((wq_workers s)[i := Blocked])) = mset (running (wq_workers s))"
    using running_update [OF i(1), of Blocked] i(2) by simp
  then show ?thesis
    using assms(2) step_sleep set_update_subset [of _ "wq_workers s" i Blocked]
    by (auto simp: wq_inv_def wq_updates)
next
  case (step_wake i)
  then have i: "i < length (wq_workers s)" "wq_workers s ! i = Blocked" by (simp_all add: worker_is_def)
  have "mset (running ((wq_workers s)[i := Ready])) = mset (running (wq_workers s))"
    using running_update [OF i(1), of Ready] i(2) by simp
  moreover have "\<exists>q \<in> set ((wq_workers s)[i := Ready]). awake q"
    by (rule awake_update [OF i(1)]) (simp add: awake_def)
  ultimately show ?thesis
    using assms(2) step_wake set_update_subset [of _ "wq_workers s" i Ready]
    by (auto simp: wq_inv_def wq_updates)
next
  case (step_take i)
  then obtain t ts where ts: "wq_tasks s = t # ts" by (cases "wq_tasks s") auto
  have i: "i < length (wq_workers s)" "wq_workers s ! i = Ready" using step_take by (simp_all add: worker_is_def)
  have "mset (running ((wq_workers s)[i := Running t])) = add_mset t (mset (running (wq_workers s)))"
    using running_update [OF i(1), of "Running t"] i(2) by simp
  moreover have "\<exists>q \<in> set ((wq_workers s)[i := Running t]). awake q"
    by (rule awake_update [OF i(1)]) (simp add: awake_def)
  ultimately show ?thesis
    using assms(2) step_take ts set_update_subset [of _ "wq_workers s" i "Running t"]
    by (auto simp: wq_inv_def wq_updates)
next
  case (step_complete i t)
  then have i: "i < length (wq_workers s)" "wq_workers s ! i = Running t" by (simp_all add: worker_is_def)
  have "add_mset t (mset (running ((wq_workers s)[i := Ready]))) = mset (running (wq_workers s))"
    using running_update [OF i(1), of Ready] i(2) by simp
  moreover have "\<exists>q \<in> set ((wq_workers s)[i := Ready]). awake q"
    by (rule awake_update [OF i(1)]) (simp add: awake_def)
  ultimately show ?thesis
    using assms(2) step_complete set_update_subset [of _ "wq_workers s" i Ready]
    by (auto simp: wq_inv_def wq_updates)
next
  case (step_crash i t)
  then show ?thesis using assms(2) by (auto simp: wq_inv_def)
next
  case step_stop
  then show ?thesis using assms(2) by (auto simp: wq_inv_def)
next
  case step_notify_all
  have "\<exists>p \<in> set (wake_all (wq_workers s)). awake p" if "wq_tasks s \<noteq> []" "wq_workers s \<noteq> []"
  proof -
    have "hd (wake_all (wq_workers s)) \<in> set (wake_all (wq_workers s))"
      using that(2) by (intro hd_in_set) (simp add: wake_all_def)
    moreover have "Exited \<notin> set (wake_all (wq_workers s))"
      using assms(2) that(1) by (auto simp: wq_inv_def wake_all_mem)
    ultimately show ?thesis unfolding awake_def by (metis wake_all_mem(1))
  qed
  then show ?thesis
    using assms(2) step_notify_all by (auto simp: wq_inv_def wake_all_mem)
next
  case (step_exit i)
  then have i: "i < length (wq_workers s)" "wq_workers s ! i = Ready" by (simp_all add: worker_is_def)
  have "mset (running ((wq_workers s)[i := Exited])) = mset (running (wq_workers s))"
    using running_update [OF i(1), of Exited] i(2) by simp
  then show ?thesis
    using assms(2) step_exit set_update_subset [of _ "wq_workers s" i Exited]
    by (auto simp: wq_inv_def wq_updates)
qed

lemma wq_reach_inv: "wq_reach throws n s \<Longrightarrow> wq_inv s"
  by (induction rule: wq_reach.induct) (auto intro: wq_inv_new wq_step_inv)

lemma wq_step_workers: "wq_step throws s e s' \<Longrightarrow> length (wq_workers s') = length (wq_workers s)"
  by (induction rule: wq_step.induct) (simp_all add: wq_updates)

lemma wq_reach_workers: "wq_reach throws n s \<Longrightarrow> length (wq_workers s) = n"
  by (induction rule: wq_reach.induct) (simp_all add: wq_new_def wq_step_workers)

section \<open>Progress\<close>

text \<open>Steps the pool takes by itself, and the work it still has to do.\<close>

definition internal :: "'t wq_event \<Rightarrow> bool" where
  "internal e \<longleftrightarrow> (case e of Submit _ \<Rightarrow> False | Stop \<Rightarrow> False | _ \<Rightarrow> True)"

definition wq_internal :: "('t \<Rightarrow> bool) \<Rightarrow> ('t, 'z) wq_scheme \<Rightarrow> ('t, 'z) wq_scheme \<Rightarrow> bool" where
  "wq_internal throws s s' \<longleftrightarrow> (\<exists>e. internal e \<and> wq_step throws s e s')"

definition wq_measure :: "('t, 'z) wq_scheme \<Rightarrow> nat" where
  "wq_measure s = 2 * length (wq_tasks s) + length (running (wq_workers s)) + wq_notify s +
     (if wq_notify_all s then 1 else 0)"

definition drained :: "('t, 'z) wq_scheme \<Rightarrow> bool" where
  "drained s \<longleftrightarrow> wq_tasks s = [] \<and> running (wq_workers s) = []"

lemma running_update_length:
  "i < length ws \<Longrightarrow>
    length (running (ws[i := p])) + length (tasks_of (ws ! i)) = length (running ws) + length (tasks_of p)"
  using arg_cong [OF running_update, of i ws size p] by simp

lemma running_mem: "t \<in> set (running ws) \<longleftrightarrow> Running t \<in> set ws"
proof -
  have "t \<in> set (tasks_of p) \<longleftrightarrow> p = Running t" for p by (cases p) auto
  then show ?thesis by (auto simp: running_def)
qed

lemma wq_progress:
  assumes "wq_inv s" and "\<not> wq_crashed s" and "wq_workers s \<noteq> []" and "\<not> drained s"
    and "\<forall>t \<in> set (wq_submitted s). \<not> throws t"
  obtains e s' where "internal e" and "wq_step throws s e s'" and "wq_measure s' < wq_measure s"
    and "\<not> wq_crashed s'" and "wq_submitted s' = wq_submitted s"
proof (cases "running (wq_workers s) = []")
  case False
  then obtain t where t: "t \<in> set (running (wq_workers s))" by (metis hd_in_set)
  then obtain i where i: "i < length (wq_workers s)" "wq_workers s ! i = Running t"
    by (metis in_set_conv_nth running_mem)
  have "t \<in> set (wq_submitted s)"
    using assms(1) t unfolding wq_inv_def by (metis set_append set_mset_mset set_mset_union UnI1)
  then have "wq_step throws s (Complete i) (set_worker i Ready (s\<lparr>wq_done := wq_done s @ [t]\<rparr>))"
    using assms(2,5) i by (intro wq_step.step_complete) (simp_all add: worker_is_def)
  moreover have "length (running ((wq_workers s)[i := Ready])) < length (running (wq_workers s))"
    using running_update_length [OF i(1), of Ready] i(2) by simp
  ultimately show ?thesis
    using assms(2) that [of "Complete i" "set_worker i Ready (s\<lparr>wq_done := wq_done s @ [t]\<rparr>)"]
    by (simp add: internal_def wq_updates wq_measure_def)
next
  case idle: True
  then have tasks: "wq_tasks s \<noteq> []" using assms(4) by (simp add: drained_def)
  show ?thesis
  proof (cases "wq_notify s")
    case (Suc n)
    show ?thesis
    proof (cases "Blocked \<in> set (wq_workers s)")
      case True
      then obtain i where i: "i < length (wq_workers s)" "wq_workers s ! i = Blocked"
        by (auto simp: in_set_conv_nth)
      then show ?thesis
        using assms(2) Suc running_update_length [OF i(1), of Ready]
        by (intro that [OF _ wq_step.step_notify [of s n i]])
          (simp_all add: internal_def wq_updates wq_measure_def)
    next
      case False
      then show ?thesis
        using assms(2) Suc
        by (intro that [OF _ wq_step.step_notify_none [of s n]])
          (simp_all add: internal_def wq_measure_def)
    qed
  next
    case 0
    show ?thesis
    proof (cases "wq_notify_all s")
      case True
      then show ?thesis
        using assms(2)
        by (intro that [OF _ wq_step.step_notify_all [of s]])
          (simp_all add: internal_def wq_measure_def)
    next
      case False
      then obtain p where "p \<in> set (wq_workers s)" "awake p"
        using assms(1,3) tasks 0 by (auto simp: wq_inv_def)
      moreover have "tasks_of p = []" using idle calculation(1) by (simp add: running_Nil)
      then have "p = Ready" using \<open>awake p\<close> by (cases p) (simp_all add: awake_def)
      ultimately obtain i where i: "i < length (wq_workers s)" "wq_workers s ! i = Ready"
        by (auto simp: in_set_conv_nth)
      then show ?thesis
        using assms(2) tasks running_update_length [OF i(1), of "Running (hd (wq_tasks s))"]
        by (intro that [OF _ wq_step.step_take [of s i]])
          (auto simp: internal_def wq_updates wq_measure_def neq_Nil_conv)
    qed
  qed
qed

lemma wq_drains:
  assumes "wq_inv s" and "\<not> wq_crashed s" and "wq_workers s \<noteq> []"
    and "\<forall>t \<in> set (wq_submitted s). \<not> throws t"
  shows "\<exists>k s'. k \<le> wq_measure s \<and> (wq_internal throws ^^ k) s s' \<and> drained s' \<and> wq_inv s' \<and>
    \<not> wq_crashed s' \<and> wq_submitted s' = wq_submitted s"
  using assms
proof (induction "wq_measure s" arbitrary: s rule: less_induct)
  case less
  show ?case
  proof (cases "drained s")
    case True
    then show ?thesis using less.prems by (intro exI [of _ 0] exI [of _ s]) simp
  next
    case False
    obtain e s1 where s1: "internal e" "wq_step throws s e s1" "wq_measure s1 < wq_measure s"
      "\<not> wq_crashed s1" "wq_submitted s1 = wq_submitted s"
      using wq_progress [OF less.prems(1-3) False less.prems(4)] .
    have "wq_workers s1 \<noteq> []" using less.prems(3) wq_step_workers [OF s1(2)] by auto
    then obtain k s' where k: "k \<le> wq_measure s1" "(wq_internal throws ^^ k) s1 s'" "drained s'" "wq_inv s'"
      "\<not> wq_crashed s'" "wq_submitted s' = wq_submitted s"
      using less.hyps [OF s1(3) wq_step_inv [OF s1(2) less.prems(1)] s1(4)] less.prems(4) s1(5) by auto
    have "(wq_internal throws ^^ Suc k) s s'"
      using s1(1,2) k(2) by (intro relpowp_Suc_I2 [of _ s s1]) (auto simp: wq_internal_def)
    then show ?thesis using k s1(3) by (intro exI [of _ "Suc k"] exI [of _ s']) simp
  qed
qed

section \<open>Properties\<close>

text \<open>C27: Exactly once, in order. However submissions, workers and the destructor interleave, workers take
  tasks in submission order, no task is lost or taken twice, and once the destructor has joined all
  workers every submitted task has finished.\<close>

theorem pool_runs_each_task_once:
  assumes "wq_reach throws n s"
  shows "wq_submitted s = wq_started s @ wq_tasks s \<and>
    mset (wq_started s) = mset (running (wq_workers s)) + mset (wq_done s) \<and>
    (0 < n \<and> set (wq_workers s) = {Exited} \<longrightarrow> mset (wq_done s) = mset (wq_submitted s))"
proof -
  have inv: "wq_inv s" by (rule wq_reach_inv [OF assms])
  have "running (wq_workers s) = []" if "set (wq_workers s) = {Exited}"
    using that by (simp add: running_Nil)
  then show ?thesis using inv by (auto simp: wq_inv_def)
qed

theorem pool_runs_each_task_once_witness:
  "\<exists>s. wq_reach (\<lambda>_. False) 1 s \<and> wq_submitted s = [7::nat] \<and> set (wq_workers s) = {Exited} \<and>
    mset (wq_done s) = {#7#}"
proof -
  define s1 where "s1 = wq_push (7::nat) (wq_new 1)"
  define s2 where "s2 = wq_pop 0 s1"
  define s3 where "s3 = set_worker 0 Ready (s2\<lparr>wq_done := wq_done s2 @ [7]\<rparr>)"
  define s4 where "s4 = s3\<lparr>wq_stop := True, wq_notify_all := True\<rparr>"
  define s5 where "s5 = set_worker 0 Exited s4"
  note defs = s1_def s2_def s3_def s4_def s5_def wq_new_def
  have "wq_reach (\<lambda>_. False) 1 s1"
    unfolding s1_def by (rule reach_step [OF reach_new]) (rule wq_step.step_submit; simp add: wq_new_def)
  then have "wq_reach (\<lambda>_. False) 1 s2"
    unfolding s2_def by (rule reach_step) (rule wq_step.step_take; simp add: defs wq_updates)
  then have "wq_reach (\<lambda>_. False) 1 s3"
    unfolding s3_def by (rule reach_step) (rule wq_step.step_complete; simp add: defs wq_updates)
  then have "wq_reach (\<lambda>_. False) 1 s4"
    unfolding s4_def by (rule reach_step) (rule wq_step.step_stop; simp add: defs wq_updates)
  then have "wq_reach (\<lambda>_. False) 1 s5"
    unfolding s5_def by (rule reach_step) (rule wq_step.step_exit; simp add: defs wq_updates)
  moreover from this have "mset (wq_done s5) = mset (wq_submitted s5)"
    using pool_runs_each_task_once [of "\<lambda>_. False" 1 s5] by (simp add: defs wq_updates)
  moreover have "wq_submitted s5 = [7]" "set (wq_workers s5) = {Exited}" by (simp_all add: defs wq_updates)
  ultimately show ?thesis by auto
qed

text \<open>C28: No lost wakeup of workers. In every reachable state of a pool with a worker, unless a task throws,
  the pool can finish all submitted work by its own steps, in a number of steps bounded by the work
  left: no schedule leaves a task queued with every worker asleep.\<close>

theorem pool_always_drains:
  assumes "wq_reach throws n s" and "0 < n" and "\<not> wq_crashed s"
    and "\<forall>t \<in> set (wq_submitted s). \<not> throws t"
  shows "\<exists>k s'. k \<le> wq_measure s \<and> (wq_internal throws ^^ k) s s' \<and> drained s' \<and>
    mset (wq_done s') = mset (wq_submitted s)"
proof -
  have "wq_workers s \<noteq> []" using wq_reach_workers [OF assms(1)] assms(2) by auto
  from wq_drains [OF wq_reach_inv [OF assms(1)] assms(3) this assms(4)] show ?thesis
    by (fastforce simp: wq_inv_def drained_def)
qed

theorem pool_always_drains_witness:
  "\<exists>k s'. (wq_internal (\<lambda>_. False) ^^ k) (wq_push (7::nat) (wq_new 2)) s' \<and> drained s' \<and>
    mset (wq_done s') = {#7#}"
proof -
  have "wq_reach (\<lambda>_. False) 2 (wq_push (7::nat) (wq_new 2))"
    by (rule reach_step [OF reach_new]) (rule wq_step.step_submit; simp add: wq_new_def)
  from pool_always_drains [OF this] show ?thesis by (auto simp: wq_push_def wq_new_def)
qed

end
