(* ===== verification/InsertPool.thy ===== *)
theory InsertPool
  imports WorkQueue
begin

text \<open>
  \<open>InsertThreadPool\<close> of \<open>include/qvcache/insert_thread_pool.h\<close> and \<open>src/insert_thread_pool.cpp\<close>: its state is
  that of the worker queue of \<open>WorkQueue\<close> with the counter \<open>inflight\<close> and the client threads, and
  \<open>ip_step\<close> has a rule for each step of its own code. That the code is the worker queue again, with a
  counter that is exact, is the refinement theorem.

  After a task a worker decrements \<open>inflight\<close> and notifies \<open>idle_cv\<close> without holding \<open>mtx\<close>; both are steps
  of their own (\<open>ip_post\<close>). A caller of \<open>wait_idle\<close> evaluates its predicate and blocks in two steps, with
  the mutex held in between (\<open>Checked\<close>), because a notification that does not take the mutex can fall
  between them. Any number of clients may wait.

  Atomics are treated as sequentially consistent. The value of \<open>inflight\<close> that a waiter reads is then
  exact; that the code decrements it with \<open>memory_order_relaxed\<close>, which does not publish the effects of the
  task to the waiter, is outside the model.
\<close>

section \<open>State and steps\<close>

datatype post = No_post | Must_decrement | Must_notify

datatype waiter = Outside | Entering | Checked | Asleep | Woken | Returned

record 't ipool = "'t wq" +
  ip_inflight :: nat
  ip_post :: "post list"
  ip_waiters :: "waiter list"

definition ip_new :: "nat \<Rightarrow> nat \<Rightarrow> 't ipool" where
  "ip_new thread_count clients = wq.extend (wq_new thread_count)
     \<lparr>ip_inflight = 0, ip_post = replicate thread_count No_post, ip_waiters = replicate clients Outside\<rparr>"

text \<open>The predicate of \<open>wait_idle\<close>, and whether \<open>mtx\<close> is free between the steps.\<close>

definition idle_now :: "('t, 'z) ipool_scheme \<Rightarrow> bool" where
  "idle_now s \<longleftrightarrow> wq_tasks s = [] \<and> ip_inflight s = 0"

definition mtx_free :: "('t, 'z) ipool_scheme \<Rightarrow> bool" where
  "mtx_free s \<longleftrightarrow> Checked \<notin> set (ip_waiters s)"

definition waiter_in :: "('t, 'z) ipool_scheme \<Rightarrow> nat \<Rightarrow> waiter set \<Rightarrow> bool" where
  "waiter_in s j W \<longleftrightarrow> j < length (ip_waiters s) \<and> ip_waiters s ! j \<in> W"

definition worker_at :: "('t, 'z) ipool_scheme \<Rightarrow> nat \<Rightarrow> 't phase \<Rightarrow> bool" where
  "worker_at s i p \<longleftrightarrow> worker_is s i p \<and> ip_post s ! i = No_post"

datatype 't ip_event =
  Pool "'t wq_event" | Decrement nat | Notify_idle nat | Idle_enter nat | Idle_return nat | Idle_check nat
  | Idle_block nat | Idle_wake nat

inductive ip_step :: "('t \<Rightarrow> bool) \<Rightarrow> 't ipool \<Rightarrow> 't ip_event \<Rightarrow> 't ipool \<Rightarrow> bool"
  for throws :: "'t \<Rightarrow> bool" where
  ip_submit: "\<not> wq_crashed s \<Longrightarrow> mtx_free s \<Longrightarrow> \<not> wq_stop s \<Longrightarrow>
    ip_step throws s (Pool (Submit t))
      (s\<lparr>wq_tasks := wq_tasks s @ [t], wq_notify := Suc (wq_notify s), wq_submitted := wq_submitted s @ [t]\<rparr>)"
| ip_notify_one: "\<not> wq_crashed s \<Longrightarrow> wq_notify s = Suc n \<Longrightarrow> worker_at s i Blocked \<Longrightarrow>
    ip_step throws s (Pool Notify_one) (s\<lparr>wq_notify := n, wq_workers := (wq_workers s)[i := Ready]\<rparr>)"
| ip_notify_none: "\<not> wq_crashed s \<Longrightarrow> wq_notify s = Suc n \<Longrightarrow> Blocked \<notin> set (wq_workers s) \<Longrightarrow>
    ip_step throws s (Pool Notify_one) (s\<lparr>wq_notify := n\<rparr>)"
| ip_sleep: "\<not> wq_crashed s \<Longrightarrow> mtx_free s \<Longrightarrow> worker_at s i Ready \<Longrightarrow> \<not> (wq_stop s \<or> wq_tasks s \<noteq> []) \<Longrightarrow>
    ip_step throws s (Pool (Sleep i)) (s\<lparr>wq_workers := (wq_workers s)[i := Blocked]\<rparr>)"
| ip_spurious: "\<not> wq_crashed s \<Longrightarrow> worker_at s i Blocked \<Longrightarrow>
    ip_step throws s (Pool (Wake i)) (s\<lparr>wq_workers := (wq_workers s)[i := Ready]\<rparr>)"
| ip_take: "\<not> wq_crashed s \<Longrightarrow> mtx_free s \<Longrightarrow> worker_at s i Ready \<Longrightarrow> wq_tasks s = t # ts \<Longrightarrow>
    ip_step throws s (Pool (Take i))
      (s\<lparr>wq_tasks := ts, wq_workers := (wq_workers s)[i := Running t], wq_started := wq_started s @ [t],
         ip_inflight := Suc (ip_inflight s)\<rparr>)"
| ip_complete: "\<not> wq_crashed s \<Longrightarrow> worker_at s i (Running t) \<Longrightarrow> \<not> throws t \<Longrightarrow>
    ip_step throws s (Pool (Complete i))
      (s\<lparr>wq_workers := (wq_workers s)[i := Ready], wq_done := wq_done s @ [t],
         ip_post := (ip_post s)[i := Must_decrement]\<rparr>)"
| ip_crash: "\<not> wq_crashed s \<Longrightarrow> worker_at s i (Running t) \<Longrightarrow> throws t \<Longrightarrow>
    ip_step throws s (Pool (Crash i)) (s\<lparr>wq_crashed := True\<rparr>)"
| ip_dec: "\<not> wq_crashed s \<Longrightarrow> i < length (ip_post s) \<Longrightarrow> ip_post s ! i = Must_decrement \<Longrightarrow>
    ip_step throws s (Decrement i)
      (s\<lparr>ip_inflight := ip_inflight s - 1, ip_post := (ip_post s)[i := Must_notify]\<rparr>)"
| ip_notify_idle: "\<not> wq_crashed s \<Longrightarrow> i < length (ip_post s) \<Longrightarrow> ip_post s ! i = Must_notify \<Longrightarrow>
    ip_step throws s (Notify_idle i)
      (s\<lparr>ip_post := (ip_post s)[i := No_post],
         ip_waiters := map (\<lambda>w. if w = Asleep then Woken else w) (ip_waiters s)\<rparr>)"
| ip_stop: "\<not> wq_crashed s \<Longrightarrow> mtx_free s \<Longrightarrow> \<not> wq_stop s \<Longrightarrow>
    ip_step throws s (Pool Stop) (s\<lparr>wq_stop := True, wq_notify_all := True\<rparr>)"
| ip_notify_all: "\<not> wq_crashed s \<Longrightarrow> wq_notify_all s \<Longrightarrow>
    ip_step throws s (Pool Notify_all)
      (s\<lparr>wq_notify_all := False, wq_workers := map (\<lambda>p. case p of Blocked \<Rightarrow> Ready | _ \<Rightarrow> p) (wq_workers s)\<rparr>)"
| ip_exit: "\<not> wq_crashed s \<Longrightarrow> mtx_free s \<Longrightarrow> worker_at s i Ready \<Longrightarrow> wq_stop s \<Longrightarrow> wq_tasks s = [] \<Longrightarrow>
    ip_step throws s (Pool (Exit i)) (s\<lparr>wq_workers := (wq_workers s)[i := Exited]\<rparr>)"
| ip_enter: "\<not> wq_crashed s \<Longrightarrow> waiter_in s j {Outside, Returned} \<Longrightarrow>
    ip_step throws s (Idle_enter j) (s\<lparr>ip_waiters := (ip_waiters s)[j := Entering]\<rparr>)"
| ip_return: "\<not> wq_crashed s \<Longrightarrow> mtx_free s \<Longrightarrow> waiter_in s j {Entering, Woken} \<Longrightarrow> idle_now s \<Longrightarrow>
    ip_step throws s (Idle_return j) (s\<lparr>ip_waiters := (ip_waiters s)[j := Returned]\<rparr>)"
| ip_check: "\<not> wq_crashed s \<Longrightarrow> mtx_free s \<Longrightarrow> waiter_in s j {Entering, Woken} \<Longrightarrow> \<not> idle_now s \<Longrightarrow>
    ip_step throws s (Idle_check j) (s\<lparr>ip_waiters := (ip_waiters s)[j := Checked]\<rparr>)"
| ip_block: "\<not> wq_crashed s \<Longrightarrow> waiter_in s j {Checked} \<Longrightarrow>
    ip_step throws s (Idle_block j) (s\<lparr>ip_waiters := (ip_waiters s)[j := Asleep]\<rparr>)"
| ip_wake: "\<not> wq_crashed s \<Longrightarrow> waiter_in s j {Asleep} \<Longrightarrow>
    ip_step throws s (Idle_wake j) (s\<lparr>ip_waiters := (ip_waiters s)[j := Woken]\<rparr>)"

inductive ip_reach :: "('t \<Rightarrow> bool) \<Rightarrow> nat \<Rightarrow> nat \<Rightarrow> 't ipool \<Rightarrow> bool"
  for throws :: "'t \<Rightarrow> bool" and n :: nat and m :: nat where
  ip_reach_new: "ip_reach throws n m (ip_new n m)"
| ip_reach_step: "ip_reach throws n m s \<Longrightarrow> ip_step throws s e s' \<Longrightarrow> ip_reach throws n m s'"

section \<open>The pool underneath\<close>

text \<open>What a step of a worker adds to the same step of the plain queue.\<close>

fun after_pool :: "'t wq_event \<Rightarrow> ('t, 'z) ipool_scheme \<Rightarrow> ('t, 'z) ipool_scheme" where
  "after_pool (Take _) s = s\<lparr>ip_inflight := Suc (ip_inflight s)\<rparr>"
| "after_pool (Complete i) s = s\<lparr>ip_post := (ip_post s)[i := Must_decrement]\<rparr>"
| "after_pool _ s = s"

lemma ip_pool_step:
  assumes "ip_step throws s (Pool b) s'"
  shows "\<exists>t. wq_step throws s b t \<and> s' = after_pool b t \<and>
    (\<forall>i. b = Complete i \<longrightarrow> ip_post s ! i = No_post)"
  using assms
proof (cases rule: ip_step.cases)
  case (ip_submit t)
  then show ?thesis using wq_step.step_submit [of s throws t] by (auto simp: wq_updates)
next
  case (ip_notify_one n i)
  then show ?thesis using wq_step.step_notify [of s n i throws] by (auto simp: wq_updates worker_at_def)
next
  case (ip_notify_none n)
  then show ?thesis using wq_step.step_notify_none [of s n throws] by auto
next
  case (ip_sleep i)
  then show ?thesis using wq_step.step_sleep [of s i throws] by (auto simp: wq_updates worker_at_def)
next
  case (ip_spurious i)
  then show ?thesis using wq_step.step_wake [of s i throws] by (auto simp: wq_updates worker_at_def)
next
  case (ip_take i t ts)
  then show ?thesis using wq_step.step_take [of s i throws] by (auto simp: wq_updates worker_at_def)
next
  case (ip_complete i t)
  then show ?thesis using wq_step.step_complete [of s i t throws] by (auto simp: wq_updates worker_at_def)
next
  case (ip_crash i t)
  then show ?thesis using wq_step.step_crash [of s i t throws] by (auto simp: worker_at_def)
next
  case ip_stop
  then show ?thesis using wq_step.step_stop [of s throws] by auto
next
  case ip_notify_all
  then show ?thesis using wq_step.step_notify_all [of s throws] by (auto simp: wake_all_def)
next
  case (ip_exit i)
  then show ?thesis using wq_step.step_exit [of s i throws] by (auto simp: wq_updates worker_at_def)
qed

lemma wq_step_truncate: "wq_step throws s e s' \<Longrightarrow> wq_step throws (wq.truncate s) e (wq.truncate s')"
proof (induction rule: wq_step.induct)
  case (step_submit s t)
  then show ?case using wq_step.step_submit [of "wq.truncate s" throws t]
    by (simp add: wq.defs wq_updates)
next
  case (step_notify s n i)
  then show ?case using wq_step.step_notify [of "wq.truncate s" n i throws]
    by (simp add: wq.defs wq_updates)
next
  case (step_notify_none s n)
  then show ?case using wq_step.step_notify_none [of "wq.truncate s" n throws] by (simp add: wq.defs)
next
  case (step_sleep s i)
  then show ?case using wq_step.step_sleep [of "wq.truncate s" i throws] by (simp add: wq.defs wq_updates)
next
  case (step_wake s i)
  then show ?case using wq_step.step_wake [of "wq.truncate s" i throws] by (simp add: wq.defs wq_updates)
next
  case (step_take s i)
  then show ?case using wq_step.step_take [of "wq.truncate s" i throws] by (simp add: wq.defs wq_updates)
next
  case (step_complete s i t)
  then show ?case using wq_step.step_complete [of "wq.truncate s" i t throws] by (simp add: wq.defs wq_updates)
next
  case (step_crash s i t)
  then show ?case using wq_step.step_crash [of "wq.truncate s" i t throws] by (simp add: wq.defs wq_updates)
next
  case (step_stop s)
  then show ?case using wq_step.step_stop [of "wq.truncate s" throws] by (simp add: wq.defs)
next
  case (step_notify_all s)
  then show ?case using wq_step.step_notify_all [of "wq.truncate s" throws] by (simp add: wq.defs)
next
  case (step_exit s i)
  then show ?case using wq_step.step_exit [of "wq.truncate s" i throws] by (simp add: wq.defs wq_updates)
qed

lemma truncate_frame [simp]:
  "wq.truncate (s\<lparr>ip_inflight := a\<rparr>) = wq.truncate s" "wq.truncate (s\<lparr>ip_post := b\<rparr>) = wq.truncate s"
  "wq.truncate (s\<lparr>ip_waiters := c\<rparr>) = wq.truncate s" "wq.truncate (after_pool e s) = wq.truncate s"
  by (simp_all add: wq.defs) (cases e; simp)

lemma wq_inv_frame [simp]:
  "wq_inv (s\<lparr>ip_inflight := a\<rparr>) = wq_inv s" "wq_inv (s\<lparr>ip_post := b\<rparr>) = wq_inv s"
  "wq_inv (s\<lparr>ip_waiters := c\<rparr>) = wq_inv s" "wq_inv (after_pool e s) = wq_inv s"
  by (simp_all add: wq_inv_def) (cases e; simp)

text \<open>Simulation: a step of a worker or of a client that submits is that step of the plain queue, every other step
  leaves the queue alone.\<close>

definition queue_event :: "'t ip_event \<Rightarrow> 't wq_event option" where
  "queue_event e = (case e of Pool b \<Rightarrow> Some b | _ \<Rightarrow> None)"

lemma ip_step_wq:
  assumes "ip_step throws s e s'"
  shows "case queue_event e of
    None \<Rightarrow> wq.truncate s' = wq.truncate s
  | Some b \<Rightarrow> wq_step throws (wq.truncate s) b (wq.truncate s')"
proof (cases "\<exists>b. e = Pool b")
  case True
  then obtain b t where "e = Pool b" "wq_step throws s b t" "s' = after_pool b t"
    using assms ip_pool_step by blast
  then show ?thesis using wq_step_truncate [of throws s b t] by (simp add: queue_event_def)
next
  case False
  from assms False show ?thesis
    by (cases rule: ip_step.cases) (simp_all add: queue_event_def)
qed

text \<open>The converse: when no client holds the mutex and the workers are not between a task and the top of their
  loop, every step of the plain queue is a step of this pool.\<close>

lemma wq_step_ip:
  assumes "wq_step throws (wq.truncate s) b t" and "mtx_free s"
    and "length (ip_post s) = length (wq_workers s)" and "\<forall>p \<in> set (ip_post s). p = No_post"
  shows "\<exists>s'. ip_step throws s (Pool b) s' \<and> wq.truncate s' = t"
proof -
  have at: "worker_at s i p" if "worker_is (wq.truncate s) i p" for i p
    using that assms(3,4) by (simp add: worker_at_def worker_is_def wq.defs)
  from assms(1) show ?thesis
  proof cases
    case (step_submit t)
    then show ?thesis using ip_step.ip_submit [of s throws t] assms(2) by (auto simp: wq.defs wq_updates)
  next
    case (step_notify n i)
    then show ?thesis using ip_step.ip_notify_one [of s n i throws] at by (auto simp: wq.defs wq_updates)
  next
    case (step_notify_none n)
    then show ?thesis using ip_step.ip_notify_none [of s n throws] by (auto simp: wq.defs)
  next
    case (step_sleep i)
    then show ?thesis using ip_step.ip_sleep [of s i throws] at assms(2) by (auto simp: wq.defs wq_updates)
  next
    case (step_wake i)
    then show ?thesis using ip_step.ip_spurious [of s i throws] at by (auto simp: wq.defs wq_updates)
  next
    case (step_take i)
    then obtain u us where tasks: "wq_tasks s = u # us" by (cases "wq_tasks s") (simp_all add: wq.defs)
    have "worker_at s i Ready" "\<not> wq_crashed s" using at step_take by (simp_all add: wq.defs)
    from ip_step.ip_take [OF this(2) assms(2) this(1) tasks] tasks show ?thesis
      unfolding step_take(1,2) by (intro exI conjI) (assumption, simp add: wq.defs wq_updates)
  next
    case (step_complete i t)
    then show ?thesis using ip_step.ip_complete [of s i t throws] at by (auto simp: wq.defs wq_updates)
  next
    case (step_crash i t)
    then show ?thesis using ip_step.ip_crash [of s i t throws] at by (auto simp: wq.defs)
  next
    case step_stop
    then show ?thesis using ip_step.ip_stop [of s throws] assms(2) by (auto simp: wq.defs)
  next
    case step_notify_all
    then show ?thesis using ip_step.ip_notify_all [of s throws] by (auto simp: wq.defs wake_all_def)
  next
    case (step_exit i)
    then show ?thesis using ip_step.ip_exit [of s i throws] at assms(2) by (auto simp: wq.defs wq_updates)
  qed
qed

section \<open>The counter of running tasks\<close>

definition due :: "post list \<Rightarrow> nat" where
  "due ps = length (filter (\<lambda>p. p = Must_decrement) ps)"

lemma due_update:
  "i < length ps \<Longrightarrow> due (ps[i := p]) + (if ps ! i = Must_decrement then 1 else 0) =
    due ps + (if p = Must_decrement then 1 else 0)"
proof (induction ps arbitrary: i)
  case (Cons a ps)
  have due_Cons: "due (x # xs) = (if x = Must_decrement then 1 else 0) + due xs" for x xs
    by (simp add: due_def)
  show ?case
  proof (cases i)
    case 0
    then show ?thesis by (simp add: due_Cons)
  next
    case (Suc j)
    then show ?thesis using Cons.IH [of j] Cons.prems by (simp add: due_Cons split del: if_split)
  qed
qed simp

definition ip_inv :: "'t ipool \<Rightarrow> bool" where
  "ip_inv s \<longleftrightarrow> wq_inv s \<and> length (ip_post s) = length (wq_workers s) \<and>
     ip_inflight s = length (running (wq_workers s)) + due (ip_post s)"

lemma wq_step_ip_frame:
  "wq_step throws s e s' \<Longrightarrow> ip_inflight s' = ip_inflight s \<and> ip_post s' = ip_post s \<and> ip_waiters s' = ip_waiters s"
  by (induction rule: wq_step.induct) (simp_all add: wq_updates)

lemma running_step:
  assumes "wq_step throws s e s'"
  shows "length (running (wq_workers s')) =
    (case e of Take _ \<Rightarrow> Suc (length (running (wq_workers s)))
     | Complete _ \<Rightarrow> length (running (wq_workers s)) - 1 | _ \<Rightarrow> length (running (wq_workers s)))"
    and "\<forall>i. e = Complete i \<longrightarrow> i < length (wq_workers s) \<and> running (wq_workers s) \<noteq> []"
proof -
  have up: "length (running ((wq_workers s)[i := p])) =
      length (running (wq_workers s)) + length (tasks_of p) - length (tasks_of (wq_workers s ! i))"
    "length (tasks_of (wq_workers s ! i)) \<le> length (running (wq_workers s))"
    if "i < length (wq_workers s)" for i p
    using running_update_length [OF that, of p] running_update_length [OF that, of Ready] by simp_all
  show "length (running (wq_workers s')) =
    (case e of Take _ \<Rightarrow> Suc (length (running (wq_workers s)))
     | Complete _ \<Rightarrow> length (running (wq_workers s)) - 1 | _ \<Rightarrow> length (running (wq_workers s)))"
    using assms by cases (auto simp: wq_updates up)
  show "\<forall>i. e = Complete i \<longrightarrow> i < length (wq_workers s) \<and> running (wq_workers s) \<noteq> []"
    using assms by cases (auto simp: worker_is_def dest!: up(2))
qed

lemma ip_step_inv:
  assumes "ip_step throws s e s'" and "ip_inv s"
  shows "ip_inv s'"
proof (cases "\<exists>b. e = Pool b")
  case True
  then obtain b t where e: "e = Pool b" and t: "wq_step throws s b t" "s' = after_pool b t"
    and post: "\<forall>i. b = Complete i \<longrightarrow> ip_post s ! i = No_post"
    using assms(1) ip_pool_step by blast
  note frame = wq_step_ip_frame [OF t(1)] and len = wq_step_workers [OF t(1)]
  note run = running_step [OF t(1)]
  have inv: "wq_inv t" using wq_step_inv [OF t(1)] assms(2) by (simp add: ip_inv_def)
  show ?thesis
  proof (cases "\<exists>i. b = Complete i")
    case True
    then obtain i where b: "b = Complete i" by blast
    have i: "i < length (ip_post s)" "running (wq_workers s) \<noteq> []"
      using run(2) b assms(2) by (auto simp: ip_inv_def)
    have "ip_post s ! i = No_post" using post b by simp
    then have "due ((ip_post s)[i := Must_decrement]) = Suc (due (ip_post s))"
      using due_update [OF i(1), of Must_decrement] by simp
    then show ?thesis
      using assms(2) frame len run(1) inv i(2) unfolding t(2) b
      by (simp add: ip_inv_def)
  next
    case False
    then show ?thesis
      using assms(2) frame len run(1) inv unfolding t(2)
      by (cases b) (simp_all add: ip_inv_def)
  qed
next
  case False
  from assms(1) show ?thesis
  proof (cases rule: ip_step.cases)
    case (ip_dec i)
    then show ?thesis
      using assms(2) due_update [OF ip_dec(4), of Must_notify] by (simp add: ip_inv_def)
  next
    case (ip_notify_idle i)
    then show ?thesis
      using assms(2) due_update [OF ip_notify_idle(4), of No_post] by (simp add: ip_inv_def)
  qed (use assms(2) False in \<open>simp_all add: ip_inv_def\<close>)
qed

lemma ip_inv_new: "ip_inv (ip_new n m)"
  using wq_inv_new [of n]
  by (simp add: ip_inv_def ip_new_def wq.defs wq_new_def wq_inv_def running_def due_def)

lemma ip_reach_inv: "ip_reach throws n m s \<Longrightarrow> ip_inv s"
  by (induction rule: ip_reach.induct) (auto intro: ip_inv_new ip_step_inv)

section \<open>Properties\<close>

lemma truncate_new: "wq.truncate (ip_new n m) = wq_new n"
  by (simp add: ip_new_def wq.defs wq_new_def)

lemma ip_reach_wq:
  assumes "ip_reach throws n m s"
  shows "wq_reach throws n (wq.truncate s)"
  using assms
proof induction
  case ip_reach_new
  show ?case unfolding truncate_new by (rule reach_new)
next
  case (ip_reach_step s e s')
  from ip_step_wq [OF ip_reach_step(2)] show ?case
    using ip_reach_step.IH by (auto intro: reach_step split: option.splits)
qed

text \<open>C36: Refinement. The code of \<open>InsertThreadPool\<close> is the plain worker queue with an exact counter: each of its steps
  is the step of the same name of the queue or leaves the queue alone, \<open>inflight\<close> counts the workers inside
  a task and those that have not decremented it yet, and between tasks, with no client in \<open>wait_idle\<close>
  holding the mutex, every step of the queue is possible.\<close>

theorem insert_pool_refines_queue:
  assumes "ip_reach throws n m s"
  shows "wq_reach throws n (wq.truncate s) \<and>
    ip_inflight s = length (running (wq_workers s)) + due (ip_post s) \<and>
    (\<forall>e s'. ip_step throws s e s' \<longrightarrow>
       (case queue_event e of
          None \<Rightarrow> wq.truncate s' = wq.truncate s
        | Some b \<Rightarrow> wq_step throws (wq.truncate s) b (wq.truncate s'))) \<and>
    (mtx_free s \<and> (\<forall>p \<in> set (ip_post s). p = No_post) \<longrightarrow>
       (\<forall>b t. wq_step throws (wq.truncate s) b t \<longrightarrow> (\<exists>s'. ip_step throws s (Pool b) s' \<and> wq.truncate s' = t)))"
proof -
  have inv: "ip_inv s" by (rule ip_reach_inv [OF assms])
  then have len: "length (ip_post s) = length (wq_workers s)" by (simp add: ip_inv_def)
  have "ip_inflight s = length (running (wq_workers s)) + due (ip_post s)" using inv by (simp add: ip_inv_def)
  then show ?thesis
    using ip_reach_wq [OF assms] ip_step_wq wq_step_ip [OF _ _ len] by blast
qed

text \<open>C29: \<open>wait_idle\<close> never returns early. Whenever it returns, for any of the clients, the queue is empty, no
  worker is inside a task, and every task submitted so far has finished; \<open>inflight\<close> is exact, so it never
  underflows.\<close>

theorem wait_idle_sound:
  assumes "ip_reach throws n m s" and "ip_step throws s (Idle_return j) s'"
  shows "wq_tasks s' = [] \<and> running (wq_workers s') = [] \<and> mset (wq_done s') = mset (wq_submitted s') \<and>
    ip_inflight s' = 0"
proof -
  have inv: "ip_inv s" by (rule ip_reach_inv [OF assms(1)])
  from assms(2) have "idle_now s" "s' = s\<lparr>ip_waiters := (ip_waiters s)[j := Returned]\<rparr>"
    by (cases; simp)+
  moreover from this inv have "running (wq_workers s) = []" by (simp add: idle_now_def ip_inv_def)
  ultimately show ?thesis using inv by (simp add: ip_inv_def wq_inv_def idle_now_def)
qed

text \<open>A run with one worker, one client and one task, up to the point where the task has finished.\<close>

definition ip_demo :: "waiter \<Rightarrow> nat \<Rightarrow> post \<Rightarrow> nat phase \<Rightarrow> nat list \<Rightarrow> nat \<Rightarrow> nat ipool" where
  "ip_demo w fl p ph dn ntf = wq.extend
     \<lparr>wq_tasks = [], wq_stop = False, wq_workers = [ph], wq_notify = ntf, wq_notify_all = False,
      wq_crashed = False, wq_submitted = [7], wq_started = [7], wq_done = dn\<rparr>
     \<lparr>ip_inflight = fl, ip_post = [p], ip_waiters = [w]\<rparr>"

lemmas ip_demo_eval = ip_demo_def wq.defs wq_updates idle_now_def mtx_free_def waiter_in_def worker_at_def

lemma ip_demo_base: "ip_reach (\<lambda>_. False) 1 1 (ip_demo Outside 1 No_post (Running 7) [] 1)"
proof -
  let ?f = "\<lambda>_::nat. False"
  let ?s0 = "ip_new 1 1 :: nat ipool"
  let ?s1 = "?s0\<lparr>wq_tasks := [7], wq_notify := 1, wq_submitted := [7]\<rparr>"
  have "ip_step ?f ?s0 (Pool (Submit 7)) ?s1"
    using ip_step.ip_submit [of ?s0 ?f 7] by (simp add: ip_new_def wq_new_def ip_demo_eval)
  then have 1: "ip_reach ?f 1 1 ?s1" by (rule ip_reach_step [OF ip_reach_new])
  have "ip_step ?f ?s1 (Pool (Take 0)) (ip_demo Outside 1 No_post (Running 7) [] 1)"
    using ip_step.ip_take [of ?s1 0 7 "[]" ?f] by (simp add: ip_new_def wq_new_def ip_demo_eval)
  then show ?thesis by (rule ip_reach_step [OF 1])
qed

lemma ip_demo_finish:
  assumes "ip_reach (\<lambda>_. False) 1 1 (ip_demo w 1 No_post (Running 7) [] 1)"
  shows "ip_reach (\<lambda>_. False) 1 1 (ip_demo w 0 Must_notify Ready [7] 1)"
proof -
  let ?f = "\<lambda>_::nat. False"
  let ?s = "ip_demo w 1 No_post (Running 7) [] 1"
  have "ip_step ?f ?s (Pool (Complete 0)) (ip_demo w 1 Must_decrement Ready [7] 1)"
    using ip_step.ip_complete [of ?s 0 7 ?f] by (simp add: ip_demo_eval)
  then have 1: "ip_reach ?f 1 1 (ip_demo w 1 Must_decrement Ready [7] 1)" by (rule ip_reach_step [OF assms])
  have "ip_step ?f (ip_demo w 1 Must_decrement Ready [7] 1) (Decrement 0) (ip_demo w 0 Must_notify Ready [7] 1)"
    using ip_step.ip_dec [of "ip_demo w 1 Must_decrement Ready [7] 1" 0 ?f] by (simp add: ip_demo_eval)
  with 1 show ?thesis by (rule ip_reach_step)
qed

theorem insert_pool_refines_queue_witness:
  "wq_reach (\<lambda>_. False) 1 (wq.truncate (ip_demo Outside 0 Must_notify Ready [7] 1)) \<and>
    ip_inflight (ip_demo Outside 1 No_post (Running 7) [] 1) = 1"
  using insert_pool_refines_queue [OF ip_demo_finish [OF ip_demo_base]] insert_pool_refines_queue [OF ip_demo_base]
  by (simp add: ip_demo_eval running_def due_def)

theorem wait_idle_sound_witness:
  "\<exists>s s'. ip_reach (\<lambda>_. False) 1 1 s \<and> ip_step (\<lambda>_. False) s (Idle_return 0) s' \<and>
    wq_submitted s' = [7::nat] \<and> mset (wq_done s') = {#7#}"
proof -
  let ?f = "\<lambda>_::nat. False"
  let ?s = "ip_demo Entering 0 Must_notify Ready [7] 1" and ?t = "ip_demo Returned 0 Must_notify Ready [7] 1"
  have r: "ip_reach ?f 1 1 ?s"
    by (rule ip_reach_step [OF ip_demo_finish [OF ip_demo_base]])
      (use ip_step.ip_enter [of "ip_demo Outside 0 Must_notify Ready [7] 1" 0 ?f] in \<open>simp add: ip_demo_eval\<close>)
  have ret: "ip_step ?f ?s (Idle_return 0) ?t"
    using ip_step.ip_return [of ?s 0 ?f] by (simp add: ip_demo_eval)
  have sub: "wq_submitted ?t = [7]" by (simp add: ip_demo_eval)
  have "mset (wq_done ?t) = mset (wq_submitted ?t)" using wait_idle_sound [OF r ret] by blast
  then have "mset (wq_done ?t) = {#7#}" unfolding sub by simp
  with r ret sub show ?thesis by blast
qed

text \<open>C30: A lost wakeup in \<open>wait_idle\<close>. The worker decrements \<open>inflight\<close> and notifies \<open>idle_cv\<close> without the
  mutex, so both can fall between the waiter's test of the predicate and its blocking. Then all tasks
  are done, the waiter sleeps, and no step but a new submission, the destructor or a spurious wakeup
  is left.\<close>

theorem wait_idle_lost_wakeup:
  "\<exists>s. ip_reach (\<lambda>_. False) 1 1 s \<and> ip_waiters s = [Asleep] \<and> idle_now s \<and> wq_done s = wq_submitted s \<and>
    wq_submitted s = [7::nat] \<and>
    {e. \<exists>s'. ip_step (\<lambda>_. False) s e s'} \<subseteq> range (\<lambda>t. Pool (Submit t)) \<union> {Pool Stop, Pool (Wake 0), Idle_wake 0}"
proof -
  let ?f = "\<lambda>_::nat. False"
  have "ip_reach ?f 1 1 (ip_demo Entering 1 No_post (Running 7) [] 1)"
    by (rule ip_reach_step [OF ip_demo_base])
      (use ip_step.ip_enter [of "ip_demo Outside 1 No_post (Running 7) [] 1" 0 ?f] in \<open>simp add: ip_demo_eval\<close>)
  then have "ip_reach ?f 1 1 (ip_demo Checked 1 No_post (Running 7) [] 1)"
    by (rule ip_reach_step)
      (use ip_step.ip_check [of "ip_demo Entering 1 No_post (Running 7) [] 1" 0 ?f] in \<open>simp add: ip_demo_eval\<close>)
  from ip_demo_finish [OF this] have "ip_reach ?f 1 1 (ip_demo Checked 0 No_post Ready [7] 1)"
    by (rule ip_reach_step)
      (use ip_step.ip_notify_idle [of "ip_demo Checked 0 Must_notify Ready [7] 1" 0 ?f] in \<open>simp add: ip_demo_eval\<close>)
  then have "ip_reach ?f 1 1 (ip_demo Asleep 0 No_post Ready [7] 1)"
    by (rule ip_reach_step)
      (use ip_step.ip_block [of "ip_demo Checked 0 No_post Ready [7] 1" 0 ?f] in \<open>simp add: ip_demo_eval\<close>)
  then have "ip_reach ?f 1 1 (ip_demo Asleep 0 No_post Ready [7] 0)"
    by (rule ip_reach_step)
      (use ip_step.ip_notify_none [of "ip_demo Asleep 0 No_post Ready [7] 1" 0 ?f] in \<open>simp add: ip_demo_eval\<close>)
  then have reach: "ip_reach ?f 1 1 (ip_demo Asleep 0 No_post Blocked [7] 0)"
    by (rule ip_reach_step)
      (use ip_step.ip_sleep [of "ip_demo Asleep 0 No_post Ready [7] 0" 0 ?f] in \<open>simp add: ip_demo_eval\<close>)
  let ?s = "ip_demo Asleep 0 No_post Blocked [7] 0"
  have "e \<in> range (\<lambda>t. Pool (Submit t)) \<union> {Pool Stop, Pool (Wake 0), Idle_wake 0}"
    if "ip_step ?f ?s e s'" for e s'
    using that by cases (auto simp: ip_demo_eval)
  then show ?thesis
    using reach by (intro exI [of _ ?s]) (auto simp: ip_demo_eval)
qed

end
