(* ===== verification/LruPool.thy ===== *)
theory LruPool
  imports WorkQueue LruCache
begin

text \<open>
  \<open>LRUThreadPool\<close> of \<open>include/qvcache/lru_thread_pool.h\<close>: recency updates of the search path run in the
  background. A task is the list of accesses one call asks for; its worker performs them
  one by one, each a step of its own on the shared \<open>LRUCache\<close>, so tasks of different workers interleave.

  \<open>async_access\<close> and \<open>async_access_batch\<close> copy their tags into the task. \<open>async_access_array\<close> captures a
  pointer: its tags are read when the worker gets to them, so an operand of an access is a copied tag or an
  address of the caller's memory, which the caller may write or free at any time. Reading
  an address that is not allocated is undefined behaviour (\<open>lp_undefined\<close>).

  Exceptions of a task go into its future, so no task ends the process. \<open>enqueue_task\<close> throws to its
  caller once the pool is stopped. The futures' values are the replies of the accesses (\<open>lp_replies\<close>).
\<close>

section \<open>State and steps\<close>

datatype 'a operand = Copied 'a | At nat

datatype 'a request = Access_one 'a | Access_batch "'a list" | Access_array nat nat

text \<open>The accesses of a call: \<open>async_access\<close>, \<open>async_access_batch\<close> and \<open>async_access_array\<close> (pointer and count).\<close>

fun task_of :: "'a request \<Rightarrow> 'a operand list" where
  "task_of (Access_one tag) = [Copied tag]"
| "task_of (Access_batch tags) = map Copied tags"
| "task_of (Access_array tags_ptr cnt) = map (\<lambda>i. At (tags_ptr + i)) [0..<cnt]"

datatype 'a stage = Off | Taken | Active "'a operand list" "bool list" | Leaving

record 'a lpool = "'a operand list wq" +
  lp_cache :: "'a lru_cache"
  lp_memory :: "nat \<Rightarrow> 'a option"
  lp_stage :: "'a stage list"
  lp_active :: nat
  lp_undefined :: bool
  lp_log :: "('a operand \<times> 'a) list"
  lp_touched :: "nat set"
  lp_replies :: "bool list list"
  lp_rejected :: "'a request list"

definition lp_new :: "nat \<Rightarrow> (nat \<Rightarrow> 'a option) \<Rightarrow> 'a lru_cache \<Rightarrow> 'a lpool" where
  "lp_new n mem c = wq.extend (wq_new n)
     \<lparr>lp_cache = c, lp_memory = mem, lp_stage = replicate n Off, lp_active = 0, lp_undefined = False, lp_log = [],
      lp_touched = {}, lp_replies = [], lp_rejected = []\<rparr>"

text \<open>The tag an access reads, if its operand can be read.\<close>

fun read_operand :: "(nat \<Rightarrow> 'a option) \<Rightarrow> 'a operand \<Rightarrow> 'a option" where
  "read_operand mem (Copied t) = Some t"
| "read_operand mem (At a) = mem a"

datatype 'a lp_event =
  Base "'a operand list wq_event" | Activate nat | Access_tag nat | Read_freed nat | Finish nat | Deactivate nat
  | Reject "'a request" | Caller_writes nat

fun lp_actor :: "'b wq_event \<Rightarrow> nat option" where
  "lp_actor (Sleep i) = Some i"
| "lp_actor (Wake i) = Some i"
| "lp_actor (Take i) = Some i"
| "lp_actor (Exit i) = Some i"
| "lp_actor _ = None"

fun lp_after :: "'b wq_event \<Rightarrow> ('a, 'z) lpool_scheme \<Rightarrow> ('a, 'z) lpool_scheme" where
  "lp_after (Take i) s = s\<lparr>lp_stage := (lp_stage s)[i := Taken]\<rparr>"
| "lp_after _ s = s"

definition plain :: "'b wq_event \<Rightarrow> bool" where
  "plain e \<longleftrightarrow> (case e of Complete _ \<Rightarrow> False | Crash _ \<Rightarrow> False | _ \<Rightarrow> True)"

text \<open>\<open>lp_log\<close> and \<open>lp_touched\<close> are history: the accesses made, in order, each with its operand and the tag it read,
  and the addresses the caller wrote or freed.\<close>

inductive lp_step :: "'a lpool \<Rightarrow> 'a lp_event \<Rightarrow> 'a lpool \<Rightarrow> bool" where
  lp_pool: "wq_step (\<lambda>_. False) s e s' \<Longrightarrow> plain e \<Longrightarrow>
    (case e of Submit ops \<Rightarrow> ops \<in> range task_of | _ \<Rightarrow> True) \<Longrightarrow>
    (case lp_actor e of None \<Rightarrow> True | Some i \<Rightarrow> lp_stage s ! i = Off) \<Longrightarrow>
    lp_step s (Base e) (lp_after e s')"
| lp_activate: "worker_is s i (Running ops) \<Longrightarrow> lp_stage s ! i = Taken \<Longrightarrow>
    lp_step s (Activate i)
      (s\<lparr>lp_active := Suc (lp_active s), lp_stage := (lp_stage s)[i := Active ops []]\<rparr>)"
| lp_access: "worker_is s i (Running ops) \<Longrightarrow> lp_stage s ! i = Active (x # rest) rs \<Longrightarrow>
    read_operand (lp_memory s) x = Some t \<Longrightarrow> lru_access t (lp_cache s) = Inr (b, c) \<Longrightarrow>
    lp_step s (Access_tag i)
      (s\<lparr>lp_cache := c, lp_stage := (lp_stage s)[i := Active rest (rs @ [b])], lp_log := lp_log s @ [(x, t)]\<rparr>)"
| lp_read_freed: "worker_is s i (Running ops) \<Longrightarrow> lp_stage s ! i = Active (x # rest) rs \<Longrightarrow>
    read_operand (lp_memory s) x = None \<Longrightarrow>
    lp_step s (Read_freed i) (s\<lparr>lp_undefined := True\<rparr>)"
| lp_finish: "worker_is s i (Running ops) \<Longrightarrow> lp_stage s ! i = Active [] rs \<Longrightarrow>
    wq_step (\<lambda>_. False) s (Complete i) s' \<Longrightarrow>
    lp_step s (Finish i)
      (s'\<lparr>lp_replies := lp_replies s @ [rs], lp_stage := (lp_stage s)[i := Leaving]\<rparr>)"
| lp_deactivate: "i < length (lp_stage s) \<Longrightarrow> lp_stage s ! i = Leaving \<Longrightarrow>
    lp_step s (Deactivate i) (s\<lparr>lp_active := lp_active s - 1, lp_stage := (lp_stage s)[i := Off]\<rparr>)"
| lp_reject: "wq_stop s \<Longrightarrow> lp_step s (Reject r) (s\<lparr>lp_rejected := lp_rejected s @ [r]\<rparr>)"
| lp_caller: "lp_step s (Caller_writes a)
    (s\<lparr>lp_memory := (lp_memory s)(a := v), lp_touched := insert a (lp_touched s)\<rparr>)"

inductive lp_reach :: "nat \<Rightarrow> (nat \<Rightarrow> 'a option) \<Rightarrow> 'a lru_cache \<Rightarrow> 'a lpool \<Rightarrow> bool"
  for n :: nat and mem :: "nat \<Rightarrow> 'a option" and c0 :: "'a lru_cache" where
  lp_reach_new: "lp_reach n mem c0 (lp_new n mem c0)"
| lp_reach_step: "lp_reach n mem c0 s \<Longrightarrow> lp_step s e s' \<Longrightarrow> lp_reach n mem c0 s'"

section \<open>Invariant\<close>




















section \<open>What an access reads\<close>









section \<open>Property\<close>






end
