(* ===== verification/Spec2Isabelle.thy ===== *)
theory Spec2Isabelle
  imports QvProperties InsertPool LruPool
begin

text \<open>Header.\<close>

end
